(* ===== verification/Prelude.thy ===== *)
theory Prelude
  imports Main "HOL-Library.Word"
begin

text \<open>
  Shared ground of the development.

  \<^item> Machine integers.  The kernel is built for a 64-bit target and tested in the debug
    profile (\<open>make test\<close>, the CI job), where an arithmetic overflow of \<open>usize\<close> panics and
    \<open>debug_assert!\<close> is live.  A \<open>usize\<close> is a natural number below \<open>2 ^ 64\<close>; every run-time
    \<open>+\<close>, \<open>-\<close> and \<open>*\<close> of the source goes through \<open>uadd\<close>, \<open>usub\<close> and \<open>umul\<close>, which return a panic where
    the hardware result would not fit.  Bytes are \<open>8 word\<close>, device registers \<open>8 word\<close> or
    \<open>32 word\<close>.
  \<^item> Panics.  A Rust function that may panic returns \<open>'a result\<close>; \<open>Panic msg\<close> carries the
    message of the source.  \<open>bindR\<close> sequences two such computations.
  \<^item> The iterator and slice functions of the standard library the kernel uses.
  \<^item> The collections \<open>result_simps\<close> (evaluation of the panic monad) and \<open>align_simps\<close>
    (page and granule alignment) that the component proofs pass to the simplifier.
\<close>

unbundle bit_operations_syntax

named_theorems result_simps
named_theorems align_simps

type_synonym usize = nat
type_synonym u8 = "8 word"
type_synonym u32 = "32 word"

section \<open>Panics\<close>

datatype 'a result = Ok 'a | Panic string

primrec bindR :: "'a result \<Rightarrow> ('a \<Rightarrow> 'b result) \<Rightarrow> 'b result" where
  "bindR (Ok x) f = f x"
| "bindR (Panic e) f = Panic e"

definition assertR :: "bool \<Rightarrow> string \<Rightarrow> unit result" where
  "assertR b msg = (if b then Ok () else Panic msg)"

definition expectR :: "'a option \<Rightarrow> string \<Rightarrow> 'a result" where
  "expectR x msg = (case x of None \<Rightarrow> Panic msg | Some v \<Rightarrow> Ok v)"

text \<open>\<open>no_panic\<close> holds of a computation that returns.\<close>

definition no_panic :: "'a result \<Rightarrow> bool" where
  "no_panic r = (case r of Ok _ \<Rightarrow> True | Panic _ \<Rightarrow> False)"

section \<open>Checked machine arithmetic\<close>

definition usize_max :: usize where
  "usize_max = 2 ^ 64 - 1"

definition uadd :: "usize \<Rightarrow> usize \<Rightarrow> usize result" where
  "uadd a b = (if a + b \<le> usize_max then Ok (a + b)
               else Panic ''attempt to add with overflow'')"

definition usub :: "usize \<Rightarrow> usize \<Rightarrow> usize result" where
  "usub a b = (if b \<le> a then Ok (a - b) else Panic ''attempt to subtract with overflow'')"

definition umul :: "usize \<Rightarrow> usize \<Rightarrow> usize result" where
  "umul a b = (if a * b \<le> usize_max then Ok (a * b)
               else Panic ''attempt to multiply with overflow'')"

definition checked_add :: "usize \<Rightarrow> usize \<Rightarrow> usize option" where
  "checked_add a b = (if a + b \<le> usize_max then Some (a + b) else None)"

definition saturating_mul :: "usize \<Rightarrow> usize \<Rightarrow> usize" where
  "saturating_mul a b = min (a * b) usize_max"

definition wrapping_add :: "usize \<Rightarrow> usize \<Rightarrow> usize" where
  "wrapping_add a b = (a + b) mod 2 ^ 64"

text \<open>\<open>wrapping_add\<close> is also what \<open>AtomicUsize::fetch_add\<close> does.\<close>

definition div_ceil :: "usize \<Rightarrow> usize \<Rightarrow> usize" where
  "div_ceil a b = a div b + (if a mod b = 0 then 0 else 1)"

definition is_multiple_of :: "usize \<Rightarrow> usize \<Rightarrow> bool" where
  "is_multiple_of a b = (if b = 0 then a = 0 else a mod b = 0)"

text \<open>The bitwise complement \<open>!x\<close> at 64 bits, and the shifts, which drop the bits that leave
  the word.\<close>

definition unot :: "usize \<Rightarrow> usize" where
  "unot x = usize_max - x"

definition ushl :: "usize \<Rightarrow> nat \<Rightarrow> usize" where
  "ushl x n = take_bit 64 (push_bit n x)"

definition ushr :: "usize \<Rightarrow> nat \<Rightarrow> usize" where
  "ushr x n = drop_bit n x"

text \<open>\<open>next_multiple_of\<close> panics in the debug profile when the multiple does not fit.\<close>

definition next_multiple_of :: "usize \<Rightarrow> usize \<Rightarrow> usize result" where
  "next_multiple_of a b = (if a mod b = 0 then Ok a else uadd a (b - a mod b))"

section \<open>Iterators\<close>

text \<open>\<open>iter().position(p)\<close>: the index of the first element satisfying \<open>p\<close>.\<close>

fun position :: "('a \<Rightarrow> bool) \<Rightarrow> 'a list \<Rightarrow> nat option" where
  "position p [] = None"
| "position p (x # xs) = (if p x then Some 0 else map_option Suc (position p xs))"

text \<open>\<open>slice.get(i)\<close>.\<close>

definition get_at :: "'a list \<Rightarrow> nat \<Rightarrow> 'a option" where
  "get_at xs i = (if i < length xs then Some (xs ! i) else None)"

section \<open>Evaluation of the panic monad\<close>

lemma assertR_True [simp]: "assertR True msg = Ok ()"
  by (simp add: assertR_def)

lemma assertR_False [simp]: "assertR False msg = Panic msg"
  by (simp add: assertR_def)

lemma expectR_simps [simp]:
  "expectR (Some v) msg = Ok v" "expectR None msg = Panic msg"
  by (simp_all add: expectR_def)

lemma no_panic_simps [simp]: "no_panic (Ok x)" "\<not> no_panic (Panic e)"
  by (simp_all add: no_panic_def)

lemma no_panic_iff: "no_panic r \<longleftrightarrow> (\<exists>x. r = Ok x)"
  by (cases r) simp_all

lemma bindR_cong [fundef_cong]:
  "m = m' \<Longrightarrow> (\<And>x. m' = Ok x \<Longrightarrow> f x = g x) \<Longrightarrow> bindR m f = bindR m' g"
  by (cases m') simp_all

lemma bindR_assoc: "bindR (bindR r f) g = bindR r (\<lambda>x. bindR (f x) g)"
  by (cases r) simp_all

lemma bindR_eq_Ok [result_simps]:
  "bindR m f = Ok y \<longleftrightarrow> (\<exists>x. m = Ok x \<and> f x = Ok y)"
  by (cases m) simp_all

lemma bindR_OkE: "bindR m f = Ok y \<Longrightarrow> (\<And>x. m = Ok x \<Longrightarrow> f x = Ok y \<Longrightarrow> thesis) \<Longrightarrow> thesis"
  by (cases m) simp_all

lemma bindR_Ok_pairE:
  "bindR m f = Ok y \<Longrightarrow> (\<And>a b. m = Ok (a, b) \<Longrightarrow> f (a, b) = Ok y \<Longrightarrow> thesis) \<Longrightarrow> thesis"
  by (cases m) auto

lemma assertR_eq_Ok [result_simps]: "assertR b msg = Ok u \<longleftrightarrow> b"
  by (simp add: assertR_def)

lemma expectR_eq_Ok [result_simps]: "expectR x msg = Ok v \<longleftrightarrow> x = Some v"
  by (simp add: expectR_def split: option.splits)

lemma uadd_eq_Ok [result_simps]: "uadd a b = Ok c \<longleftrightarrow> c = a + b \<and> a + b \<le> usize_max"
  by (auto simp: uadd_def)

lemma usub_eq_Ok [result_simps]: "usub a b = Ok c \<longleftrightarrow> c = a - b \<and> b \<le> a"
  by (auto simp: usub_def)

lemma umul_eq_Ok [result_simps]: "umul a b = Ok c \<longleftrightarrow> c = a * b \<and> a * b \<le> usize_max"
  by (auto simp: umul_def)

lemma checked_add_eq_Some [result_simps]:
  "checked_add a b = Some c \<longleftrightarrow> c = a + b \<and> a + b \<le> usize_max"
  by (auto simp: checked_add_def)

lemma uadd_Ok [simp]: "a + b \<le> usize_max \<Longrightarrow> uadd a b = Ok (a + b)"
  by (simp add: uadd_def)

lemma usub_Ok [simp]: "b \<le> a \<Longrightarrow> usub a b = Ok (a - b)"
  by (simp add: usub_def)

lemma umul_Ok [simp]: "a * b \<le> usize_max \<Longrightarrow> umul a b = Ok (a * b)"
  by (simp add: umul_def)

section \<open>Machine words and alignment\<close>

lemma usize_max_eq: "usize_max = 18446744073709551615"
  by (simp add: usize_max_def)

lemma le_usize_max_iff: "x \<le> usize_max \<longleftrightarrow> x < 2 ^ 64"
  unfolding usize_max_eq by simp linarith

text \<open>Masking with the complement of \<open>2 ^ n - 1\<close> rounds down to a multiple of \<open>2 ^ n\<close>.\<close>

lemma bit_unot: "x \<le> usize_max \<Longrightarrow> bit (unot x) i \<longleftrightarrow> i < 64 \<and> \<not> bit x i"
proof -
  assume "x \<le> usize_max"
  then have x: "x < 2 ^ 64" by (simp only: le_usize_max_iff)
  have "int (unot x) = take_bit 64 (NOT (int x))"
  proof -
    have "int (unot x) = 2 ^ 64 - 1 - int x"
      using x by (simp add: unot_def usize_max_def)
    also have "\<dots> = (NOT (int x)) mod 2 ^ 64"
    proof -
      have "(2 ^ 64 - 1 - int x) mod 2 ^ 64 = 2 ^ 64 - 1 - int x"
        using x by (intro mod_pos_pos_trivial) auto
      moreover have "(2 ^ 64 + (- int x - 1)) mod 2 ^ 64 = (- int x - 1) mod 2 ^ 64"
        by (rule mod_add_self1)
      moreover have "2 ^ 64 + (- int x - 1) = 2 ^ 64 - 1 - int x" by simp
      moreover have "NOT (int x) = - int x - 1" by (simp add: not_int_def)
      ultimately show ?thesis by simp
    qed
    finally show ?thesis by (simp add: take_bit_eq_mod)
  qed
  then have "bit (int (unot x)) i = bit (take_bit 64 (NOT (int x))) i" by simp
  then show ?thesis by (simp add: bit_simps)
qed

lemma usize_bit_bound: "x \<le> usize_max \<Longrightarrow> bit x i \<Longrightarrow> i < 64"
proof (rule ccontr)
  assume x: "x \<le> usize_max" and b: "bit x i" and "\<not> i < 64"
  then have "x < 2 ^ i"
    using power_increasing [of 64 i "2 :: nat"] by (simp only: le_usize_max_iff) linarith
  with b show False by (simp add: bit_iff_odd)
qed

lemma round_down_eq: "x - x mod 2 ^ n = push_bit n (drop_bit n (x :: nat))"
  by (simp add: push_bit_eq_mult drop_bit_eq_div minus_mod_eq_div_mult)

lemma and_unot_mask:
  assumes "x \<le> usize_max" and "n \<le> 64"
  shows "x AND unot (2 ^ n - 1) = x - x mod 2 ^ n"
proof (rule bit_eqI)
  fix i
  have "mask n \<le> usize_max"
    using power_increasing [of n 64 "2 :: nat"] assms(2) by (simp add: usize_max_def mask_nat_def)
  then have "bit (unot (mask n)) i \<longleftrightarrow> i < 64 \<and> \<not> i < n"
    using bit_unot [of "mask n" i] by (simp add: bit_mask_iff)
  then show "bit (x AND unot (2 ^ n - 1)) i \<longleftrightarrow> bit (x - x mod 2 ^ n) i"
    using usize_bit_bound [OF assms(1), of i]
    unfolding mask_nat_def [symmetric]
    by (auto simp: round_down_eq bit_and_iff bit_push_bit_iff_nat bit_drop_bit_eq)
qed

lemma ushr_eq: "ushr x n = x div 2 ^ n"
  by (simp add: ushr_def drop_bit_eq_div)

lemma ushl_eq: "ushl x n = (x * 2 ^ n) mod 2 ^ 64"
  by (simp add: ushl_def push_bit_eq_mult take_bit_eq_mod)

lemma and_bit_eq_0: "x AND 2 ^ n = 0 \<longleftrightarrow> \<not> bit x n"
  by (rule and_exp_eq_0_iff_not_bit)

lemma bit_pow2: "bit ((2::nat) ^ n) i \<longleftrightarrow> i = n"
  by (auto simp only: bit_exp_iff possible_bit_nat)

lemma and_low_mask: "(x::nat) AND mask n = x mod 2 ^ n"
  by (simp only: take_bit_eq_mask [symmetric] take_bit_eq_mod)

lemma is_multiple_of_iff [simp]: "is_multiple_of a b \<longleftrightarrow> b dvd a"
  by (auto simp: is_multiple_of_def mod_eq_0_iff_dvd)

lemma div_ceil_bounds:
  assumes "0 < b"
  shows "a \<le> div_ceil a b * b" and "div_ceil a b * b < a + b"
proof -
  have a: "a div b * b + a mod b = a" by simp
  have m: "a mod b < b" using assms by simp
  have c: "div_ceil a b * b = a div b * b + (if a mod b = 0 then 0 else b)"
    by (simp add: div_ceil_def)
  show "a \<le> div_ceil a b * b"
    using a m assms by (cases "a mod b = 0"; simp only: c if_True if_False; linarith)
  show "div_ceil a b * b < a + b"
  proof (cases "a mod b = 0")
    case False
    then have "0 < a mod b" by simp
    with False a show ?thesis by (simp only: c if_False)
  qed (use a assms in \<open>simp add: c\<close>)
qed

lemma next_multiple_of_eq_Ok [result_simps]:
  assumes "0 < b"
  shows "next_multiple_of a b = Ok c \<longleftrightarrow> c = div_ceil a b * b \<and> c \<le> usize_max \<or> a mod b = 0 \<and> c = a"
proof (cases "a mod b = 0")
  case True
  then show ?thesis by (auto simp: next_multiple_of_def div_ceil_def)
next
  case False
  have "a + (b - a mod b) = div_ceil a b * b"
  proof -
    have "a mod b < b" using assms by simp
    moreover have "a = a div b * b + a mod b" by simp
    ultimately have "a + (b - a mod b) = a div b * b + b" by linarith
    then show ?thesis using False by (simp add: div_ceil_def)
  qed
  with False show ?thesis by (auto simp: next_multiple_of_def uadd_eq_Ok)
qed

section \<open>Lists\<close>

lemma position_Some_iff:
  "position p xs = Some i \<longleftrightarrow> i < length xs \<and> p (xs ! i) \<and> (\<forall>j<i. \<not> p (xs ! j))"
proof (induction xs arbitrary: i)
  case Nil
  then show ?case by simp
next
  case (Cons x xs)
  then show ?case by (cases i) (auto simp: less_Suc_eq_0_disj)
qed

lemma position_None_iff: "position p xs = None \<longleftrightarrow> (\<forall>x\<in>set xs. \<not> p x)"
  by (induction xs) auto

lemma get_at_Some_iff: "get_at xs i = Some x \<longleftrightarrow> i < length xs \<and> xs ! i = x"
  by (auto simp: get_at_def)

end
