(* ===== verification/Memlayout.thy ===== *)
theory Memlayout
  imports Prelude
begin

text \<open>
  \<open>memlayout.rs\<close>: the physical memory map of the machine, and the kernel image's own section
  boundaries.  The boundaries are symbols the linker defines, so they are a parameter of the
  model, the record \<open>layout\<close>; \<open>layout_ok\<close> states what \<open>linker.ld\<close> guarantees about them
  (the order of the sections, their page alignment and the load address) together with the fact
  that the image and the kernel heap fit below the top of DRAM.
\<close>

definition PAGE_SIZE :: usize where "PAGE_SIZE = 4096"

definition PLIC :: usize where "PLIC = 0x0c000000"
definition PLIC_SIZE :: usize where "PLIC_SIZE = 0x400000"
definition UART0 :: usize where "UART0 = 0x10000000"
definition UART0_IRQ :: u32 where "UART0_IRQ = 10"

definition DRAM_BASE :: usize where "DRAM_BASE = 0x80000000"
definition PHYS_TOP :: usize where "PHYS_TOP = DRAM_BASE + 128 * 1024 * 1024"
definition HEAP_SIZE :: usize where "HEAP_SIZE = 8 * 1024 * 1024"

record layout =
  kernel_start :: usize
  text_start :: usize
  text_end :: usize
  user_start :: usize
  user_end :: usize
  rodata_start :: usize
  rodata_end :: usize
  data_start :: usize
  kernel_end :: usize

definition heap_start :: "layout \<Rightarrow> usize" where
  "heap_start L = kernel_end L"

definition alloc_start :: "layout \<Rightarrow> usize" where
  "alloc_start L = heap_start L + HEAP_SIZE"

definition page_aligned :: "usize \<Rightarrow> bool" where
  "page_aligned a \<longleftrightarrow> a mod PAGE_SIZE = 0"

definition layout_ok :: "layout \<Rightarrow> bool" where
  "layout_ok L \<longleftrightarrow>
     kernel_start L = 0x80200000 \<and> text_start L = kernel_start L \<and>
     text_start L < text_end L \<and> text_end L \<le> user_start L \<and>
     user_start L \<le> user_end L \<and> user_end L \<le> rodata_start L \<and>
     rodata_start L < rodata_end L \<and> rodata_end L \<le> data_start L \<and>
     data_start L < kernel_end L \<and> alloc_start L < PHYS_TOP \<and>
     page_aligned (text_start L) \<and> page_aligned (text_end L) \<and>
     page_aligned (user_start L) \<and> page_aligned (user_end L) \<and>
     page_aligned (rodata_start L) \<and> page_aligned (rodata_end L) \<and>
     page_aligned (data_start L) \<and> page_aligned (kernel_end L)"

lemmas memlayout_consts =
  PAGE_SIZE_def PLIC_def PLIC_SIZE_def UART0_def UART0_IRQ_def DRAM_BASE_def PHYS_TOP_def
  HEAP_SIZE_def

lemma alloc_start_aligned [align_simps]: "layout_ok L \<Longrightarrow> page_aligned (alloc_start L)"
  by (auto simp: layout_ok_def page_aligned_def alloc_start_def heap_start_def HEAP_SIZE_def
      PAGE_SIZE_def mod_add_left_eq [symmetric])

lemma alloc_start_above_dram: "layout_ok L \<Longrightarrow> DRAM_BASE < alloc_start L"
  by (auto simp: layout_ok_def alloc_start_def heap_start_def HEAP_SIZE_def DRAM_BASE_def)

lemma page_aligned_dvd [align_simps]: "page_aligned a \<longleftrightarrow> PAGE_SIZE dvd a"
  by (simp add: page_aligned_def mod_eq_0_iff_dvd)

text \<open>Two distinct pages do not overlap.\<close>

lemma pages_disjoint:
  assumes "page_aligned p" and "page_aligned q" and "p \<noteq> q"
    and "p \<le> a" and "a < p + PAGE_SIZE"
  shows "\<not> (q \<le> a \<and> a < q + PAGE_SIZE)"
proof
  assume q: "q \<le> a \<and> a < q + PAGE_SIZE"
  from assms(1,2) obtain m n where "p = 4096 * m" and "q = 4096 * n"
    by (auto simp: page_aligned_def PAGE_SIZE_def mod_eq_0_iff_dvd elim!: dvdE)
  moreover from this assms(3) have "m < n \<or> n < m" by auto
  ultimately show False using assms(4,5) q unfolding PAGE_SIZE_def by auto
qed

lemma page_index_unique:
  assumes "page_aligned p" and "page_aligned q" and "i < PAGE_SIZE" and "j < PAGE_SIZE"
    and "p + i = q + j"
  shows "p = q" and "i = j"
proof -
  from pages_disjoint [OF assms(1,2), of "p + i"] assms(3-5)
  show "p = q" by auto
  with assms(5) show "i = j" by simp
qed

end
