(* ===== verification/Memory.thy ===== *)
theory Memory
  imports Memlayout
begin

text \<open>
  Physical memory as the kernel's raw pointers see it: a byte per address, little-endian
  multi-byte accesses, and the two bulk writes of \<open>core::ptr\<close> (\<open>write_bytes\<close> and
  \<open>copy_nonoverlapping\<close>).  The kernel runs identity-mapped, so a kernel pointer is a physical
  address.  \<open>ent m t i\<close> is the \<open>i\<close>-th 8-byte slot of the page \<open>t\<close>: a page-table entry, or (slot 0)
  the link of a free page.  The lemmas say what a slot holds after each kind of write; all
  later proofs about tables and free lists go through them.
\<close>

type_synonym memory = "usize \<Rightarrow> u8"

fun load_le :: "memory \<Rightarrow> usize \<Rightarrow> nat \<Rightarrow> nat" where
  "load_le m a 0 = 0"
| "load_le m a (Suc n) = unat (m a) + 256 * load_le m (a + 1) n"

definition store_le :: "memory \<Rightarrow> usize \<Rightarrow> nat \<Rightarrow> nat \<Rightarrow> memory" where
  "store_le m a n v =
     (\<lambda>x. if a \<le> x \<and> x < a + n then word_of_nat (v div 256 ^ (x - a)) else m x)"

definition load16 :: "memory \<Rightarrow> usize \<Rightarrow> nat" where "load16 m a = load_le m a 2"
definition load32 :: "memory \<Rightarrow> usize \<Rightarrow> nat" where "load32 m a = load_le m a 4"
definition load64 :: "memory \<Rightarrow> usize \<Rightarrow> usize" where "load64 m a = load_le m a 8"

definition store64 :: "memory \<Rightarrow> usize \<Rightarrow> usize \<Rightarrow> memory" where
  "store64 m a v = store_le m a 8 v"

definition write_bytes :: "memory \<Rightarrow> usize \<Rightarrow> u8 \<Rightarrow> nat \<Rightarrow> memory" where
  "write_bytes m a v n = (\<lambda>x. if a \<le> x \<and> x < a + n then v else m x)"

definition copy_nonoverlapping :: "memory \<Rightarrow> usize \<Rightarrow> usize \<Rightarrow> nat \<Rightarrow> memory" where
  "copy_nonoverlapping m src dst n =
     (\<lambda>x. if dst \<le> x \<and> x < dst + n then m (src + (x - dst)) else m x)"

definition ent :: "memory \<Rightarrow> usize \<Rightarrow> nat \<Rightarrow> usize" where
  "ent m t i = load64 m (t + 8 * i)"

definition set_ent :: "memory \<Rightarrow> usize \<Rightarrow> nat \<Rightarrow> usize \<Rightarrow> memory" where
  "set_ent m t i v = store64 m (t + 8 * i) v"

text \<open>The bytes of the page at \<open>p\<close>.\<close>

definition page_bytes :: "memory \<Rightarrow> usize \<Rightarrow> nat \<Rightarrow> u8" where
  "page_bytes m p i = (if i < PAGE_SIZE then m (p + i) else 0)"

section \<open>Little-endian access\<close>

lemma load_le_cong: "(\<And>i. i < n \<Longrightarrow> m (a + i) = m' (a + i)) \<Longrightarrow> load_le m a n = load_le m' a n"
proof (induction n arbitrary: a)
  case 0
  then show ?case by simp
next
  case (Suc n)
  have "m a = m' a" using Suc.prems [of 0] by simp
  moreover have "load_le m (a + 1) n = load_le m' (a + 1) n"
  proof (rule Suc.IH)
    fix i assume "i < n"
    then show "m (a + 1 + i) = m' (a + 1 + i)" using Suc.prems [of "Suc i"] by simp
  qed
  ultimately show ?case by simp
qed

lemma load_le_bound: "load_le m a n < 256 ^ n"
proof (induction n arbitrary: a)
  case 0
  then show ?case by simp
next
  case (Suc n)
  have "unat (m a) < 256" using unsigned_less [of "m a", where ?'a = nat] by simp
  moreover have "load_le m (a + 1) n + 1 \<le> 256 ^ n" using Suc.IH [of "a + 1"] by simp
  ultimately show ?case by simp
qed

lemma load64_bound: "load64 m a \<le> usize_max"
  using load_le_bound [of m a 8] by (simp add: load64_def usize_max_def)

lemma load_le_store_le_tail:
  "k \<le> n \<Longrightarrow> load_le (store_le m a n v) (a + (n - k)) k = v div 256 ^ (n - k) mod 256 ^ k"
proof (induction k)
  case 0
  then show ?case by simp
next
  case (Suc k)
  let ?w = "v div 256 ^ (n - Suc k)"
  have n: "n - k = Suc (n - Suc k)" using Suc.prems by simp
  have "store_le m a n v (a + (n - Suc k)) = word_of_nat ?w"
    using Suc.prems unfolding store_le_def
    by (simp only: le_add1 add_diff_cancel_left') simp
  then have "unat (store_le m a n v (a + (n - Suc k))) = ?w mod 256"
    by (simp add: unat_of_nat)
  moreover have "load_le (store_le m a n v) (a + (n - Suc k) + 1) k = ?w div 256 mod 256 ^ k"
    using Suc n by (simp add: div_mult2_eq [symmetric] mult.commute)
  moreover have "?w mod 256 + 256 * (?w div 256 mod 256 ^ k) = ?w mod (256 * 256 ^ k)"
    by (simp add: mod_mult2_eq)
  ultimately show ?case by simp
qed

lemma load_store_same: "load_le (store_le m a n v) a n = v mod 256 ^ n"
  using load_le_store_le_tail [of n n m a v] by simp

lemma load64_store64: "v \<le> usize_max \<Longrightarrow> load64 (store64 m a v) a = v"
  by (simp add: load64_def store64_def load_store_same usize_max_def)

lemma load64_cong: "(\<And>i. i < 8 \<Longrightarrow> m (a + i) = m' (a + i)) \<Longrightarrow> load64 m a = load64 m' a"
  unfolding load64_def by (rule load_le_cong)

lemma load64_store64_other: "b + 8 \<le> a \<or> a + 8 \<le> b \<Longrightarrow> load64 (store64 m a v) b = load64 m b"
  by (rule load64_cong) (auto simp: store64_def store_le_def)

lemma store64_outside: "\<not> (a \<le> x \<and> x < a + 8) \<Longrightarrow> store64 m a v x = m x"
  by (auto simp: store64_def store_le_def)

section \<open>Slots of a page\<close>

lemma ent_bound [simp]: "ent m t i \<le> usize_max"
  by (simp add: ent_def load64_bound)

lemma ent_cong:
  assumes "\<And>a. t \<le> a \<Longrightarrow> a < t + PAGE_SIZE \<Longrightarrow> m a = m' a" and "i < 512"
  shows "ent m t i = ent m' t i"
  unfolding ent_def load64_def
  by (rule load_le_cong) (use assms in \<open>auto simp: PAGE_SIZE_def\<close>)

lemma ent_set_ent:
  assumes "page_aligned t" "page_aligned t'" "i < 512" "j < 512" "v \<le> usize_max"
  shows "ent (set_ent m t i v) t' j = (if t' = t \<and> j = i then v else ent m t' j)"
proof (cases "t' = t \<and> j = i")
  case True
  then show ?thesis using assms(5) by (simp add: ent_def set_ent_def load64_store64)
next
  case False
  have "set_ent m t i v (t' + 8 * j + k) = m (t' + 8 * j + k)" if k: "k < 8" for k
  proof -
    have "\<not> (t + 8 * i \<le> t' + 8 * j + k \<and> t' + 8 * j + k < t + 8 * i + 8)"
    proof
      assume a: "t + 8 * i \<le> t' + 8 * j + k \<and> t' + 8 * j + k < t + 8 * i + 8"
      then obtain d where d: "t' + (8 * j + k) = t + (8 * i + d)" and "d < 8"
        by (metis (no_types, lifting) add.assoc le_Suc_ex nat_add_left_cancel_less)
      then have "t' = t" and "8 * j + k = 8 * i + d"
        using page_index_unique [OF assms(2,1), of "8 * j + k" "8 * i + d"] assms(3,4) k
        by (simp_all add: PAGE_SIZE_def)
      with \<open>d < 8\<close> k have "j = i" by linarith
      with \<open>t' = t\<close> False show False by simp
    qed
    then show ?thesis by (auto simp: set_ent_def store64_def store_le_def)
  qed
  then show ?thesis unfolding ent_def load64_def
    using False by (auto intro!: load_le_cong)
qed

lemma set_ent_outside:
  assumes "i < 512" and "\<not> (t \<le> a \<and> a < t + PAGE_SIZE)"
  shows "set_ent m t i v a = m a"
  using assms by (auto simp: set_ent_def store64_def store_le_def PAGE_SIZE_def)

lemma load_le_zero: "(\<And>i. i < n \<Longrightarrow> m (a + i) = 0) \<Longrightarrow> load_le m a n = 0"
proof (induction n arbitrary: a)
  case (Suc n)
  have "m a = 0" using Suc.prems [of 0] by simp
  moreover have "load_le m (a + 1) n = 0"
    by (rule Suc.IH) (use Suc.prems [of "Suc i" for i] in simp)
  ultimately show ?case by simp
qed simp

lemma ent_write_zero:
  assumes "page_aligned p" "page_aligned t" "j < 512"
  shows "ent (write_bytes m p 0 PAGE_SIZE) t j = (if t = p then 0 else ent m t j)"
proof (cases "t = p")
  case True
  then show ?thesis
    using assms(3) by (auto simp: ent_def load64_def write_bytes_def PAGE_SIZE_def intro!: load_le_zero)
next
  case False
  have "ent (write_bytes m p 0 PAGE_SIZE) t j = ent m t j"
    by (rule ent_cong [OF _ assms(3)])
      (use pages_disjoint [OF assms(2,1) False] in \<open>auto simp: write_bytes_def\<close>)
  with False show ?thesis by simp
qed

lemma ent_write_other:
  assumes "page_aligned p" "page_aligned t" "t \<noteq> p" "j < 512"
  shows "ent (write_bytes m p v PAGE_SIZE) t j = ent m t j"
  by (rule ent_cong [OF _ assms(4)])
    (use pages_disjoint [OF assms(2,1,3)] in \<open>auto simp: write_bytes_def\<close>)

lemma ent_copy_other:
  assumes "page_aligned p" "page_aligned t" "t \<noteq> p" "j < 512" "n \<le> PAGE_SIZE"
  shows "ent (copy_nonoverlapping m s p n) t j = ent m t j"
proof (rule ent_cong [OF _ assms(4)])
  fix a assume a: "t \<le> a" "a < t + PAGE_SIZE"
  have "\<not> (p \<le> a \<and> a < p + n)"
    using pages_disjoint [OF assms(2,1,3) a] assms(5) by auto
  then show "copy_nonoverlapping m s p n a = m a"
    by (auto simp: copy_nonoverlapping_def)
qed

end
