(* ===== verification/Kalloc.thy ===== *)
theory Kalloc
  imports Memory
begin

text \<open>
  \<open>kalloc.rs\<close>: the physical page allocator.  Its state is the head of an intrusive list of free
  pages, whose links are the first eight bytes of the pages themselves, and a counter; both live
  with physical memory in the record \<open>phys\<close>.  \<open>KMEM.lock()\<close> brackets each operation; the lock
  discipline is the subject of \<open>Spinlock\<close> and leaves no trace in the allocator's own state.

  The abstraction \<open>free_list\<close> reads the list out of memory; \<open>kalloc_inv\<close> says that it ends in the
  null pointer, that its pages are distinct, page-aligned and inside the allocator's range.  The
  lemmas show that \<open>alloc\<close> and \<open>free\<close> are the pop and the push of that list and touch no byte
  outside the page they handle, and that \<open>init\<close> puts exactly the pages outside the reserved
  region on it.
\<close>

record phys =
  mem :: memory
  kmem_head :: usize
  free_pages :: usize

definition kmem_new :: "memory \<Rightarrow> phys" where
  "kmem_new m = \<lparr>mem = m, kmem_head = 0, free_pages = 0\<rparr>"

definition kalloc_alloc :: "phys \<Rightarrow> (usize option \<times> phys) result" where
  "kalloc_alloc s =
     (let node = kmem_head s in
      if node = 0 then Ok (None, s)
      else
        bindR (usub (free_pages s) 1) (\<lambda>n.
        Ok (Some node,
            s\<lparr>kmem_head := load64 (mem s) node, free_pages := n,
              mem := write_bytes (mem s) node 0 PAGE_SIZE\<rparr>)))"

definition kalloc_free :: "layout \<Rightarrow> usize \<Rightarrow> phys \<Rightarrow> phys result" where
  "kalloc_free L pa s =
     bindR (assertR (is_multiple_of pa PAGE_SIZE) ''kalloc::free: unaligned page'') (\<lambda>_.
     bindR (if alloc_start L \<le> pa then bindR (uadd pa PAGE_SIZE) (\<lambda>e. Ok (e \<le> PHYS_TOP)) else Ok False) (\<lambda>ok.
     bindR (assertR ok ''kalloc::free: page outside allocator range'') (\<lambda>_.
     let m1 = write_bytes (mem s) pa 0x5a PAGE_SIZE;
         m2 = store64 m1 pa (kmem_head s) in
     bindR (uadd (free_pages s) 1) (\<lambda>n.
     Ok (s\<lparr>mem := m2, kmem_head := pa, free_pages := n\<rparr>)))))"

function kalloc_init_loop :: "layout \<Rightarrow> usize \<Rightarrow> usize \<Rightarrow> usize \<Rightarrow> phys \<Rightarrow> phys result" where
  "kalloc_init_loop L res_start res_end page s =
     bindR (uadd page PAGE_SIZE) (\<lambda>e.
     if e \<le> PHYS_TOP then
       bindR (if res_end \<le> page \<or> e \<le> res_start then kalloc_free L page s else Ok s) (\<lambda>s'.
       kalloc_init_loop L res_start res_end e s')
     else Ok s)"
  by pat_completeness auto
termination
  by (relation "measure (\<lambda>(L, a, b, page, s). PHYS_TOP - page)")
    (auto simp: result_simps PAGE_SIZE_def PHYS_TOP_def)

definition kalloc_init :: "layout \<Rightarrow> (usize \<times> usize) option \<Rightarrow> phys \<Rightarrow> phys result" where
  "kalloc_init L reserved s =
     bindR (case reserved of
              Some (st, e) \<Rightarrow>
                bindR (next_multiple_of e PAGE_SIZE) (\<lambda>e'. Ok (st AND unot (PAGE_SIZE - 1), e'))
            | None \<Rightarrow> Ok (0, 0)) (\<lambda>(res_start, res_end).
     bindR (next_multiple_of (alloc_start L) PAGE_SIZE) (\<lambda>start.
     kalloc_init_loop L res_start res_end start s))"

section \<open>Abstraction and invariant\<close>

primrec chain :: "memory \<Rightarrow> nat \<Rightarrow> usize \<Rightarrow> usize list" where
  "chain m 0 h = []"
| "chain m (Suc n) h = h # chain m n (load64 m h)"

primrec chain_end :: "memory \<Rightarrow> nat \<Rightarrow> usize \<Rightarrow> usize" where
  "chain_end m 0 h = h"
| "chain_end m (Suc n) h = chain_end m n (load64 m h)"

definition free_list :: "phys \<Rightarrow> usize list" where
  "free_list s = chain (mem s) (free_pages s) (kmem_head s)"

definition alloc_page :: "layout \<Rightarrow> usize \<Rightarrow> bool" where
  "alloc_page L p \<longleftrightarrow> page_aligned p \<and> alloc_start L \<le> p \<and> p + PAGE_SIZE \<le> PHYS_TOP"

definition kalloc_inv :: "layout \<Rightarrow> phys \<Rightarrow> bool" where
  "kalloc_inv L s \<longleftrightarrow>
     0 < alloc_start L \<and> chain_end (mem s) (free_pages s) (kmem_head s) = 0 \<and>
     distinct (free_list s) \<and> (\<forall>p\<in>set (free_list s). alloc_page L p)"

section \<open>The interface of a page allocator\<close>

text \<open>
  What the rest of the kernel relies on: a source of pages with an abstract free list, a memory,
  and an invariant.  The client lemmas (distinctness of successive allocations, that an
  allocation fails only when no page is left) are proved once here.
\<close>

locale page_source =
  fixes allocate :: "'s \<Rightarrow> (usize option \<times> 's) result"
    and release :: "usize \<Rightarrow> 's \<Rightarrow> 's result"
    and pages :: "'s \<Rightarrow> usize list"
    and bytes :: "'s \<Rightarrow> memory"
    and inv :: "'s \<Rightarrow> bool"
    and usable :: "usize \<Rightarrow> bool"
  assumes allocate_empty: "inv s \<Longrightarrow> pages s = [] \<Longrightarrow> allocate s = Ok (None, s)"
    and allocate_pop: "inv s \<Longrightarrow> pages s = p # ps \<Longrightarrow>
      \<exists>s'. allocate s = Ok (Some p, s') \<and> inv s' \<and> pages s' = ps \<and>
           bytes s' = write_bytes (bytes s) p 0 PAGE_SIZE"
    and release_push: "inv s \<Longrightarrow> usable p \<Longrightarrow> p \<notin> set (pages s) \<Longrightarrow>
      \<exists>s'. release p s = Ok s' \<and> inv s' \<and> pages s' = p # pages s \<and>
           (\<forall>a. \<not> (p \<le> a \<and> a < p + PAGE_SIZE) \<longrightarrow> bytes s' a = bytes s a)"
    and inv_distinct: "inv s \<Longrightarrow> distinct (pages s)"
    and inv_usable: "inv s \<Longrightarrow> p \<in> set (pages s) \<Longrightarrow> usable p"
begin

lemma allocate_total: "inv s \<Longrightarrow> no_panic (allocate s)"
  by (cases "pages s") (use allocate_empty allocate_pop in \<open>fastforce simp: no_panic_iff\<close>)+

lemma allocate_SomeD:
  assumes "inv s" and "allocate s = Ok (Some p, s')"
  shows "pages s = p # pages s'" and "inv s'" and "usable p" and "p \<notin> set (pages s')"
    and "bytes s' = write_bytes (bytes s) p 0 PAGE_SIZE"
proof -
  have "pages s \<noteq> []" using allocate_empty [OF assms(1)] assms(2) by auto
  then obtain q qs where q: "pages s = q # qs" by (cases "pages s") auto
  from allocate_pop [OF assms(1) q] assms(2) q
  show "pages s = p # pages s'" and "inv s'"
    and "bytes s' = write_bytes (bytes s) p 0 PAGE_SIZE" by auto
  then show "usable p" and "p \<notin> set (pages s')"
    using inv_usable [OF assms(1)] inv_distinct [OF assms(1)] by simp_all
qed

lemma allocate_NoneD:
  assumes "inv s" and "allocate s = Ok (None, s')"
  shows "pages s = []" and "s' = s"
proof -
  show p: "pages s = []"
  proof (rule ccontr)
    assume "pages s \<noteq> []"
    then obtain q qs where "pages s = q # qs" by (cases "pages s") auto
    from allocate_pop [OF assms(1) this] assms(2) show False by auto
  qed
  show "s' = s" using allocate_empty [OF assms(1) p] assms(2) by simp
qed

lemma allocate_twice_distinct:
  assumes "inv s" and "allocate s = Ok (Some p, s1)" and "allocate s1 = Ok (Some q, s2)"
  shows "p \<noteq> q"
proof -
  from allocate_SomeD [OF assms(1,2)] have "inv s1" and "p \<notin> set (pages s1)" by simp_all
  moreover from allocate_SomeD(1) [OF \<open>inv s1\<close> assms(3)] have "q \<in> set (pages s1)" by simp
  ultimately show ?thesis by auto
qed

lemma allocate_release:
  assumes "inv s" and "allocate s = Ok (Some p, s1)"
  shows "\<exists>s2. release p s1 = Ok s2 \<and> inv s2 \<and> pages s2 = pages s"
  using release_push [of s1 p] allocate_SomeD [OF assms] by auto

end

section \<open>Lemmas on chains\<close>

lemma length_chain [simp]: "length (chain m n h) = n"
  by (induction n arbitrary: h) simp_all

lemma chain_cong:
  "(\<And>p. p \<in> set (chain m n h) \<Longrightarrow> load64 m' p = load64 m p) \<Longrightarrow>
   chain m' n h = chain m n h \<and> chain_end m' n h = chain_end m n h"
  by (induction n arbitrary: h) simp_all

lemma load64_slot0: "load64 m p = ent m p 0"
  by (simp add: ent_def)

lemma alloc_page_aligned: "alloc_page L p \<Longrightarrow> page_aligned p"
  by (simp add: alloc_page_def)

lemma length_free_list: "length (free_list s) = free_pages s"
  by (simp add: free_list_def)

lemma free_list_bound: "kalloc_inv L s \<Longrightarrow> length (free_list s) \<le> PHYS_TOP"
proof -
  assume inv: "kalloc_inv L s"
  then have "set (free_list s) \<subseteq> {..<PHYS_TOP}"
    by (auto simp: kalloc_inv_def alloc_page_def PAGE_SIZE_def)
  from card_mono [OF _ this] have "card (set (free_list s)) \<le> PHYS_TOP" by simp
  with inv show ?thesis by (simp add: kalloc_inv_def distinct_card)
qed

text \<open>Writes that leave the links of the free pages alone keep the allocator's view.\<close>

lemma kalloc_frame:
  assumes "kalloc_inv L s" and "\<And>p. p \<in> set (free_list s) \<Longrightarrow> ent m p 0 = ent (mem s) p 0"
  shows "free_list (s\<lparr>mem := m\<rparr>) = free_list s" and "kalloc_inv L (s\<lparr>mem := m\<rparr>)"
proof -
  have *: "chain m (free_pages s) (kmem_head s) = chain (mem s) (free_pages s) (kmem_head s) \<and>
     chain_end m (free_pages s) (kmem_head s) = chain_end (mem s) (free_pages s) (kmem_head s)"
    by (rule chain_cong) (use assms(2) in \<open>simp add: load64_slot0 free_list_def\<close>)
  then show "free_list (s\<lparr>mem := m\<rparr>) = free_list s" by (simp add: free_list_def)
  with assms(1) * show "kalloc_inv L (s\<lparr>mem := m\<rparr>)" by (simp add: kalloc_inv_def)
qed

section \<open>Functional behaviour of the operations\<close>

lemma kalloc_alloc_empty:
  assumes "kalloc_inv L s" and "free_list s = []"
  shows "kalloc_alloc s = Ok (None, s)"
proof -
  have "free_pages s = 0" using assms(2) length_free_list [of s] by simp
  with assms(1) have "kmem_head s = 0" by (simp add: kalloc_inv_def)
  then show ?thesis by (simp add: kalloc_alloc_def)
qed

lemma kalloc_alloc_pop:
  assumes inv: "kalloc_inv L s" and fl: "free_list s = p # ps"
  shows "\<exists>s'. kalloc_alloc s = Ok (Some p, s') \<and> kalloc_inv L s' \<and> free_list s' = ps \<and>
           mem s' = write_bytes (mem s) p 0 PAGE_SIZE"
proof -
  from fl obtain n where n: "free_pages s = Suc n" and h: "kmem_head s = p"
    and ps: "ps = chain (mem s) n (load64 (mem s) p)"
    by (cases "free_pages s") (auto simp: free_list_def)
  have p: "alloc_page L p" and ps': "\<forall>q\<in>set ps. alloc_page L q" "p \<notin> set ps" "distinct ps"
    and pos: "0 < alloc_start L" and e: "chain_end (mem s) n (load64 (mem s) p) = 0"
    using inv fl n h by (auto simp: kalloc_inv_def)
  let ?m = "write_bytes (mem s) p 0 PAGE_SIZE"
  let ?s = "s\<lparr>kmem_head := load64 (mem s) p, free_pages := n, mem := ?m\<rparr>"
  have links: "load64 ?m q = load64 (mem s) q" if "q \<in> set ps" for q
  proof -
    have "q \<noteq> p" and "page_aligned q" "page_aligned p"
      using that ps' p by (auto simp: alloc_page_def)
    then show ?thesis by (simp add: load64_slot0 ent_write_zero)
  qed
  have "chain ?m n (load64 (mem s) p) = ps \<and> chain_end ?m n (load64 (mem s) p) = 0"
    using chain_cong [of "mem s" n "load64 (mem s) p" ?m] links ps e by simp
  then have "free_list ?s = ps" and "kalloc_inv L ?s"
    using ps' pos by (auto simp: free_list_def kalloc_inv_def)
  moreover have "kalloc_alloc s = Ok (Some p, ?s)"
    using p pos n h by (simp add: kalloc_alloc_def Let_def alloc_page_def)
  ultimately show ?thesis by simp
qed

lemma kmem_head_bound: "kalloc_inv L s \<Longrightarrow> kmem_head s \<le> usize_max"
proof (cases "free_pages s")
  case (Suc n)
  assume "kalloc_inv L s"
  with Suc show ?thesis
    by (auto simp: kalloc_inv_def free_list_def alloc_page_def PAGE_SIZE_def PHYS_TOP_def
        DRAM_BASE_def usize_max_def)
qed (simp add: kalloc_inv_def)

lemma kalloc_free_push:
  assumes inv: "kalloc_inv L s" and p: "alloc_page L p" and new: "p \<notin> set (free_list s)"
  shows "\<exists>s'. kalloc_free L p s = Ok s' \<and> kalloc_inv L s' \<and> free_list s' = p # free_list s \<and>
           (\<forall>a. \<not> (p \<le> a \<and> a < p + PAGE_SIZE) \<longrightarrow> mem s' a = mem s a)"
proof -
  let ?m1 = "write_bytes (mem s) p 0x5a PAGE_SIZE"
  let ?m = "store64 ?m1 p (kmem_head s)"
  let ?s = "s\<lparr>mem := ?m, kmem_head := p, free_pages := free_pages s + 1\<rparr>"
  have m: "?m = set_ent ?m1 p 0 (kmem_head s)" by (simp add: set_ent_def)
  have al: "page_aligned p" using p by (rule alloc_page_aligned)
  have head: "load64 ?m p = kmem_head s"
    by (simp add: load64_store64 kmem_head_bound [OF inv])
  have links: "load64 ?m q = load64 (mem s) q" if "q \<in> set (free_list s)" for q
  proof -
    have "q \<noteq> p" and "page_aligned q"
      using that new inv by (auto simp: kalloc_inv_def alloc_page_def)
    then show ?thesis
      using al kmem_head_bound [OF inv] by (simp add: m load64_slot0 ent_set_ent ent_write_other)
  qed
  have "chain ?m (free_pages s) (kmem_head s) = free_list s \<and>
        chain_end ?m (free_pages s) (kmem_head s) = 0"
    using chain_cong [of "mem s" "free_pages s" "kmem_head s" ?m] links inv
    by (simp add: free_list_def kalloc_inv_def)
  then have "free_list ?s = p # free_list s" and "kalloc_inv L ?s"
    using inv p new head by (auto simp: free_list_def kalloc_inv_def)
  moreover have "kalloc_free L p s = Ok ?s"
  proof -
    have "PAGE_SIZE dvd p" using al by (simp add: page_aligned_dvd)
    moreover have "p + PAGE_SIZE \<le> usize_max"
      using p by (auto simp: alloc_page_def PHYS_TOP_def DRAM_BASE_def usize_max_def)
    moreover have "free_pages s + 1 \<le> usize_max"
      using free_list_bound [OF inv] length_free_list [of s]
      by (simp add: PHYS_TOP_def DRAM_BASE_def usize_max_def)
    ultimately show ?thesis
      using p by (simp add: kalloc_free_def alloc_page_def Let_def)
  qed
  moreover have "\<forall>a. \<not> (p \<le> a \<and> a < p + PAGE_SIZE) \<longrightarrow> mem ?s a = mem s a"
    by (simp add: m set_ent_outside) (simp add: write_bytes_def)
  ultimately show ?thesis by blast
qed

interpretation kmem: page_source kalloc_alloc "kalloc_free L" free_list mem "kalloc_inv L" "alloc_page L"
  for L
proof (unfold_locales, goal_cases)
  case (1 s)
  then show ?case by (rule kalloc_alloc_empty)
next
  case (2 s p ps)
  then show ?case by (rule kalloc_alloc_pop)
next
  case (3 s p)
  then show ?case by (rule kalloc_free_push)
qed (simp_all add: kalloc_inv_def)

section \<open>Initialisation\<close>

declare kalloc_init_loop.simps [simp del]

text \<open>The pages the loop still has to look at, less the reserved ones.\<close>

definition seeded :: "usize \<Rightarrow> usize \<Rightarrow> usize \<Rightarrow> usize set" where
  "seeded rs re page =
     {p. page_aligned p \<and> page \<le> p \<and> p + PAGE_SIZE \<le> PHYS_TOP \<and> (re \<le> p \<or> p + PAGE_SIZE \<le> rs)}"

lemma page_step: "page_aligned p \<Longrightarrow> page_aligned q \<Longrightarrow> p < q \<Longrightarrow> p + PAGE_SIZE \<le> q"
  using pages_disjoint [of q p q] by (auto simp: PAGE_SIZE_def)

lemma page_aligned_next: "page_aligned p \<Longrightarrow> page_aligned (p + PAGE_SIZE)"
  by (simp add: page_aligned_def)

lemma seeded_step:
  assumes "page_aligned page" and "page + PAGE_SIZE \<le> PHYS_TOP"
  shows "seeded rs re page =
    (if re \<le> page \<or> page + PAGE_SIZE \<le> rs then {page} else {}) \<union> seeded rs re (page + PAGE_SIZE)"
proof -
  have "p = page \<or> page + PAGE_SIZE \<le> p" if "page_aligned p" "page \<le> p" for p
    using page_step [OF assms(1) that(1)] that(2) by (cases "page < p") auto
  then show ?thesis using assms by (auto simp: seeded_def)
qed

lemma kalloc_init_loop_correct:
  assumes "kalloc_inv L s" and "page_aligned page" and "alloc_start L \<le> page"
    and "page \<le> PHYS_TOP" and "\<forall>q\<in>set (free_list s). q < page"
  shows "\<exists>s'. kalloc_init_loop L rs re page s = Ok s' \<and> kalloc_inv L s' \<and>
           set (free_list s') = set (free_list s) \<union> seeded rs re page"
  using assms
proof (induction L rs re page s rule: kalloc_init_loop.induct)
  case (1 L rs re page s)
  let ?e = "page + PAGE_SIZE"
  have e: "uadd page PAGE_SIZE = Ok ?e"
    using "1.prems"(4) by (simp add: PAGE_SIZE_def PHYS_TOP_def DRAM_BASE_def usize_max_def)
  show ?case
  proof (cases "?e \<le> PHYS_TOP")
    case False
    then have "seeded rs re page = {}" by (auto simp: seeded_def)
    with e False "1.prems"(1) show ?thesis by (simp add: kalloc_init_loop.simps [of L rs re page s])
  next
    case True
    let ?c = "re \<le> page \<or> ?e \<le> rs"
    obtain s1 where s1: "(if ?c then kalloc_free L page s else Ok s) = Ok s1"
      and inv1: "kalloc_inv L s1"
      and fl1: "set (free_list s1) = (if ?c then {page} else {}) \<union> set (free_list s)"
    proof (cases ?c)
      case c: True
      have "alloc_page L page" using "1.prems" True by (simp add: alloc_page_def)
      moreover have "page \<notin> set (free_list s)" using "1.prems"(5) by auto
      ultimately obtain s' where "kalloc_free L page s = Ok s'" "kalloc_inv L s'"
        "free_list s' = page # free_list s"
        using kmem.release_push [OF "1.prems"(1)] by blast
      with c that [of s'] show ?thesis by auto
    next
      case False
      with "1.prems"(1) that [of s] show ?thesis by auto
    qed
    have less: "\<forall>q\<in>set (free_list s1). q < ?e"
      using fl1 "1.prems"(5) by (auto simp: PAGE_SIZE_def split: if_splits)
    obtain s' where "kalloc_init_loop L rs re ?e s1 = Ok s'" and "kalloc_inv L s'"
      and "set (free_list s') = set (free_list s1) \<union> seeded rs re ?e"
      using "1.IH" [OF e True s1 inv1 page_aligned_next [OF "1.prems"(2)] _ True less]
        "1.prems"(3) by auto
    moreover from this(1) have "kalloc_init_loop L rs re page s = Ok s'"
      using e True s1 by (simp add: kalloc_init_loop.simps [of L rs re page s])
    moreover have "seeded rs re page = (if ?c then {page} else {}) \<union> seeded rs re ?e"
      using "1.prems"(2) True by (rule seeded_step)
    ultimately show ?thesis using fl1 by (intro exI [of _ s']) auto
  qed
qed

lemma round_up_le_iff:
  assumes "page_aligned p" and "0 < e"
  shows "div_ceil e PAGE_SIZE * PAGE_SIZE \<le> p \<longleftrightarrow> e \<le> p"
proof
  assume "div_ceil e PAGE_SIZE * PAGE_SIZE \<le> p"
  then show "e \<le> p" using div_ceil_bounds(1) [of PAGE_SIZE e] by (simp add: PAGE_SIZE_def)
next
  assume ep: "e \<le> p"
  show "div_ceil e PAGE_SIZE * PAGE_SIZE \<le> p"
  proof (rule ccontr)
    let ?u = "div_ceil e PAGE_SIZE * PAGE_SIZE"
    assume "\<not> ?u \<le> p"
    moreover have "page_aligned ?u" by (simp add: page_aligned_def)
    ultimately have "p + PAGE_SIZE \<le> ?u" using page_step [OF assms(1)] by simp
    with ep div_ceil_bounds(2) [of PAGE_SIZE e] show False by (simp add: PAGE_SIZE_def)
  qed
qed

lemma round_down_page: "x \<le> usize_max \<Longrightarrow> x AND unot (PAGE_SIZE - 1) = x - x mod PAGE_SIZE"
  using and_unot_mask [of x 12] by (simp add: PAGE_SIZE_def)

lemma page_aligned_round_down: "page_aligned (x - x mod PAGE_SIZE)"
  by (simp add: page_aligned_def minus_mod_eq_mult_div)

lemma le_round_down_iff:
  assumes "page_aligned q"
  shows "q \<le> x - x mod PAGE_SIZE \<longleftrightarrow> q \<le> x"
proof
  assume "q \<le> x"
  show "q \<le> x - x mod PAGE_SIZE"
  proof (rule ccontr)
    assume "\<not> q \<le> x - x mod PAGE_SIZE"
    then have "x - x mod PAGE_SIZE + PAGE_SIZE \<le> q"
      using page_step [OF page_aligned_round_down assms] by simp
    moreover have "x mod PAGE_SIZE < PAGE_SIZE" by (simp add: PAGE_SIZE_def)
    ultimately show False using \<open>q \<le> x\<close> by linarith
  qed
qed simp

lemma kmem_new_inv: "layout_ok L \<Longrightarrow> kalloc_inv L (kmem_new m) \<and> free_list (kmem_new m) = []"
  using alloc_start_above_dram [of L] by (simp add: kalloc_inv_def kmem_new_def free_list_def)

lemma alloc_start_le_top: "layout_ok L \<Longrightarrow> alloc_start L \<le> PHYS_TOP"
  by (simp add: layout_ok_def)

text \<open>A concrete image and a concrete allocator state, at which the properties are evaluated: a
  kernel that ends three pages and a heap below the top of DRAM, and one free page.\<close>

definition demo_layout :: layout where
  "demo_layout = \<lparr>kernel_start = 0x80200000, text_start = 0x80200000, text_end = 0x80210000,
     user_start = 0x80210000, user_end = 0x80211000, rodata_start = 0x80211000,
     rodata_end = 0x80212000, data_start = 0x80212000, kernel_end = 0x877fd000\<rparr>"

definition demo_phys :: phys where
  "demo_phys = \<lparr>mem = (\<lambda>_. 0), kmem_head = 0x87ffe000, free_pages = 1\<rparr>"

lemma demo_layout_ok: "layout_ok demo_layout"
  by (simp add: layout_ok_def demo_layout_def page_aligned_def alloc_start_def heap_start_def
      memlayout_consts)

lemma load64_zero [simp]: "load64 (\<lambda>_. 0) a = 0"
  by (simp add: load64_def load_le_zero)

lemma demo_phys_list: "free_list demo_phys = [0x87ffe000]"
  by (simp add: free_list_def demo_phys_def)

lemma demo_alloc_page: "alloc_page demo_layout 0x87ffd000" "alloc_page demo_layout 0x87ffe000"
  by (simp_all add: alloc_page_def demo_layout_def page_aligned_def alloc_start_def heap_start_def
      memlayout_consts)

lemma demo_phys_inv: "kalloc_inv demo_layout demo_phys"
  using demo_alloc_page by (simp add: kalloc_inv_def demo_phys_list)
    (simp add: demo_phys_def demo_layout_def alloc_start_def HEAP_SIZE_def)

text \<open>A layout of realistic size, and the allocator's state after boot on it.\<close>

definition boot_layout :: layout where
  "boot_layout = demo_layout\<lparr>kernel_end := 0x80220000\<rparr>"

lemma boot_layout_ok: "layout_ok boot_layout"
  by (simp add: boot_layout_def layout_ok_def demo_layout_def page_aligned_def alloc_start_def
      heap_start_def memlayout_consts)

lemma alloc_start_boot_layout: "alloc_start boot_layout = 0x80a20000"
  by (simp add: boot_layout_def demo_layout_def alloc_start_def heap_start_def HEAP_SIZE_def)

lemma kalloc_boot:
  assumes L: "layout_ok L" and n: "alloc_start L + n * PAGE_SIZE \<le> PHYS_TOP"
  shows "\<exists>s. kalloc_init L None (kmem_new m) = Ok s \<and> kalloc_inv L s \<and>
             set (free_list s) = {p. alloc_page L p} \<and> n \<le> length (free_list s)"
proof -
  have start: "next_multiple_of (alloc_start L) PAGE_SIZE = Ok (alloc_start L)"
    using alloc_start_aligned [OF L] by (simp add: next_multiple_of_def page_aligned_def)
  obtain s where s: "kalloc_init_loop L 0 0 (alloc_start L) (kmem_new m) = Ok s"
    and inv: "kalloc_inv L s" and "set (free_list s) = seeded 0 0 (alloc_start L)"
    using kalloc_init_loop_correct [of L "kmem_new m" "alloc_start L" 0 0] kmem_new_inv [OF L]
      alloc_start_aligned [OF L] alloc_start_le_top [OF L] by auto
  then have fl: "set (free_list s) = {p. alloc_page L p}" by (auto simp: seeded_def alloc_page_def)
  let ?f = "\<lambda>i. alloc_start L + i * PAGE_SIZE"
  have "alloc_page L (?f i)" if "i < n" for i
    using alloc_start_aligned [OF L] n mult_le_mono1 [of "Suc i" n PAGE_SIZE] that
    by (simp add: alloc_page_def page_aligned_dvd)
  then have "?f ` {..<n} \<subseteq> set (free_list s)" using fl by auto
  moreover have "card (?f ` {..<n}) = n" by (subst card_image) (auto simp: inj_on_def PAGE_SIZE_def)
  ultimately have "n \<le> card (set (free_list s))" by (metis List.finite_set card_mono)
  with card_length [of "free_list s"] have "n \<le> length (free_list s)" by simp
  with s inv fl start show ?thesis by (simp add: kalloc_init_def)
qed

lemma kalloc_init_reserved:
  assumes "layout_ok L" and "st < en" and "en + PAGE_SIZE \<le> usize_max"
  shows "\<exists>s'. kalloc_init L (Some (st, en)) (kmem_new m) = Ok s' \<and> kalloc_inv L s' \<and>
           distinct (free_list s') \<and>
           set (free_list s') = {p. alloc_page L p \<and> (en \<le> p \<or> p + PAGE_SIZE \<le> st)}"
proof -
  let ?rs = "st AND unot (PAGE_SIZE - 1)" and ?re = "div_ceil en PAGE_SIZE * PAGE_SIZE"
  have rs: "?rs = st - st mod PAGE_SIZE"
    using assms(2,3) by (intro round_down_page) simp
  have "?re \<le> usize_max"
    using div_ceil_bounds(2) [of PAGE_SIZE en] assms(3) by (simp add: PAGE_SIZE_def)
  then have re: "next_multiple_of en PAGE_SIZE = Ok ?re"
    by (simp add: next_multiple_of_eq_Ok PAGE_SIZE_def)
  have start: "next_multiple_of (alloc_start L) PAGE_SIZE = Ok (alloc_start L)"
    using alloc_start_aligned [OF assms(1)] by (simp add: next_multiple_of_def page_aligned_def)
  obtain s' where "kalloc_init_loop L ?rs ?re (alloc_start L) (kmem_new m) = Ok s'"
    and inv: "kalloc_inv L s'" and fl: "set (free_list s') = seeded ?rs ?re (alloc_start L)"
    using kalloc_init_loop_correct [of L "kmem_new m" "alloc_start L" ?rs ?re] kmem_new_inv [OF assms(1)]
      alloc_start_aligned [OF assms(1)] alloc_start_le_top [OF assms(1)] by auto
  then have "kalloc_init L (Some (st, en)) (kmem_new m) = Ok s'"
    by (simp add: kalloc_init_def re start)
  moreover have "seeded ?rs ?re (alloc_start L) = {p. alloc_page L p \<and> (en \<le> p \<or> p + PAGE_SIZE \<le> st)}"
    unfolding rs using assms(2)
    by (auto simp: seeded_def alloc_page_def round_up_le_iff le_round_down_iff page_aligned_next)
  ultimately show ?thesis using inv fl kmem.inv_distinct by auto
qed

text \<open>However the region lies, it takes away no more pages than it overlaps.\<close>

lemma kalloc_init_room:
  assumes L: "layout_ok L" and "st < en" "en \<le> st + 256 * PAGE_SIZE" "en + PAGE_SIZE \<le> usize_max"
    and n: "alloc_start L + (n + 258) * PAGE_SIZE \<le> PHYS_TOP"
  obtains s where "kalloc_init L (Some (st, en)) (kmem_new m) = Ok s" and "kalloc_inv L s" and "n \<le> length (free_list s)"
    and "set (free_list s) = {p. alloc_page L p \<and> (en \<le> p \<or> p + PAGE_SIZE \<le> st)}"
proof -
  from kalloc_init_reserved [OF L assms(2,4)] obtain s where s: "kalloc_init L (Some (st, en)) (kmem_new m) = Ok s" "kalloc_inv L s"
    "set (free_list s) = {p. alloc_page L p \<and> (en \<le> p \<or> p + PAGE_SIZE \<le> st)}" by blast
  let ?f = "\<lambda>i. alloc_start L + i * PAGE_SIZE" and ?lo = "(st - alloc_start L) div PAGE_SIZE"
  let ?I = "{..<n + 258} - {?lo..<?lo + 258}"
  have "?f i \<in> set (free_list s)" if "i \<in> ?I" for i
  proof -
    have "alloc_page L (?f i)"
      using alloc_start_aligned [OF L] n mult_le_mono1 [of "Suc i" "n + 258" PAGE_SIZE] that
      by (simp add: alloc_page_def page_aligned_dvd)
    moreover have "en \<le> ?f i \<or> ?f i + PAGE_SIZE \<le> st" using that assms(3) unfolding PAGE_SIZE_def by auto
    ultimately show ?thesis by (simp add: s(3))
  qed
  then have "?f ` ?I \<subseteq> set (free_list s)" by blast
  then have "card (?f ` ?I) \<le> card (set (free_list s))" by (simp add: card_mono)
  moreover have "card (?f ` ?I) = card ?I" by (rule card_image) (auto simp: inj_on_def PAGE_SIZE_def)
  moreover have "n \<le> card ?I" using diff_card_le_card_Diff [of "{?lo..<?lo + 258}" "{..<n + 258}"] by simp
  ultimately have "n \<le> length (free_list s)" using card_length [of "free_list s"] by linarith
  with s show thesis by (intro that)
qed

text \<open>Seeding writes only to pages of the allocator's range.\<close>

lemma kalloc_free_low: "kalloc_free L p s = Ok s' \<Longrightarrow> a < alloc_start L \<Longrightarrow> mem s' a = mem s a"
  by (auto simp: kalloc_free_def result_simps write_bytes_def store64_def store_le_def split: if_splits)

lemma kalloc_init_loop_low: "kalloc_init_loop L rs re page s = Ok s' \<Longrightarrow> a < alloc_start L \<Longrightarrow> mem s' a = mem s a"
proof (induction L rs re page s arbitrary: s' rule: kalloc_init_loop.induct)
  case (1 L rs re page s)
  from "1.prems"(1) consider "s' = s" | e s1 where "uadd page PAGE_SIZE = Ok e" "e \<le> PHYS_TOP"
    "(if re \<le> page \<or> e \<le> rs then kalloc_free L page s else Ok s) = Ok s1" "kalloc_init_loop L rs re e s1 = Ok s'"
    by (subst (asm) kalloc_init_loop.simps) (auto simp: result_simps split: if_splits)
  then show ?case
  proof cases
    case 2
    from "1.IH" [OF 2 "1.prems"(2)] 2(3) kalloc_free_low [OF _ "1.prems"(2)] show ?thesis by (auto split: if_splits)
  qed simp
qed

lemma kalloc_init_low: "kalloc_init L reserved s = Ok s' \<Longrightarrow> a < alloc_start L \<Longrightarrow> mem s' a = mem s a"
  by (auto simp: kalloc_init_def result_simps kalloc_init_loop_low split: option.splits)

section \<open>Properties\<close>

text \<open>
  C27. Page allocation, every branch.  From a state satisfying the allocator's invariant \<open>alloc\<close>
  never panics.  With no free page it returns \<open>None\<close> and changes nothing; otherwise it returns the
  first page of the free list, which is a page of the allocator's range, takes it off the list,
  keeps the invariant, zeroes that page and leaves every other byte of memory as it was.
\<close>

theorem kalloc_alloc_correct:
  assumes "kalloc_inv L s"
  shows "(case free_list s of
            [] \<Rightarrow> kalloc_alloc s = Ok (None, s)
          | p # ps \<Rightarrow>
              (\<exists>s'. kalloc_alloc s = Ok (Some p, s') \<and> kalloc_inv L s' \<and> free_list s' = ps \<and>
                 alloc_page L p \<and> p \<notin> set ps \<and>
                 (\<forall>a. mem s' a = (if p \<le> a \<and> a < p + PAGE_SIZE then 0 else mem s a))))"
proof (cases "free_list s")
  case Nil
  with kmem.allocate_empty [OF assms] show ?thesis by simp
next
  case (Cons p ps)
  with kmem.allocate_pop [OF assms Cons] kmem.inv_usable [OF assms, of p]
    kmem.inv_distinct [OF assms]
  show ?thesis by (auto simp: write_bytes_def)
qed

theorem kalloc_alloc_correct_witness:
  "kalloc_inv demo_layout demo_phys \<and>
   (\<exists>s'. kalloc_alloc demo_phys = Ok (Some 0x87ffe000, s') \<and> kalloc_inv demo_layout s' \<and>
      free_list s' = [] \<and> mem s' 0x87ffe000 = 0)"
  using kalloc_alloc_correct [OF demo_phys_inv] demo_phys_inv
  by (auto simp: demo_phys_list PAGE_SIZE_def)

text \<open>
  C28. Freeing a page.  For a page of the allocator's range that is not already free, \<open>free\<close> does
  not panic: the page becomes the head of the free list, the counter goes up by one, the invariant
  holds again and no byte outside the page changes.
\<close>

theorem kalloc_free_correct:
  assumes "kalloc_inv L s" and "alloc_page L p" and "p \<notin> set (free_list s)"
  shows "\<exists>s'. kalloc_free L p s = Ok s' \<and> kalloc_inv L s' \<and> free_list s' = p # free_list s \<and>
           free_pages s' = free_pages s + 1 \<and>
           (\<forall>a. \<not> (p \<le> a \<and> a < p + PAGE_SIZE) \<longrightarrow> mem s' a = mem s a)"
proof -
  obtain s' where s': "kalloc_free L p s = Ok s'" "kalloc_inv L s'" "free_list s' = p # free_list s"
    "\<forall>a. \<not> (p \<le> a \<and> a < p + PAGE_SIZE) \<longrightarrow> mem s' a = mem s a"
    using kmem.release_push [OF assms] by blast
  moreover have "free_pages s' = free_pages s + 1"
    using s'(3) length_free_list [of s'] length_free_list [of s] by simp
  ultimately show ?thesis by blast
qed

theorem kalloc_free_correct_witness:
  "\<exists>s'. kalloc_free demo_layout 0x87ffd000 demo_phys = Ok s' \<and>
        free_list s' = [0x87ffd000, 0x87ffe000] \<and> free_pages s' = 2"
  using kalloc_free_correct [OF demo_phys_inv demo_alloc_page(1)]
  by (auto simp: demo_phys_list) (auto simp: demo_phys_def)

text \<open>
  A page that is unaligned or outside the allocator's range is rejected by a panic, whatever
  the state.
\<close>

theorem kalloc_free_rejects:
  assumes "\<not> alloc_page L p"
  shows "\<not> no_panic (kalloc_free L p s)"
  using assms
  by (auto simp: no_panic_iff kalloc_free_def result_simps alloc_page_def page_aligned_dvd Let_def
      split: if_splits)

theorem kalloc_free_rejects_witness:
  "\<not> alloc_page demo_layout 0x87ffd800 \<and> \<not> no_panic (kalloc_free demo_layout 0x87ffd800 demo_phys)"
proof -
  have "\<not> alloc_page demo_layout 0x87ffd800"
    by (simp add: alloc_page_def page_aligned_def PAGE_SIZE_def)
  with kalloc_free_rejects [OF this] show ?thesis by blast
qed

text \<open>
  C26. Seeding the allocator at boot.  With a reserved region \<open>[st, en)\<close> (the device tree) the
  free list that \<open>init\<close> builds holds exactly the pages of the allocator's range that do not overlap
  the region, each once.
\<close>

theorem kalloc_init_correct:
  assumes "layout_ok L" and "st < en" and "en + PAGE_SIZE \<le> usize_max"
  shows "\<exists>s'. kalloc_init L (Some (st, en)) (kmem_new m) = Ok s' \<and> kalloc_inv L s' \<and>
           distinct (free_list s') \<and>
           set (free_list s') = {p. alloc_page L p \<and> (en \<le> p \<or> p + PAGE_SIZE \<le> st)}"
  by (rule kalloc_init_reserved [OF assms])

theorem kalloc_init_correct_witness:
  "\<exists>s'. kalloc_init demo_layout (Some (0x87ffe010, 0x87ffe800)) (kmem_new (\<lambda>_. 0)) = Ok s' \<and>
        0x87ffd000 \<in> set (free_list s') \<and> 0x87ffe000 \<notin> set (free_list s')"
  using kalloc_init_correct [OF demo_layout_ok, where st = "0x87ffe010" and en = "0x87ffe800"
      and m = "\<lambda>_. 0"] demo_alloc_page
  by (auto simp: PAGE_SIZE_def usize_max_def)

end
