(* ===== verification/Riscv.thy ===== *)
theory Riscv
  imports Prelude
begin

text \<open>
  \<open>riscv.rs\<close>: the supervisor CSRs of the one hart the kernel runs on, as a record, and the
  accessors the kernel uses.  The macro \<open>csr!\<close> generates a \<open>read\<close>/\<open>write\<close>/\<open>set\<close>/\<open>clear\<close> quartet
  per CSR; \<open>read\<close> is the record selector, \<open>write\<close> the record update, and \<open>csr_set\<close>, \<open>csr_clear\<close>
  are the bit operations of \<open>csrs\<close> and \<open>csrc\<close>.  \<open>wfi\<close> and \<open>sfence.vma\<close> have no effect on this
  state (the model has no TLB and no sleep mode) and are left out.
\<close>

record csrs =
  sstatus :: usize
  sie :: usize
  sepc_csr :: usize
  stvec :: usize
  scause :: usize
  stval :: usize
  satp :: usize
  sscratch :: usize

definition csr_set :: "usize \<Rightarrow> usize \<Rightarrow> usize" where
  "csr_set x bits = x OR bits"

definition csr_clear :: "usize \<Rightarrow> usize \<Rightarrow> usize" where
  "csr_clear x bits = x AND unot bits"

definition SSTATUS_SIE :: usize where "SSTATUS_SIE = ushl 1 1"
definition SSTATUS_SPIE :: usize where "SSTATUS_SPIE = ushl 1 5"
definition SSTATUS_SPP :: usize where "SSTATUS_SPP = ushl 1 8"
definition SSTATUS_SUM :: usize where "SSTATUS_SUM = ushl 1 18"

definition SIE_SSIE :: usize where "SIE_SSIE = ushl 1 1"
definition SIE_STIE :: usize where "SIE_STIE = ushl 1 5"
definition SIE_SEIE :: usize where "SIE_SEIE = ushl 1 9"

definition SCAUSE_INTERRUPT :: usize where "SCAUSE_INTERRUPT = ushl 1 63"

definition intr_on :: "csrs \<Rightarrow> csrs" where
  "intr_on c = c\<lparr>sstatus := csr_set (sstatus c) SSTATUS_SIE\<rparr>"

definition intr_off :: "csrs \<Rightarrow> csrs" where
  "intr_off c = c\<lparr>sstatus := csr_clear (sstatus c) SSTATUS_SIE\<rparr>"

definition intr_get :: "csrs \<Rightarrow> bool" where
  "intr_get c \<longleftrightarrow> sstatus c AND SSTATUS_SIE \<noteq> 0"

text \<open>\<open>with_sum f\<close>: the closure runs on the CSRs with SUM set; afterwards SUM is cleared again unless
  it was already set on entry.\<close>

definition with_sum :: "(csrs \<Rightarrow> ('a \<times> csrs) result) \<Rightarrow> csrs \<Rightarrow> ('a \<times> csrs) result" where
  "with_sum f c =
     (let had_sum = (sstatus c AND SSTATUS_SUM \<noteq> 0) in
      bindR (f (c\<lparr>sstatus := csr_set (sstatus c) SSTATUS_SUM\<rparr>)) (\<lambda>(out, c').
      Ok (out, if had_sum then c' else c'\<lparr>sstatus := csr_clear (sstatus c') SSTATUS_SUM\<rparr>)))"

section \<open>Bits of sstatus\<close>

lemmas sstatus_bits = SSTATUS_SIE_def SSTATUS_SPIE_def SSTATUS_SPP_def SSTATUS_SUM_def

lemma ushl_one: "n < 64 \<Longrightarrow> ushl 1 n = 2 ^ n"
  by (simp add: ushl_def push_bit_eq_mult take_bit_nat_eq_self)

lemma sstatus_pow:
  "SSTATUS_SIE = 2 ^ 1" "SSTATUS_SPIE = 2 ^ 5" "SSTATUS_SPP = 2 ^ 8" "SSTATUS_SUM = 2 ^ 18"
  by (simp_all add: sstatus_bits ushl_one del: One_nat_def)

lemma bit_csr_set: "bit (csr_set x (2 ^ n)) i \<longleftrightarrow> bit x i \<or> i = n"
  by (auto simp: csr_set_def bit_or_iff bit_exp_iff)

lemma bit_csr_clear:
  assumes "x \<le> usize_max" and "n < 64"
  shows "bit (csr_clear x (2 ^ n)) i \<longleftrightarrow> bit x i \<and> i \<noteq> n"
proof -
  have "(2::nat) ^ n \<le> usize_max"
    using power_strict_increasing [OF assms(2), of "2 :: nat"] by (simp add: usize_max_def)
  then show ?thesis
    using usize_bit_bound [OF assms(1), of i]
    by (auto simp: csr_clear_def bit_and_iff bit_unot bit_exp_iff)
qed

lemma usize_boundI: "(\<And>i. bit x i \<Longrightarrow> i < 64) \<Longrightarrow> x \<le> usize_max"
proof -
  assume "\<And>i. bit x i \<Longrightarrow> i < 64"
  then have "x = take_bit 64 x" by (intro bit_eqI) (auto simp: bit_take_bit_iff)
  then have "x = x mod 2 ^ 64" by (simp only: take_bit_eq_mod)
  moreover have "x mod 2 ^ 64 < 2 ^ 64" by (rule mod_less_divisor) simp
  ultimately show ?thesis by (simp only: le_usize_max_iff)
qed

lemma csr_clear_le: "csr_clear x m \<le> x"
  by (simp add: csr_clear_def and_nat_def) (metis AND_upper1 nat_int nat_mono of_nat_0_le_iff)

lemmas bit_sstatus_set =
  bit_csr_set [where n = 1, folded sstatus_pow] bit_csr_set [where n = 5, folded sstatus_pow]
  bit_csr_set [where n = 8, folded sstatus_pow] bit_csr_set [where n = 18, folded sstatus_pow]

lemma bit_sstatus_clear:
  assumes "x \<le> usize_max"
  shows "bit (csr_clear x SSTATUS_SIE) i \<longleftrightarrow> bit x i \<and> i \<noteq> 1"
    and "bit (csr_clear x SSTATUS_SPP) i \<longleftrightarrow> bit x i \<and> i \<noteq> 8"
    and "bit (csr_clear x SSTATUS_SUM) i \<longleftrightarrow> bit x i \<and> i \<noteq> 18"
  unfolding sstatus_pow using assms by (intro bit_csr_clear; simp)+

lemma sstatus_test:
  "x AND SSTATUS_SIE = 0 \<longleftrightarrow> \<not> bit x 1" "x AND SSTATUS_SPP = 0 \<longleftrightarrow> \<not> bit x 8"
  "x AND SSTATUS_SUM = 0 \<longleftrightarrow> \<not> bit x 18"
  unfolding sstatus_pow by (rule and_bit_eq_0)+

lemma intr_get_bit: "intr_get c \<longleftrightarrow> bit (sstatus c) 1"
  by (simp add: intr_get_def sstatus_test)

lemma intr_get_on [simp]: "intr_get (intr_on c)"
  by (simp add: intr_get_bit intr_on_def bit_sstatus_set)

lemma intr_get_off [simp]: "sstatus c \<le> usize_max \<Longrightarrow> \<not> intr_get (intr_off c)"
  by (simp add: intr_get_bit intr_off_def bit_sstatus_clear)

lemma intr_off_idle: "sstatus c \<le> usize_max \<Longrightarrow> \<not> intr_get c \<Longrightarrow> intr_off c = c"
proof -
  assume "sstatus c \<le> usize_max" and "\<not> intr_get c"
  then have "csr_clear (sstatus c) SSTATUS_SIE = sstatus c"
    by (intro bit_eqI) (auto simp: bit_sstatus_clear intr_get_bit)
  then show ?thesis by (simp add: intr_off_def)
qed

lemma intr_on_off: "sstatus c \<le> usize_max \<Longrightarrow> intr_get c \<Longrightarrow> intr_on (intr_off c) = c"
proof -
  assume "sstatus c \<le> usize_max" and "intr_get c"
  then have "csr_set (csr_clear (sstatus c) SSTATUS_SIE) SSTATUS_SIE = sstatus c"
    by (intro bit_eqI) (auto simp: bit_sstatus_clear bit_sstatus_set intr_get_bit)
  then show ?thesis by (simp add: intr_on_def intr_off_def)
qed

lemma sstatus_intr_off_le: "sstatus (intr_off c) \<le> sstatus c"
  by (simp add: intr_off_def csr_clear_le)

end
