(* ===== verification/Vm.thy ===== *)
theory Vm
  imports Kalloc Riscv
begin

text \<open>
  \<open>vm.rs\<close>: Sv39 page tables.  Tables are pages of physical memory holding 512 entries, so the
  operations thread the record \<open>phys\<close> (memory and the page allocator) and return a panic where the
  source asserts, unwraps or overflows.  \<open>table.add(i)\<close> is the slot \<open>ent m table i\<close>.  The static
  \<open>KERNEL_ROOT\<close> is the argument \<open>kroot\<close> of the operations that read it.  This theory holds the
  definitions and the bit-level facts about entries; \<open>Pagetable\<close> and \<open>Uservm\<close> hold the theorems.
\<close>

definition PTE_V :: usize where "PTE_V = ushl 1 0"
definition PTE_R :: usize where "PTE_R = ushl 1 1"
definition PTE_W :: usize where "PTE_W = ushl 1 2"
definition PTE_X :: usize where "PTE_X = ushl 1 3"
definition PTE_U :: usize where "PTE_U = ushl 1 4"
definition PTE_A :: usize where "PTE_A = ushl 1 6"
definition PTE_D :: usize where "PTE_D = ushl 1 7"

definition PERM_MASK :: usize where "PERM_MASK = PTE_R OR PTE_W OR PTE_X OR PTE_U"
definition SATP_SV39 :: usize where "SATP_SV39 = ushl 8 60"
definition VA_MAX :: usize where "VA_MAX = ushl 1 38"

definition pa_to_pte :: "usize \<Rightarrow> usize" where
  "pa_to_pte pa = ushl (ushr pa 12) 10"

definition pte_to_pa :: "usize \<Rightarrow> usize" where
  "pte_to_pa pte = ushl (ushr pte 10) 12"

definition vpn :: "usize \<Rightarrow> nat \<Rightarrow> usize" where
  "vpn va level = ushr va (12 + 9 * level) AND 0x1ff"

section \<open>Walking and mapping\<close>

fun walk_levels :: "nat list \<Rightarrow> usize \<Rightarrow> bool \<Rightarrow> usize \<Rightarrow> phys \<Rightarrow> (usize option \<times> phys) result" where
  "walk_levels [] va alloc table s = Ok (Some table, s)"
| "walk_levels (level # levels) va alloc table s =
     (let pte = ent (mem s) table (vpn va level) in
      if pte AND PTE_V \<noteq> 0 then walk_levels levels va alloc (pte_to_pa pte) s
      else if \<not> alloc then Ok (None, s)
      else
        bindR (kalloc_alloc s) (\<lambda>(page, s).
        case page of
          None \<Rightarrow> Ok (None, s)
        | Some page \<Rightarrow>
            walk_levels levels va alloc page
              (s\<lparr>mem := set_ent (mem s) table (vpn va level) (pa_to_pte page OR PTE_V)\<rparr>)))"

definition walk :: "usize \<Rightarrow> usize \<Rightarrow> bool \<Rightarrow> phys \<Rightarrow> (usize option \<times> phys) result" where
  "walk root va alloc s =
     bindR (assertR (va < VA_MAX) ''walk: va beyond Sv39'') (\<lambda>_.
     bindR (walk_levels (rev [1..<3]) va alloc root s) (\<lambda>(table, s).
     Ok (map_option (\<lambda>t. t + 8 * vpn va 0) table, s)))"

fun map_loop :: "usize \<Rightarrow> usize \<Rightarrow> usize \<Rightarrow> usize \<Rightarrow> usize list \<Rightarrow> phys \<Rightarrow> phys result" where
  "map_loop root va pa perm [] s = Ok s"
| "map_loop root va pa perm (off # offs) s =
     bindR (uadd va off) (\<lambda>v.
     bindR (walk root v True s) (\<lambda>(p, s).
     bindR (expectR p ''map_pages: out of pages'') (\<lambda>pte_ptr.
     bindR (assertR (load64 (mem s) pte_ptr AND PTE_V = 0) ''map_pages: remap of va'') (\<lambda>_.
     bindR (uadd pa off) (\<lambda>f.
     map_loop root va pa perm offs
       (s\<lparr>mem := store64 (mem s) pte_ptr (pa_to_pte f OR perm OR PTE_A OR PTE_D OR PTE_V)\<rparr>))))))"

text \<open>The offsets of \<open>(0..size).step_by(PAGE_SIZE)\<close>.\<close>

definition page_offsets :: "usize \<Rightarrow> usize list" where
  "page_offsets len = map (\<lambda>i. i * PAGE_SIZE) [0..<div_ceil len PAGE_SIZE]"

definition map_pages :: "usize \<Rightarrow> usize \<Rightarrow> usize \<Rightarrow> usize \<Rightarrow> usize \<Rightarrow> phys \<Rightarrow> phys result" where
  "map_pages root va pa len perm s =
     bindR (assertR (is_multiple_of va PAGE_SIZE \<and> is_multiple_of pa PAGE_SIZE \<and>
                     is_multiple_of len PAGE_SIZE)
       ''assertion failed: va, pa and size are page-aligned'') (\<lambda>_.
     bindR (assertR (0 < len) ''map_pages: empty mapping'') (\<lambda>_.
     bindR (assertR (perm AND PERM_MASK \<noteq> 0) ''map_pages: no permissions'') (\<lambda>_.
     map_loop root va pa perm (page_offsets len) s)))"

definition translate :: "usize \<Rightarrow> usize \<Rightarrow> phys \<Rightarrow> (usize \<times> usize) option result" where
  "translate root va s =
     bindR (walk root va False s) (\<lambda>(p, s).
     case p of
       None \<Rightarrow> Ok None
     | Some pte_ptr \<Rightarrow>
         (let pte = load64 (mem s) pte_ptr in
          if pte AND PTE_V = 0 then Ok None
          else Ok (Some (pte_to_pa pte OR (va mod PAGE_SIZE), pte))))"

section \<open>The kernel's own table\<close>

definition kvmmake :: "layout \<Rightarrow> phys \<Rightarrow> (usize \<times> phys) result" where
  "kvmmake L s =
     bindR (kalloc_alloc s) (\<lambda>(p, s).
     bindR (expectR p ''kvmmake: out of pages'') (\<lambda>root.
     bindR (map_pages root UART0 UART0 PAGE_SIZE (PTE_R OR PTE_W) s) (\<lambda>s.
     bindR (map_pages root PLIC PLIC PLIC_SIZE (PTE_R OR PTE_W) s) (\<lambda>s.
     bindR (usub (text_end L) (text_start L)) (\<lambda>n.
     bindR (map_pages root (text_start L) (text_start L) n (PTE_R OR PTE_X) s) (\<lambda>s.
     bindR (if user_start L < user_end L
            then bindR (usub (user_end L) (user_start L)) (\<lambda>n.
                 map_pages root (user_start L) (user_start L) n PTE_R s)
            else Ok s) (\<lambda>s.
     bindR (usub (rodata_end L) (rodata_start L)) (\<lambda>n.
     bindR (map_pages root (rodata_start L) (rodata_start L) n PTE_R s) (\<lambda>s.
     bindR (usub (kernel_end L) (data_start L)) (\<lambda>n.
     bindR (map_pages root (data_start L) (data_start L) n (PTE_R OR PTE_W) s) (\<lambda>s.
     bindR (usub PHYS_TOP (kernel_end L)) (\<lambda>n.
     bindR (map_pages root (kernel_end L) (kernel_end L) n (PTE_R OR PTE_W) s) (\<lambda>s.
     Ok (root, s))))))))))))))"

definition switch_to :: "usize \<Rightarrow> csrs \<Rightarrow> csrs result" where
  "switch_to root c =
     bindR (assertR (root \<noteq> 0) ''switch_to null root'') (\<lambda>_.
     Ok (c\<lparr>satp := SATP_SV39 OR ushr root 12\<rparr>))"

definition vm_init_hart :: "usize \<Rightarrow> csrs \<Rightarrow> csrs result" where
  "vm_init_hart kroot c =
     bindR (assertR (kroot \<noteq> 0) ''init_hart before vm::init'') (\<lambda>_. switch_to kroot c)"

section \<open>Per-process address spaces\<close>

definition USER_TEXT :: usize where "USER_TEXT = 0x40000000"
definition USER_STACK_TOP :: usize where "USER_STACK_TOP = 0x41000000"
definition USER_HEAP_BASE :: usize where "USER_HEAP_BASE = 0x50000000"
definition USER_HEAP_MAX :: usize where "USER_HEAP_MAX = 0x60000000"
definition USER_L2_INDEX :: usize where "USER_L2_INDEX = ushr USER_TEXT 30"

definition copy_entries :: "usize \<Rightarrow> usize \<Rightarrow> nat list \<Rightarrow> memory \<Rightarrow> memory" where
  "copy_entries kroot uroot is m = fold (\<lambda>i m. set_ent m uroot i (ent m kroot i)) is m"

definition make_user_table :: "usize \<Rightarrow> phys \<Rightarrow> (usize \<times> phys) result" where
  "make_user_table kroot s =
     bindR (kalloc_alloc s) (\<lambda>(p, s).
     bindR (expectR p ''make_user_table: out of pages'') (\<lambda>root.
     let s = s\<lparr>mem := copy_entries kroot root [0..<512] (mem s)\<rparr> in
     bindR (assertR (ent (mem s) kroot USER_L2_INDEX AND PTE_V = 0)
       ''user slot collides with a kernel mapping'') (\<lambda>_.
     Ok (root, s))))"

fun clone_l0 :: "usize \<Rightarrow> nat \<Rightarrow> usize \<Rightarrow> nat list \<Rightarrow> phys \<Rightarrow> phys result" where
  "clone_l0 child i l0 [] s = Ok s"
| "clone_l0 child i l0 (j # js) s =
     (let e0 = ent (mem s) l0 j in
      if e0 AND PTE_V = 0 then clone_l0 child i l0 js s
      else
        let va = ushl USER_L2_INDEX 30 OR ushl i 21 OR ushl j 12;
            perm = e0 AND PERM_MASK;
            src = pte_to_pa e0 in
        bindR (kalloc_alloc s) (\<lambda>(p, s).
        bindR (expectR p ''clone_user_table: out of pages'') (\<lambda>dst.
        bindR (map_pages child va dst PAGE_SIZE perm
                (s\<lparr>mem := copy_nonoverlapping (mem s) src dst PAGE_SIZE\<rparr>)) (\<lambda>s.
        clone_l0 child i l0 js s))))"

fun clone_l1 :: "usize \<Rightarrow> usize \<Rightarrow> nat list \<Rightarrow> phys \<Rightarrow> phys result" where
  "clone_l1 child l1 [] s = Ok s"
| "clone_l1 child l1 (i # is) s =
     (let e1 = ent (mem s) l1 i in
      if e1 AND PTE_V = 0 then clone_l1 child l1 is s
      else
        bindR (clone_l0 child i (pte_to_pa e1) [0..<512] s) (\<lambda>s.
        clone_l1 child l1 is s))"

definition clone_user_table :: "usize \<Rightarrow> usize \<Rightarrow> phys \<Rightarrow> (usize \<times> phys) result" where
  "clone_user_table kroot parent s =
     bindR (make_user_table kroot s) (\<lambda>(child, s).
     let e2 = ent (mem s) parent USER_L2_INDEX in
     if e2 AND PTE_V \<noteq> 0
     then bindR (clone_l1 child (pte_to_pa e2) [0..<512] s) (\<lambda>s. Ok (child, s))
     else Ok (child, s))"

fun free_leaves :: "layout \<Rightarrow> usize \<Rightarrow> nat list \<Rightarrow> phys \<Rightarrow> phys result" where
  "free_leaves L l0 [] s = Ok s"
| "free_leaves L l0 (j # js) s =
     (let e0 = ent (mem s) l0 j in
      if e0 AND PTE_V \<noteq> 0
      then bindR (kalloc_free L (pte_to_pa e0) s) (\<lambda>s. free_leaves L l0 js s)
      else free_leaves L l0 js s)"

fun free_l0s :: "layout \<Rightarrow> usize \<Rightarrow> nat list \<Rightarrow> phys \<Rightarrow> phys result" where
  "free_l0s L l1 [] s = Ok s"
| "free_l0s L l1 (i # is) s =
     (let e1 = ent (mem s) l1 i in
      if e1 AND PTE_V \<noteq> 0
      then bindR (free_leaves L (pte_to_pa e1) [0..<512] s) (\<lambda>s.
           bindR (kalloc_free L (pte_to_pa e1) s) (\<lambda>s. free_l0s L l1 is s))
      else free_l0s L l1 is s)"

definition free_user_table :: "layout \<Rightarrow> usize \<Rightarrow> phys \<Rightarrow> phys result" where
  "free_user_table L root s =
     (let e2 = ent (mem s) root USER_L2_INDEX in
      bindR (if e2 AND PTE_V \<noteq> 0
             then bindR (free_l0s L (pte_to_pa e2) [0..<512] s) (\<lambda>s.
                  kalloc_free L (pte_to_pa e2) s)
             else Ok s) (\<lambda>s.
      kalloc_free L root s))"

section \<open>Bits of an entry\<close>

lemma pte_pow:
  "PTE_V = 2 ^ 0" "PTE_R = 2 ^ 1" "PTE_W = 2 ^ 2" "PTE_X = 2 ^ 3" "PTE_U = 2 ^ 4"
  "PTE_A = 2 ^ 6" "PTE_D = 2 ^ 7" "VA_MAX = 2 ^ 38"
  by (simp_all add: PTE_V_def PTE_R_def PTE_W_def PTE_X_def PTE_U_def PTE_A_def PTE_D_def VA_MAX_def
      ushl_one del: One_nat_def power_0)

lemma pte_test:
  "e AND PTE_V = 0 \<longleftrightarrow> \<not> bit e 0" "e AND PTE_R = 0 \<longleftrightarrow> \<not> bit e 1" "e AND PTE_W = 0 \<longleftrightarrow> \<not> bit e 2"
  "e AND PTE_X = 0 \<longleftrightarrow> \<not> bit e 3" "e AND PTE_U = 0 \<longleftrightarrow> \<not> bit e 4"
  unfolding pte_pow by (rule and_bit_eq_0)+

lemma bit_pte_flag:
  "bit PTE_V i \<longleftrightarrow> i = 0" "bit PTE_R i \<longleftrightarrow> i = 1" "bit PTE_W i \<longleftrightarrow> i = 2" "bit PTE_X i \<longleftrightarrow> i = 3"
  "bit PTE_U i \<longleftrightarrow> i = 4" "bit PTE_A i \<longleftrightarrow> i = 6" "bit PTE_D i \<longleftrightarrow> i = 7"
  unfolding pte_pow by (rule bit_pow2)+

lemma vpn_eq: "vpn va l = va div 2 ^ (12 + 9 * l) mod 512"
  using and_low_mask [of "va div 2 ^ (12 + 9 * l)" 9] by (simp add: vpn_def ushr_eq mask_nat_def)

lemma vpn_less [simp]: "vpn va l < 512"
  by (simp add: vpn_eq)

lemma bit_pa_to_pte: "bit (pa_to_pte pa) i \<longleftrightarrow> 10 \<le> i \<and> i < 64 \<and> bit pa (i + 2)"
proof (cases "10 \<le> i")
  case True
  then have "12 + (i - 10) = i + 2" by simp
  with True show ?thesis
    by (auto simp: pa_to_pte_def ushl_def ushr_def bit_take_bit_iff bit_push_bit_iff_nat bit_drop_bit_eq)
qed (simp add: pa_to_pte_def ushl_def bit_take_bit_iff bit_push_bit_iff_nat)

lemma bit_pte_to_pa: "bit (pte_to_pa e) i \<longleftrightarrow> 12 \<le> i \<and> i < 64 \<and> bit e (i - 2)"
proof (cases "12 \<le> i")
  case True
  then have "10 + (i - 12) = i - 2" by simp
  with True show ?thesis
    by (auto simp: pte_to_pa_def ushl_def ushr_def bit_take_bit_iff bit_push_bit_iff_nat bit_drop_bit_eq)
qed (simp add: pte_to_pa_def ushl_def bit_take_bit_iff bit_push_bit_iff_nat)

lemma page_aligned_bit: "page_aligned a \<Longrightarrow> bit a i \<Longrightarrow> 12 \<le> i"
proof (rule ccontr)
  assume "page_aligned a" and b: "bit a i" and "\<not> 12 \<le> i"
  then have "bit (take_bit 12 a) i" by (simp add: bit_take_bit_iff)
  moreover have "take_bit 12 a = 0"
    using \<open>page_aligned a\<close> by (simp add: page_aligned_def PAGE_SIZE_def take_bit_eq_mod)
  ultimately show False by simp
qed

text \<open>The two shapes of entry the kernel writes: a leaf and a pointer to the next table.\<close>

definition leaf_pte :: "usize \<Rightarrow> usize \<Rightarrow> usize" where
  "leaf_pte f perm = pa_to_pte f OR perm OR PTE_A OR PTE_D OR PTE_V"

definition table_pte :: "usize \<Rightarrow> usize" where
  "table_pte p = pa_to_pte p OR PTE_V"

lemma perm_bit: "perm < (32::usize) \<Longrightarrow> bit perm i \<Longrightarrow> i < 5"
proof (rule ccontr)
  assume "perm < 32" "bit perm i" "\<not> i < 5"
  moreover from this(3) have "(2::nat) ^ 5 \<le> 2 ^ i" by (intro power_increasing) simp_all
  ultimately show False by (simp add: bit_iff_odd)
qed

lemma bit_leaf_pte:
  "bit (leaf_pte f perm) i \<longleftrightarrow>
     10 \<le> i \<and> i < 64 \<and> bit f (i + 2) \<or> bit perm i \<or> i = 6 \<or> i = 7 \<or> i = 0"
  by (auto simp: leaf_pte_def bit_or_iff bit_pte_flag bit_pa_to_pte)

lemma bit_table_pte: "bit (table_pte p) i \<longleftrightarrow> 10 \<le> i \<and> i < 64 \<and> bit p (i + 2) \<or> i = 0"
  by (auto simp: table_pte_def bit_or_iff bit_pte_flag bit_pa_to_pte)

lemma leaf_pte_bound: "perm < 32 \<Longrightarrow> leaf_pte f perm \<le> usize_max"
  by (rule usize_boundI) (auto simp: bit_leaf_pte dest: perm_bit)

lemma table_pte_bound: "table_pte p \<le> usize_max"
  by (rule usize_boundI) (auto simp: bit_table_pte)

lemma pte_to_pa_eqI:
  assumes "page_aligned f" and "f \<le> usize_max"
    and "\<And>i. 10 \<le> i \<Longrightarrow> i < 64 \<Longrightarrow> bit e i \<longleftrightarrow> bit f (i + 2)"
  shows "pte_to_pa e = f"
proof (rule bit_eqI)
  fix n
  have "bit (pte_to_pa e) n \<longleftrightarrow> 12 \<le> n \<and> n < 64 \<and> bit f (n - 2 + 2)"
    unfolding bit_pte_to_pa using assms(3) [of "n - 2"] by auto
  also have "\<dots> \<longleftrightarrow> bit f n"
  proof (cases "12 \<le> n \<and> n < 64")
    case True
    then have "n - 2 + 2 = n" by linarith
    with True show ?thesis by (simp only:) simp
  next
    case False
    then show ?thesis using page_aligned_bit [OF assms(1), of n] usize_bit_bound [OF assms(2), of n] by auto
  qed
  finally show "bit (pte_to_pa e) n \<longleftrightarrow> bit f n" .
qed

lemma leaf_pte_pa: "page_aligned f \<Longrightarrow> f \<le> usize_max \<Longrightarrow> perm < 32 \<Longrightarrow> pte_to_pa (leaf_pte f perm) = f"
  by (rule pte_to_pa_eqI) (auto simp: bit_leaf_pte dest: perm_bit)

lemma table_pte_pa: "page_aligned p \<Longrightarrow> p \<le> usize_max \<Longrightarrow> pte_to_pa (table_pte p) = p"
  by (rule pte_to_pa_eqI) (auto simp: bit_table_pte)

lemma leaf_pte_flags:
  assumes "perm < 32"
  shows "bit (leaf_pte f perm) 0" and "0 < i \<Longrightarrow> i < 5 \<Longrightarrow> bit (leaf_pte f perm) i \<longleftrightarrow> bit perm i"
  using perm_bit [OF assms] by (auto simp: bit_leaf_pte)

lemma table_pte_valid: "bit (table_pte p) 0"
  by (simp add: bit_table_pte)

lemma bit_PERM_MASK: "bit PERM_MASK i \<longleftrightarrow> 1 \<le> i \<and> i \<le> 4"
  by (auto simp: PERM_MASK_def bit_or_iff bit_pte_flag)

lemma page_aligned_pte_to_pa: "page_aligned (pte_to_pa e)"
proof -
  have "take_bit 12 (pte_to_pa e) = 0"
    by (rule bit_eqI) (auto simp: bit_take_bit_iff bit_pte_to_pa)
  then show ?thesis by (simp add: page_aligned_def PAGE_SIZE_def take_bit_eq_mod)
qed

end
