(* ===== verification/Pagetable.thy ===== *)
theory Pagetable
  imports Vm
begin

text \<open>
  Correctness of the walk, of mapping and of translation.  A root table \<open>r\<close> in memory \<open>m\<close> is read
  as a tree: \<open>tab m r q\<close> is the table reached from \<open>r\<close> along the indices \<open>q\<close> (at most two, the
  level-2 and level-1 indices), \<open>tabs m r\<close> the set of its tables and \<open>pte_of m r va\<close> the valid leaf
  entry for \<open>va\<close>, the abstract content of the address space.  \<open>pt_wf\<close> says that the tables are pages
  of the allocator's range and that distinct index paths lead to distinct tables.

  \<open>walk\<close> with allocation extends the tree without changing \<open>pte_of\<close> anywhere; \<open>map_pages\<close> changes
  \<open>pte_of\<close> exactly on the mapped range; \<open>translate\<close> computes \<open>pte_of\<close>.  Each lemma also says which
  bytes of memory may change, which the isolation results of \<open>Uservm\<close> build on.
\<close>

definition sub :: "memory \<Rightarrow> usize \<Rightarrow> nat \<Rightarrow> usize option" where
  "sub m t i = (if ent m t i AND PTE_V \<noteq> 0 then Some (pte_to_pa (ent m t i)) else None)"

fun tab :: "memory \<Rightarrow> usize \<Rightarrow> nat list \<Rightarrow> usize option" where
  "tab m r [] = Some r"
| "tab m r (i # is) = (case sub m r i of None \<Rightarrow> None | Some t \<Rightarrow> tab m t is)"

definition path_ok :: "nat list \<Rightarrow> bool" where
  "path_ok q \<longleftrightarrow> length q \<le> 2 \<and> (\<forall>i\<in>set q. i < 512)"

definition tabs :: "memory \<Rightarrow> usize \<Rightarrow> usize set" where
  "tabs m r = {t. \<exists>q. path_ok q \<and> tab m r q = Some t}"

definition pt_wf :: "layout \<Rightarrow> memory \<Rightarrow> usize \<Rightarrow> bool" where
  "pt_wf L m r \<longleftrightarrow>
     (\<forall>t\<in>tabs m r. alloc_page L t) \<and>
     (\<forall>q q' t. path_ok q \<and> path_ok q' \<and> tab m r q = Some t \<and> tab m r q' = Some t \<longrightarrow> q = q')"

definition va_path :: "usize \<Rightarrow> nat list" where
  "va_path va = [vpn va 2, vpn va 1]"

definition pte_of :: "memory \<Rightarrow> usize \<Rightarrow> usize \<Rightarrow> usize option" where
  "pte_of m r va =
     (case tab m r (va_path va) of
        None \<Rightarrow> None
      | Some t \<Rightarrow> if ent m t (vpn va 0) AND PTE_V \<noteq> 0 then Some (ent m t (vpn va 0)) else None)"

text \<open>The allocator, the tree of \<open>r\<close>, and that no table of the tree is on the free list.\<close>

definition vm_inv :: "layout \<Rightarrow> usize \<Rightarrow> phys \<Rightarrow> bool" where
  "vm_inv L r s \<longleftrightarrow>
     kalloc_inv L s \<and> pt_wf L (mem s) r \<and> tabs (mem s) r \<inter> set (free_list s) = {}"

definition in_pages :: "usize \<Rightarrow> usize set \<Rightarrow> bool" where
  "in_pages a P \<longleftrightarrow> (\<exists>p\<in>P. p \<le> a \<and> a < p + PAGE_SIZE)"

section \<open>The tree\<close>

lemma path_ok_Nil [simp]: "path_ok []"
  by (simp add: path_ok_def)

lemma path_ok_va [simp]: "path_ok (va_path va)" "path_ok [vpn va 2]"
  by (simp_all add: path_ok_def va_path_def)

lemma tab_append: "tab m r (p @ q) = (case tab m r p of None \<Rightarrow> None | Some t \<Rightarrow> tab m t q)"
  by (induction p arbitrary: r) (auto split: option.splits)

lemma tab_one [simp]: "tab m r [i] = sub m r i"
  by (simp split: option.splits)

lemma tab_two [simp]: "tab m r [i, j] = (case sub m r i of None \<Rightarrow> None | Some t \<Rightarrow> sub m t j)"
  by (simp split: option.splits)

declare tab.simps(2) [simp del]

lemma tab_snoc: "tab m r (p @ [i]) = (case tab m r p of None \<Rightarrow> None | Some t \<Rightarrow> sub m t i)"
  by (simp add: tab_append split: option.splits)

lemma path_ok_cases:
  assumes "path_ok q"
  obtains "q = []" | i where "q = [i]" "i < 512" | i j where "q = [i, j]" "i < 512" "j < 512"
proof (cases q)
  case (Cons i q1)
  then show ?thesis
    using assms that(2) [of i] that(3) [of i "hd q1"] by (cases q1) (auto simp: path_ok_def)
qed (rule that(1))

lemma tabsI: "path_ok q \<Longrightarrow> tab m r q = Some t \<Longrightarrow> t \<in> tabs m r"
  by (auto simp: tabs_def)

lemma root_in_tabs: "r \<in> tabs m r"
  by (rule tabsI [of "[]"]) simp_all

lemma alloc_page_le_usize: "alloc_page L p \<Longrightarrow> p \<le> usize_max"
  by (simp add: alloc_page_def PAGE_SIZE_def PHYS_TOP_def DRAM_BASE_def usize_max_def)

lemma pt_wf_page: "pt_wf L m r \<Longrightarrow> path_ok q \<Longrightarrow> tab m r q = Some t \<Longrightarrow> alloc_page L t"
  by (auto simp: pt_wf_def intro: tabsI)

lemma pt_wf_inj:
  "pt_wf L m r \<Longrightarrow> path_ok q \<Longrightarrow> path_ok q' \<Longrightarrow> tab m r q = Some t \<Longrightarrow> tab m r q' = Some t \<Longrightarrow> q = q'"
  unfolding pt_wf_def by blast

lemma sub_cong: "ent m' t i = ent m t i \<Longrightarrow> sub m' t i = sub m t i"
  by (simp add: sub_def)

lemma sub_table_pte:
  "ent m t i = table_pte p \<Longrightarrow> alloc_page L p \<Longrightarrow> sub m t i = Some p"
  by (simp add: sub_def pte_test table_pte_valid table_pte_pa alloc_page_aligned alloc_page_le_usize)

lemma sub_zero: "ent m t i = 0 \<Longrightarrow> sub m t i = None"
  by (simp add: sub_def)

text \<open>Memory that agrees on the tables of \<open>r\<close> has the same tree and the same content.\<close>

lemma tab_frame:
  assumes "\<And>t i. t \<in> tabs m r \<Longrightarrow> i < 512 \<Longrightarrow> ent m' t i = ent m t i" and "path_ok q"
  shows "tab m' r q = tab m r q"
  using assms(2)
proof (cases rule: path_ok_cases)
  case (2 i)
  then show ?thesis using sub_cong [OF assms(1) [OF root_in_tabs, of i]] by (simp only: tab_one)
next
  case (3 i j)
  have r: "sub m' r i = sub m r i" using sub_cong [OF assms(1) [OF root_in_tabs, of i]] 3 by simp
  show ?thesis
  proof (cases "sub m r i")
    case (Some t)
    then have "t \<in> tabs m r" using 3 by (intro tabsI [of "[i]"]) (auto simp: path_ok_def)
    with sub_cong [OF assms(1) [of t j]] 3 have "sub m' t j = sub m t j" by simp
    with 3 r Some show ?thesis by simp
  qed (use 3 r in simp)
qed simp

lemma pt_frame:
  assumes "\<And>t i. t \<in> tabs m r \<Longrightarrow> i < 512 \<Longrightarrow> ent m' t i = ent m t i"
  shows "tabs m' r = tabs m r" and "pte_of m' r va = pte_of m r va" and "pt_wf L m' r = pt_wf L m r"
proof -
  have t: "tab m' r q = tab m r q" if "path_ok q" for q
    using assms that by (rule tab_frame)
  then show tabs: "tabs m' r = tabs m r" by (auto simp: tabs_def)
  show "pte_of m' r va = pte_of m r va"
  proof (cases "tab m r (va_path va)")
    case (Some u)
    then have "u \<in> tabs m r" by (intro tabsI [OF path_ok_va(1)])
    with assms [of u "vpn va 0"] Some show ?thesis by (simp add: pte_of_def t)
  qed (simp add: pte_of_def t)
  show "pt_wf L m' r = pt_wf L m r"
    unfolding pt_wf_def tabs by (simp add: t cong: conj_cong)
qed

section \<open>Adding a table, writing a leaf\<close>

lemma tab_add_table:
  assumes wf: "pt_wf L m r" and t: "tab m r p = Some t" and p: "length p \<le> 1" "path_ok p"
    and i: "i < 512" and none: "sub m t i = None"
    and n: "alloc_page L n" "n \<notin> tabs m r" "\<And>j. j < 512 \<Longrightarrow> ent m n j = 0"
    and q: "path_ok q"
  shows "tab (set_ent m t i (table_pte n)) r q = (if q = p @ [i] then Some n else tab m r q)"
proof -
  let ?m = "set_ent m t i (table_pte n)"
  have tt: "t \<in> tabs m r" using p(2) t by (rule tabsI)
  have tp: "page_aligned t" using wf tt by (auto simp: pt_wf_def alloc_page_def)
  have np: "page_aligned n" "n \<noteq> t" using n tt by (auto simp: alloc_page_def)
  have s: "sub ?m u j = (if u = t \<and> j = i then Some n else sub m u j)"
    if "page_aligned u" "j < 512" for u j
  proof (cases "u = t \<and> j = i")
    case True
    then have "ent ?m u j = table_pte n"
      using tp i by (simp add: ent_set_ent table_pte_bound)
    with True n(1) show ?thesis by (simp add: sub_table_pte)
  next
    case False
    then show ?thesis
      using sub_cong [of ?m u j m] ent_set_ent [OF tp that(1) i that(2) table_pte_bound] by auto
  qed
  have sn: "sub ?m n j = None" "sub m n j = None" if "j < 512" for j
    using s [OF np(1) that] np(2) n(3) [OF that] by (auto simp: sub_zero)
  have r: "page_aligned r" using wf root_in_tabs [of r m] by (auto simp: pt_wf_def alloc_page_def)
  have at: "u = t \<longleftrightarrow> q' = p" if "path_ok q'" "tab m r q' = Some u" for q' u
    using pt_wf_inj [OF wf that(1) p(2), of t] that t by auto
  from q show ?thesis
  proof (cases rule: path_ok_cases)
    case 1
    then show ?thesis by simp
  next
    case (2 a)
    then show ?thesis using s [OF r, of a] at [of "[]" r] by (auto simp: tab_one)
  next
    case (3 a b)
    show ?thesis
    proof (cases "sub m r a")
      case None
      then have "tab ?m r [a, b] = None"
        using s [OF r 3(2)] sn(1) [OF 3(3)] by (auto simp: tab_one split: option.splits)
      moreover have "p @ [i] \<noteq> [a, b]" using None t by (auto simp: tab_one)
      ultimately show ?thesis using 3 None by auto
    next
      case (Some u)
      then have u: "tab m r [a] = Some u" "path_ok [a]" using 3 by (simp_all add: tab_one path_ok_def)
      then have "page_aligned u" using pt_wf_page [OF wf u(2,1)] by (simp add: alloc_page_def)
      then have "sub ?m u b = (if p = [a] \<and> b = i then Some n else sub m u b)"
        using s 3(3) at [OF u(2,1)] by auto
      moreover have "sub ?m r a = Some u"
        using s [OF r 3(2)] Some none at [of "[]" r] by auto
      ultimately show ?thesis using 3 Some by (auto simp: tab_one)
    qed
  qed
qed

lemma pt_add_table:
  assumes wf: "pt_wf L m r" and t: "tab m r p = Some t" and p: "length p \<le> 1" "path_ok p"
    and i: "i < 512" and none: "sub m t i = None"
    and n: "alloc_page L n" "n \<notin> tabs m r" "\<And>j. j < 512 \<Longrightarrow> ent m n j = 0"
  defines "m' \<equiv> set_ent m t i (table_pte n)"
  shows "tabs m' r = insert n (tabs m r)" and "pt_wf L m' r" and "pte_of m' r va = pte_of m r va"
    and "tab m' r (p @ [i]) = Some n"
proof -
  have tab': "tab m' r q = (if q = p @ [i] then Some n else tab m r q)" if "path_ok q" for q
    unfolding m'_def by (rule tab_add_table [OF assms(1-9) that])
  have pi: "path_ok (p @ [i])" using p i by (auto simp: path_ok_def)
  have old: "tab m r (p @ [i]) = None" using t none by (simp add: tab_snoc)
  show tabs': "tabs m' r = insert n (tabs m r)"
    using tab' pi old by (auto simp: tabs_def split: if_splits) (metis option.distinct(1))
  have notn: "tab m r q \<noteq> Some n" if "path_ok q" for q using n(2) that by (auto intro: tabsI)
  show "pt_wf L m' r"
    unfolding pt_wf_def tabs'
  proof (intro conjI allI impI ballI)
    show "alloc_page L x" if "x \<in> insert n (tabs m r)" for x
      using that n(1) wf by (auto simp: pt_wf_def)
    show "q = q'"
      if "path_ok q \<and> path_ok q' \<and> tab m' r q = Some x \<and> tab m' r q' = Some x" for q q' x
      using that tab' notn pt_wf_inj [OF wf, of q q' x] by (auto split: if_splits)
  qed
  show "tab m' r (p @ [i]) = Some n" using tab' [OF pi] by simp
  have tp: "page_aligned t" and np: "page_aligned n" "n \<noteq> t"
    using wf n tabsI [OF p(2) t] by (auto simp: pt_wf_def alloc_page_def)
  show "pte_of m' r va = pte_of m r va"
  proof (cases "va_path va = p @ [i]")
    case True
    have "ent m' n (vpn va 0) = 0"
      unfolding m'_def using np n(3) tp i by (simp add: ent_set_ent table_pte_bound)
    with True old pi show ?thesis by (simp add: pte_of_def tab')
  next
    case False
    show ?thesis
    proof (cases "tab m r (va_path va)")
      case (Some u)
      have "va_path va \<noteq> p" using p(1) by (auto simp: va_path_def)
      then have "u \<noteq> t" using pt_wf_inj [OF wf path_ok_va(1) p(2) Some, of] t by auto
      moreover have "page_aligned u"
        using pt_wf_page [OF wf path_ok_va(1) Some] by (rule alloc_page_aligned)
      ultimately have "ent m' u (vpn va 0) = ent m u (vpn va 0)"
        unfolding m'_def using tp i by (simp add: ent_set_ent table_pte_bound)
      with Some False show ?thesis by (simp add: pte_of_def tab')
    qed (use False in \<open>simp add: pte_of_def tab'\<close>)
  qed
qed

lemma pt_set_leaf:
  assumes wf: "pt_wf L m r" and t: "tab m r (va_path va) = Some t" and v: "v \<le> usize_max" "bit v 0"
  defines "m' \<equiv> set_ent m t (vpn va 0) v"
  shows "\<And>q. path_ok q \<Longrightarrow> tab m' r q = tab m r q"
    and "tabs m' r = tabs m r" and "pt_wf L m' r"
    and "pte_of m' r w = (if va_path w = va_path va \<and> vpn w 0 = vpn va 0 then Some v else pte_of m r w)"
proof -
  have tp: "page_aligned t" using pt_wf_page [OF wf _ t] by (simp add: alloc_page_def)
  have e: "ent m' u j = (if u = t \<and> j = vpn va 0 then v else ent m u j)"
    if "page_aligned u" "j < 512" for u j
    unfolding m'_def using tp that v(1) by (simp add: ent_set_ent)
  have s: "sub m' u j = sub m u j"
    if "path_ok q" "length q \<le> 1" "tab m r q = Some u" "j < 512" for q u j
  proof -
    have "q \<noteq> va_path va" using that(2) by (auto simp: va_path_def)
    then have "u \<noteq> t" using pt_wf_inj [OF wf that(1) path_ok_va(1) that(3)] t by auto
    moreover have "page_aligned u" using pt_wf_page [OF wf that(1,3)] by (rule alloc_page_aligned)
    ultimately show ?thesis using e [of u j] that(4) sub_cong [of m' u j m] by simp
  qed
  show tab': "tab m' r q = tab m r q" if "path_ok q" for q
    using that
  proof (cases rule: path_ok_cases)
    case (3 i j)
    have "sub m' r i = sub m r i" using s [of "[]" r i] 3 by simp
    moreover have "sub m' u j = sub m u j" if "sub m r i = Some u" for u
      using s [of "[i]" u j] 3 that by (simp add: path_ok_def)
    ultimately show ?thesis using 3 by (simp split: option.splits)
  next
    case (2 i)
    then show ?thesis using s [of "[]" r i] by simp
  qed simp
  then show tabs': "tabs m' r = tabs m r" by (auto simp: tabs_def)
  show "pt_wf L m' r"
    using wf unfolding pt_wf_def tabs' by (simp add: tab' cong: conj_cong)
  show "pte_of m' r w = (if va_path w = va_path va \<and> vpn w 0 = vpn va 0 then Some v else pte_of m r w)"
  proof (cases "tab m r (va_path w)")
    case None
    with t show ?thesis by (auto simp: pte_of_def tab')
  next
    case (Some u)
    have "page_aligned u" using pt_wf_page [OF wf _ Some] by (simp add: alloc_page_def)
    moreover have "u = t \<longleftrightarrow> va_path w = va_path va"
    proof
      assume "u = t"
      with Some t show "va_path w = va_path va"
        by (intro pt_wf_inj [OF wf path_ok_va(1) path_ok_va(1)]) simp_all
    next
      assume "va_path w = va_path va"
      with Some t show "u = t" by simp
    qed
    ultimately have "ent m' u (vpn w 0) =
        (if va_path w = va_path va \<and> vpn w 0 = vpn va 0 then v else ent m u (vpn w 0))"
      using e by auto
    with Some v(2) show ?thesis
      by (cases "va_path w = va_path va \<and> vpn w 0 = vpn va 0") (auto simp: pte_of_def tab' pte_test)
  qed
qed

section \<open>The walk\<close>

text \<open>What an operation on the tree of \<open>r\<close> that only adds tables leaves behind: \<open>new\<close> are the pages
  it took, \<open>P\<close> the old tables it may have written to.\<close>

definition pt_ext :: "layout \<Rightarrow> usize \<Rightarrow> usize set \<Rightarrow> usize list \<Rightarrow> phys \<Rightarrow> phys \<Rightarrow> bool" where
  "pt_ext L r P new s s' \<longleftrightarrow>
     vm_inv L r s' \<and> free_list s = new @ free_list s' \<and>
     tabs (mem s') r = tabs (mem s) r \<union> set new \<and>
     (\<forall>va. pte_of (mem s') r va = pte_of (mem s) r va) \<and>
     (\<forall>q t. path_ok q \<longrightarrow> tab (mem s) r q = Some t \<longrightarrow> tab (mem s') r q = Some t) \<and>
     (\<forall>a. mem s' a \<noteq> mem s a \<longrightarrow> in_pages a (P \<union> set new))"

lemma in_pages_mono: "in_pages a P \<Longrightarrow> P \<subseteq> Q \<Longrightarrow> in_pages a Q"
  by (auto simp: in_pages_def)

lemma pt_ext_refl: "vm_inv L r s \<Longrightarrow> pt_ext L r P [] s s"
  by (simp add: pt_ext_def)

lemma pt_ext_trans:
  assumes "pt_ext L r P new s s'" and "pt_ext L r P' new' s' s''" and "P' \<subseteq> P \<union> set new"
  shows "pt_ext L r P (new @ new') s s''"
  unfolding pt_ext_def
proof (intro conjI allI impI)
  show "in_pages a (P \<union> set (new @ new'))" if "mem s'' a \<noteq> mem s a" for a
  proof (cases "mem s' a = mem s a")
    case True
    with that assms(2) have "in_pages a (P' \<union> set new')" by (simp add: pt_ext_def)
    then show ?thesis by (rule in_pages_mono) (use assms(3) in auto)
  next
    case False
    with assms(1) have "in_pages a (P \<union> set new)" by (simp add: pt_ext_def)
    then show ?thesis by (rule in_pages_mono) auto
  qed
qed (use assms in \<open>auto simp: pt_ext_def\<close>)

lemma write_bytes_outside: "\<not> in_pages a {p} \<Longrightarrow> write_bytes m p v PAGE_SIZE a = m a"
  by (auto simp: in_pages_def write_bytes_def)

lemma walk_alloc_step:
  assumes inv: "vm_inv L r s" and t: "tab (mem s) r p = Some t" "length p \<le> 1" "path_ok p"
    and i: "i < 512" and none: "sub (mem s) t i = None"
    and al: "kalloc_alloc s = Ok (Some n, s1)"
  defines "s2 \<equiv> s1\<lparr>mem := set_ent (mem s1) t i (pa_to_pte n OR PTE_V)\<rparr>"
  shows "pt_ext L r {t} [n] s s2"
    and "\<And>q. path_ok q \<Longrightarrow> tab (mem s2) r q = (if q = p @ [i] then Some n else tab (mem s) r q)"
    and "\<And>j. j < 512 \<Longrightarrow> p \<noteq> [] \<or> j \<noteq> i \<Longrightarrow> ent (mem s2) r j = ent (mem s) r j"
proof -
  have kinv: "kalloc_inv L s" and wf: "pt_wf L (mem s) r"
    and disj: "tabs (mem s) r \<inter> set (free_list s) = {}" using inv by (simp_all add: vm_inv_def)
  note A = kmem.allocate_SomeD [OF kinv al]
  have nt: "n \<notin> tabs (mem s) r" using A(1) disj by auto
  have np: "page_aligned n" using A(3) by (rule alloc_page_aligned)
  have fr: "ent (mem s1) u j = ent (mem s) u j" if "u \<in> tabs (mem s) r" "j < 512" for u j
  proof -
    have "page_aligned u" using wf that by (auto simp: pt_wf_def alloc_page_def)
    moreover have "u \<noteq> n" using nt that by auto
    ultimately show ?thesis using np that by (simp add: A(5) ent_write_zero)
  qed
  have tt: "t \<in> tabs (mem s) r" using t by (auto intro: tabsI)
  have tab1: "tab (mem s1) r q = tab (mem s) r q" if "path_ok q" for q
    using fr that by (rule tab_frame)
  have tabs1: "tabs (mem s1) r = tabs (mem s) r" and wf1: "pt_wf L (mem s1) r"
    and pte1: "\<And>va. pte_of (mem s1) r va = pte_of (mem s) r va"
    using pt_frame [of "mem s" r "mem s1", OF fr] wf by auto
  have none1: "sub (mem s1) t i = None" using sub_cong [OF fr [OF tt i]] none by simp
  have z: "ent (mem s1) n j = 0" if "j < 512" for j using np that by (simp add: A(5) ent_write_zero)
  have t1: "tab (mem s1) r p = Some t" using tab1 t by simp
  have m2: "mem s2 = set_ent (mem s1) t i (table_pte n)" by (simp add: s2_def table_pte_def)
  have X: "tabs (mem s2) r = insert n (tabs (mem s) r)" "pt_wf L (mem s2) r"
    "\<And>va. pte_of (mem s2) r va = pte_of (mem s) r va"
    using pt_add_table [OF wf1 t1 t(2,3) i none1 A(3), OF _ z] nt tabs1 pte1 by (simp_all add: m2)
  have Y: "tab (mem s2) r q = (if q = p @ [i] then Some n else tab (mem s) r q)" if "path_ok q" for q
    using tab_add_table [OF wf1 t1 t(2,3) i none1 A(3), OF _ z that] nt tabs1 tab1 [OF that]
    by (simp add: m2)
  have tp: "page_aligned t" using pt_wf_page [OF wf t(3,1)] by (rule alloc_page_aligned)
  have "ent (mem s2) q 0 = ent (mem s1) q 0" if "q \<in> set (free_list s1)" for q
  proof -
    have "page_aligned q" using A(2) that by (auto simp: kalloc_inv_def alloc_page_def)
    moreover have "q \<noteq> t" using that A(1) disj tt by auto
    ultimately show ?thesis using tp i by (simp add: m2 ent_set_ent table_pte_bound)
  qed
  from kalloc_frame [OF A(2) this]
  have fl2: "free_list s2 = free_list s1" and kinv2: "kalloc_inv L s2" by (simp_all add: s2_def)
  show "tab (mem s2) r q = (if q = p @ [i] then Some n else tab (mem s) r q)" if "path_ok q" for q
    using that by (rule Y)
  have rp: "page_aligned r" using pt_wf_page [OF wf path_ok_Nil tab.simps(1)] by (rule alloc_page_aligned)
  show "ent (mem s2) r j = ent (mem s) r j" if j: "j < 512" "p \<noteq> [] \<or> j \<noteq> i" for j
  proof -
    have "r = t \<Longrightarrow> p = []" using pt_wf_inj [OF wf t(3) path_ok_Nil t(1)] by simp
    then have "\<not> (r = t \<and> j = i)" using j(2) by blast
    then have "ent (mem s2) r j = ent (mem s1) r j" using tp rp i j(1) by (auto simp: m2 ent_set_ent table_pte_bound)
    then show ?thesis using fr [OF root_in_tabs j(1)] by simp
  qed
  have old: "tab (mem s) r (p @ [i]) = None" using t none by (simp add: tab_snoc)
  show "pt_ext L r {t} [n] s s2"
    unfolding pt_ext_def
  proof (intro conjI allI impI)
    show "vm_inv L r s2"
      using kinv2 X(1,2) fl2 A(1,4) disj by (auto simp: vm_inv_def)
    show "tab (mem s2) r q = Some u" if "path_ok q" "tab (mem s) r q = Some u" for q u
      using that old Y [OF that(1)] by auto
    show "in_pages a ({t} \<union> set [n])" if "mem s2 a \<noteq> mem s a" for a
    proof (rule ccontr)
      assume "\<not> ?thesis"
      then have "\<not> (t \<le> a \<and> a < t + PAGE_SIZE)" "\<not> in_pages a {n}" by (auto simp: in_pages_def)
      with i that show False by (simp add: m2 set_ent_outside A(5) write_bytes_outside)
    qed
  qed (use fl2 A(1) X in simp_all)
qed

lemma walk_levels_valid:
  "sub (mem s) t (vpn va l) = Some u \<Longrightarrow> walk_levels (l # ls) va al t s = walk_levels ls va al u s"
  by (auto simp: sub_def Let_def split: if_splits)

lemma walk_levels_stop:
  "sub (mem s) t (vpn va l) = None \<Longrightarrow> walk_levels (l # ls) va False t s = Ok (None, s)"
  by (auto simp: sub_def Let_def split: if_splits)

lemma walk_levels_full:
  assumes "kalloc_inv L s" and "free_list s = []" and "sub (mem s) t (vpn va l) = None"
  shows "walk_levels (l # ls) va True t s = Ok (None, s)"
  using assms(3) kmem.allocate_empty [OF assms(1,2)] by (auto simp: sub_def Let_def split: if_splits)

lemma walk_levels_alloc:
  assumes inv: "vm_inv L r s" and t: "tab (mem s) r p = Some t" "length p \<le> 1" "path_ok p"
    and none: "sub (mem s) t (vpn va l) = None" and fl: "free_list s = n # ns"
  obtains s2 where "walk_levels (l # ls) va True t s = walk_levels ls va True n s2"
    and "pt_ext L r {t} [n] s s2"
    and "\<And>q. path_ok q \<Longrightarrow>
          tab (mem s2) r q = (if q = p @ [vpn va l] then Some n else tab (mem s) r q)"
    and "\<And>j. j < 512 \<Longrightarrow> p \<noteq> [] \<or> j \<noteq> vpn va l \<Longrightarrow> ent (mem s2) r j = ent (mem s) r j"
proof -
  have "kalloc_inv L s" using inv by (simp add: vm_inv_def)
  from kmem.allocate_pop [OF this fl] obtain s1 where s1: "kalloc_alloc s = Ok (Some n, s1)" by blast
  let ?s2 = "s1\<lparr>mem := set_ent (mem s1) t (vpn va l) (pa_to_pte n OR PTE_V)\<rparr>"
  have "walk_levels (l # ls) va True t s = walk_levels ls va True n ?s2"
    using none s1 by (auto simp: sub_def Let_def split: if_splits)
  from that [OF this walk_alloc_step [OF inv t vpn_less none s1]] show thesis by simp
qed

declare walk_levels.simps(2) [simp del]

text \<open>The number of tables a walk to \<open>va\<close> still has to create, and the old tables it may write.\<close>

definition missing :: "memory \<Rightarrow> usize \<Rightarrow> usize \<Rightarrow> nat" where
  "missing m r va =
     (case sub m r (vpn va 2) of
        None \<Rightarrow> 2
      | Some t \<Rightarrow> (case sub m t (vpn va 1) of None \<Rightarrow> 1 | Some u \<Rightarrow> 0))"

definition walk_tabs :: "memory \<Rightarrow> usize \<Rightarrow> usize \<Rightarrow> usize set" where
  "walk_tabs m r va = insert r (set_option (sub m r (vpn va 2)))"

lemma rev_levels: "rev [1..<3] = [2, 1 :: nat]"
  by (simp add: upt_rec numeral_eq_Suc)

lemma walk_no_alloc:
  "va < VA_MAX \<Longrightarrow>
   walk r va False s = Ok (map_option (\<lambda>t. t + 8 * vpn va 0) (tab (mem s) r (va_path va)), s)"
proof -
  assume va: "va < VA_MAX"
  have "walk_levels [2, 1] va False r s = Ok (tab (mem s) r (va_path va), s)"
  proof (cases "sub (mem s) r (vpn va 2)")
    case None
    then show ?thesis by (simp only: walk_levels_stop va_path_def tab_two) simp
  next
    case (Some t)
    then show ?thesis
      by (cases "sub (mem s) t (vpn va 1)")
        (simp_all only: walk_levels_valid walk_levels_stop va_path_def tab_two, simp_all)
  qed
  then show ?thesis using va by (simp only: walk_def rev_levels) simp
qed

lemma walk_levels_correct:
  assumes inv: "vm_inv L r s"
  shows "\<exists>new s'. walk_levels [2, 1] va True r s =
             Ok (if missing (mem s) r va \<le> length (free_list s)
                 then tab (mem s') r (va_path va) else None, s') \<and>
           pt_ext L r (walk_tabs (mem s) r va) new s s' \<and>
           length new = min (missing (mem s) r va) (length (free_list s)) \<and>
           (missing (mem s) r va \<le> length (free_list s) \<longrightarrow> tab (mem s') r (va_path va) \<noteq> None) \<and>
           (\<forall>j<512. j \<noteq> vpn va 2 \<longrightarrow> ent (mem s') r j = ent (mem s) r j)"
    (is "?P s")
proof -
  have lvl1: "?P s" if s: "vm_inv L r s" "sub (mem s) r (vpn va 2) = Some t" for s t
  proof (cases "sub (mem s) t (vpn va 1)")
    case (Some u)
    then have "walk_levels [2, 1] va True r s = Ok (Some u, s)" and "missing (mem s) r va = 0"
      and "tab (mem s) r (va_path va) = Some u"
      using s(2) by (simp_all only: walk_levels_valid) (simp_all add: missing_def va_path_def)
    then show ?thesis using pt_ext_refl [OF s(1)] by (intro exI [of _ "[]"] exI [of _ s]) simp
  next
    case None
    have t: "tab (mem s) r [vpn va 2] = Some t" using s(2) by simp
    have mi: "missing (mem s) r va = 1" using s(2) None by (simp add: missing_def)
    show ?thesis
    proof (cases "free_list s")
      case Nil
      have "kalloc_inv L s" using s(1) by (simp add: vm_inv_def)
      then have "walk_levels [2, 1] va True r s = Ok (None, s)"
        using s(2) walk_levels_full [OF _ Nil None] by (simp only: walk_levels_valid)
      then show ?thesis using Nil mi pt_ext_refl [OF s(1)]
        by (intro exI [of _ "[]"] exI [of _ s]) simp
    next
      case (Cons n ns)
      obtain s2 where w: "walk_levels [1] va True t s = walk_levels [] va True n s2"
        and e: "pt_ext L r {t} [n] s s2"
        and tn: "\<And>q. path_ok q \<Longrightarrow>
          tab (mem s2) r q = (if q = [vpn va 2] @ [vpn va 1] then Some n else tab (mem s) r q)"
        and rs: "\<And>j. j < 512 \<Longrightarrow> ent (mem s2) r j = ent (mem s) r j"
        by (rule walk_levels_alloc [OF s(1) t _ path_ok_va(2) None Cons, where ls = "[]"]) simp_all
      have "pt_ext L r (walk_tabs (mem s) r va) [n] s s2"
        using e s(2) by (fastforce simp: pt_ext_def walk_tabs_def elim: in_pages_mono)
      moreover have "walk_levels [2, 1] va True r s = Ok (Some n, s2)"
        using w s(2) by (simp only: walk_levels_valid) simp
      moreover have "tab (mem s2) r (va_path va) = Some n"
        using tn [OF path_ok_va(1)] by (simp add: va_path_def)
      ultimately show ?thesis using mi Cons rs by (intro exI [of _ "[n]"] exI [of _ s2]) simp
    qed
  qed
  show ?thesis
  proof (cases "sub (mem s) r (vpn va 2)")
    case (Some t)
    with inv show ?thesis by (rule lvl1)
  next
    case None
    have mi: "missing (mem s) r va = 2" and wt: "walk_tabs (mem s) r va = {r}"
      using None by (simp_all add: missing_def walk_tabs_def)
    have kinv: "kalloc_inv L s" using inv by (simp add: vm_inv_def)
    show ?thesis
    proof (cases "free_list s")
      case Nil
      then show ?thesis using walk_levels_full [OF kinv Nil None] mi pt_ext_refl [OF inv]
        by (intro exI [of _ "[]"] exI [of _ s]) simp
    next
      case (Cons n ns)
      obtain s2 where w: "walk_levels [2, 1] va True r s = walk_levels [1] va True n s2"
        and e: "pt_ext L r {r} [n] s s2"
        and tn: "\<And>q. path_ok q \<Longrightarrow>
          tab (mem s2) r q = (if q = [] @ [vpn va 2] then Some n else tab (mem s) r q)"
        and rs: "\<And>j. j < 512 \<Longrightarrow> j \<noteq> vpn va 2 \<Longrightarrow> ent (mem s2) r j = ent (mem s) r j"
        by (rule walk_levels_alloc [OF inv tab.simps(1) _ path_ok_Nil None Cons, where ls = "[1]"])
          simp_all
      have inv2: "vm_inv L r s2" and fl2: "free_list s2 = ns" using e Cons by (simp_all add: pt_ext_def)
      have sub2: "sub (mem s2) r (vpn va 2) = Some n" using tn [OF path_ok_va(2)] by simp
      have "tab (mem s2) r (va_path va) = None"
        using tn [OF path_ok_va(1)] None by (simp add: va_path_def)
      then have mi2: "missing (mem s2) r va = 1" and wt2: "walk_tabs (mem s2) r va = {r, n}"
        using sub2 by (simp_all add: missing_def va_path_def walk_tabs_def)
      from lvl1 [OF inv2 sub2] obtain new s' where
        w2: "walk_levels [1] va True n s2 =
          Ok (if 1 \<le> length ns then tab (mem s') r (va_path va) else None, s')"
        and e2: "pt_ext L r {r, n} new s2 s'" and l2: "length new = min 1 (length ns)"
        and some: "1 \<le> length ns \<longrightarrow> tab (mem s') r (va_path va) \<noteq> None"
        and rs2: "\<forall>j<512. j \<noteq> vpn va 2 \<longrightarrow> ent (mem s') r j = ent (mem s2) r j"
        unfolding mi2 wt2 fl2 walk_levels_valid [OF sub2] by blast
      have "pt_ext L r {r} ([n] @ new) s s'" using e e2 by (rule pt_ext_trans) simp
      with w w2 l2 some rs rs2 show ?thesis
        unfolding mi wt by (intro exI [of _ "n # new"] exI [of _ s']) (auto simp: Cons)
    qed
  qed
qed

lemma walk_correct:
  assumes "vm_inv L r s" and "va < VA_MAX"
  obtains new s' where "pt_ext L r (walk_tabs (mem s) r va) new s s'"
    and "length new = min (missing (mem s) r va) (length (free_list s))"
    and "walk r va True s =
           Ok (if missing (mem s) r va \<le> length (free_list s)
               then Some (the (tab (mem s') r (va_path va)) + 8 * vpn va 0) else None, s')"
    and "missing (mem s) r va \<le> length (free_list s) \<longrightarrow> tab (mem s') r (va_path va) \<noteq> None"
    and "\<forall>j<512. j \<noteq> vpn va 2 \<longrightarrow> ent (mem s') r j = ent (mem s) r j"
proof -
  from walk_levels_correct [OF assms(1), of va] obtain new s' where
    w: "walk_levels [2, 1] va True r s =
             Ok (if missing (mem s) r va \<le> length (free_list s)
                 then tab (mem s') r (va_path va) else None, s')"
    and rest: "pt_ext L r (walk_tabs (mem s) r va) new s s'"
      "length new = min (missing (mem s) r va) (length (free_list s))"
      "missing (mem s) r va \<le> length (free_list s) \<longrightarrow> tab (mem s') r (va_path va) \<noteq> None"
      "\<forall>j<512. j \<noteq> vpn va 2 \<longrightarrow> ent (mem s') r j = ent (mem s) r j"
    by blast
  have "walk r va True s =
           Ok (if missing (mem s) r va \<le> length (free_list s)
               then Some (the (tab (mem s') r (va_path va)) + 8 * vpn va 0) else None, s')"
    using w rest(3) assms(2) by (simp only: walk_def rev_levels) auto
  with rest show thesis by (intro that [of new s'])
qed

end
