(* ===== verification/Vmmap.thy ===== *)
theory Vmmap
  imports Pagetable
begin

text \<open>
  What mapping and translating do (\<open>src/src/vm.rs\<close>, \<open>translate\<close>, \<open>map_pages\<close>), stated on the
  partial function \<open>pte_of\<close> from virtual addresses to leaf entries that a table tree denotes.
\<close>

section \<open>Translation\<close>

lemma vpn_levels:
  "vpn va 0 = va div PAGE_SIZE mod 512" "vpn va 1 = va div PAGE_SIZE div 512 mod 512"
  "vpn va 2 = va div PAGE_SIZE div 512 div 512 mod 512"
  by (simp_all add: vpn_eq PAGE_SIZE_def flip: div_mult2_eq)

lemma va_digits:
  assumes "va < VA_MAX"
  shows "va div PAGE_SIZE = vpn va 0 + 512 * (vpn va 1 + 512 * vpn va 2)"
proof -
  define x where "x = va div PAGE_SIZE"
  have "x < 2 ^ 26" using assms unfolding x_def pte_pow PAGE_SIZE_def by (simp add: div_less_iff_less_mult)
  then have "x div (512 * 512) < 512" by (simp add: div_less_iff_less_mult)
  then have 2: "x div 512 div 512 mod 512 = x div 512 div 512" by (simp only: div_mult2_eq mod_less)
  have "x = x mod 512 + 512 * (x div 512 mod 512 + 512 * (x div 512 div 512))"
    by (simp only: mod_mult_div_eq)
  then show ?thesis unfolding vpn_levels x_def [symmetric] 2 .
qed

lemma same_page_iff:
  assumes "v < VA_MAX" and "w < VA_MAX"
  shows "va_path v = va_path w \<and> vpn v 0 = vpn w 0 \<longleftrightarrow> v div PAGE_SIZE = w div PAGE_SIZE"
proof
  assume "va_path v = va_path w \<and> vpn v 0 = vpn w 0"
  then show "v div PAGE_SIZE = w div PAGE_SIZE" using va_digits assms by (simp add: va_path_def)
next
  assume "v div PAGE_SIZE = w div PAGE_SIZE"
  then show "va_path v = va_path w \<and> vpn v 0 = vpn w 0" unfolding va_path_def vpn_levels by simp
qed

lemma translate_eq:
  "va < VA_MAX \<Longrightarrow>
   translate r va s = Ok (map_option (\<lambda>e. (pte_to_pa e OR (va mod PAGE_SIZE), e)) (pte_of (mem s) r va))"
  by (auto simp: translate_def walk_no_alloc pte_of_def ent_def Let_def split: option.splits)

lemma pte_to_pa_or_offset:
  assumes "off < PAGE_SIZE"
  shows "pte_to_pa e OR off = pte_to_pa e + off"
proof -
  have "pte_to_pa e AND off = 0"
  proof (rule bit_eqI)
    fix i
    have "\<not> bit off i" if "12 \<le> i"
    proof -
      have "(2::nat) ^ 12 \<le> 2 ^ i" using that by (intro power_increasing) simp_all
      then have "off < 2 ^ i" using assms by (simp add: PAGE_SIZE_def)
      then show ?thesis by (simp add: bit_iff_odd)
    qed
    then show "bit (pte_to_pa e AND off) i \<longleftrightarrow> bit 0 i" by (auto simp: bit_and_iff bit_pte_to_pa)
  qed
  then show ?thesis by (simp add: disjunctive_add_eq_or)
qed

lemma pte_of_page: "va div PAGE_SIZE = w div PAGE_SIZE \<Longrightarrow> pte_of m r va = pte_of m r w"
  unfolding pte_of_def va_path_def vpn_levels by (simp only:)

section \<open>Mapping\<close>

definition pt_grow :: "layout \<Rightarrow> usize \<Rightarrow> usize set \<Rightarrow> usize list \<Rightarrow> phys \<Rightarrow> phys \<Rightarrow> bool" where
  "pt_grow L r P new s s' \<longleftrightarrow>
     vm_inv L r s' \<and> free_list s = new @ free_list s' \<and>
     tabs (mem s') r = tabs (mem s) r \<union> set new \<and>
     (\<forall>q t. path_ok q \<longrightarrow> tab (mem s) r q = Some t \<longrightarrow> tab (mem s') r q = Some t) \<and>
     (\<forall>a. mem s' a \<noteq> mem s a \<longrightarrow> in_pages a (P \<union> set new))"

lemma pt_grow_refl: "vm_inv L r s \<Longrightarrow> pt_grow L r P [] s s"
  by (simp add: pt_grow_def)

lemma pt_grow_trans:
  assumes "pt_grow L r P new s s'" and "pt_grow L r P' new' s' s''"
    and "P \<subseteq> Q" and "P' \<subseteq> Q \<union> set new"
  shows "pt_grow L r Q (new @ new') s s''"
  unfolding pt_grow_def
proof (intro conjI allI impI)
  show "in_pages a (Q \<union> set (new @ new'))" if "mem s'' a \<noteq> mem s a" for a
  proof (cases "mem s' a = mem s a")
    case True
    with that assms(2) have "in_pages a (P' \<union> set new')" by (simp add: pt_grow_def)
    then show ?thesis by (rule in_pages_mono) (use assms(4) in auto)
  next
    case False
    with assms(1) have "in_pages a (P \<union> set new)" by (simp add: pt_grow_def)
    then show ?thesis by (rule in_pages_mono) (use assms(3) in auto)
  qed
qed (use assms in \<open>auto simp: pt_grow_def\<close>)

lemma pt_grow_mono: "pt_grow L r P new s s' \<Longrightarrow> P \<subseteq> Q \<Longrightarrow> pt_grow L r Q new s s'"
  unfolding pt_grow_def by (meson in_pages_mono sup.mono subset_refl)

text \<open>The old tables on the path of \<open>va\<close>.\<close>

definition path_tabs :: "memory \<Rightarrow> usize \<Rightarrow> usize \<Rightarrow> usize set" where
  "path_tabs m r va = walk_tabs m r va \<union> set_option (tab m r (va_path va))"

lemma path_tabs_subset: "path_tabs m r va \<subseteq> tabs m r"
  by (auto simp: path_tabs_def walk_tabs_def root_in_tabs intro: tabsI [OF path_ok_va(1)]
      tabsI [OF path_ok_va(2)])

lemma missing_0_iff: "missing m r va = 0 \<longleftrightarrow> tab m r (va_path va) \<noteq> None"
  by (auto simp: missing_def va_path_def split: option.splits)

lemma missing_le: "missing m r va \<le> 2"
  by (auto simp: missing_def split: option.splits)

lemma map_one:
  assumes inv: "vm_inv L r s" and va: "va < VA_MAX" and perm: "perm < 32"
    and room: "missing (mem s) r va \<le> length (free_list s)" and free: "pte_of (mem s) r va = None"
    and f: "uadd pa off = Ok f" and v: "uadd vb off = Ok va"
  obtains new s' where
    "map_loop r vb pa perm (off # offs) s = map_loop r vb pa perm offs s'"
    and "pt_grow L r (path_tabs (mem s) r va) new s s'" and "length new = missing (mem s) r va"
    and "tab (mem s') r (va_path va) \<noteq> None"
    and "\<And>w. pte_of (mem s') r w =
           (if va_path w = va_path va \<and> vpn w 0 = vpn va 0 then Some (leaf_pte f perm)
            else pte_of (mem s) r w)"
    and "\<And>j. j < 512 \<Longrightarrow> j \<noteq> vpn va 2 \<Longrightarrow> ent (mem s') r j = ent (mem s) r j"
proof -
  from walk_correct [OF inv va] obtain new s1 where e: "pt_ext L r (walk_tabs (mem s) r va) new s s1"
    and l0: "length new = min (missing (mem s) r va) (length (free_list s))"
    and w0: "walk r va True s =
           Ok (if missing (mem s) r va \<le> length (free_list s)
               then Some (the (tab (mem s1) r (va_path va)) + 8 * vpn va 0) else None, s1)"
    and some: "missing (mem s) r va \<le> length (free_list s) \<longrightarrow> tab (mem s1) r (va_path va) \<noteq> None"
    and rs: "\<forall>j<512. j \<noteq> vpn va 2 \<longrightarrow> ent (mem s1) r j = ent (mem s) r j"
    by blast
  from l0 w0 room have l: "length new = missing (mem s) r va"
    and w: "walk r va True s = Ok (Some (the (tab (mem s1) r (va_path va)) + 8 * vpn va 0), s1)" by simp_all
  obtain t where t: "tab (mem s1) r (va_path va) = Some t" using some room by blast
  let ?v = "leaf_pte f perm"
  let ?s = "s1\<lparr>mem := set_ent (mem s1) t (vpn va 0) ?v\<rparr>"
  have E: "vm_inv L r s1" "free_list s = new @ free_list s1"
    "tabs (mem s1) r = tabs (mem s) r \<union> set new" "\<And>w. pte_of (mem s1) r w = pte_of (mem s) r w"
    "\<And>q u. path_ok q \<Longrightarrow> tab (mem s) r q = Some u \<Longrightarrow> tab (mem s1) r q = Some u"
    "\<And>a. mem s1 a \<noteq> mem s a \<Longrightarrow> in_pages a (walk_tabs (mem s) r va \<union> set new)"
    using e by (simp_all add: pt_ext_def)
  have wf1: "pt_wf L (mem s1) r" and k1: "kalloc_inv L s1"
    and d1: "tabs (mem s1) r \<inter> set (free_list s1) = {}" using E(1) by (simp_all add: vm_inv_def)
  note T = pt_set_leaf [OF wf1 t leaf_pte_bound [OF perm, of f] leaf_pte_flags(1) [OF perm, of f]]
  have tt: "t \<in> tabs (mem s1) r" using path_ok_va(1) t by (rule tabsI)
  have tp: "page_aligned t" using wf1 tt by (auto simp: pt_wf_def alloc_page_def)
  have inval: "ent (mem s1) t (vpn va 0) AND PTE_V = 0"
    using E(4) [of va] free t by (auto simp: pte_of_def split: if_splits)
  have "ent (mem ?s) q 0 = ent (mem s1) q 0" if "q \<in> set (free_list s1)" for q
  proof -
    have "page_aligned q" using k1 that by (auto simp: kalloc_inv_def alloc_page_def)
    moreover have "q \<noteq> t" using that d1 tt by auto
    ultimately show ?thesis using tp by (simp add: ent_set_ent leaf_pte_bound [OF perm])
  qed
  from kalloc_frame [OF k1 this]
  have fl: "free_list ?s = free_list s1" and k: "kalloc_inv L ?s" by simp_all
  have tin: "t \<in> path_tabs (mem s) r va \<union> set new"
  proof (cases "tab (mem s) r (va_path va)")
    case None
    have "t \<in> tabs (mem s) r \<union> set new" using tt E(3) by simp
    moreover have "t \<notin> tabs (mem s) r"
    proof
      assume "t \<in> tabs (mem s) r"
      then obtain q where q: "path_ok q" "tab (mem s) r q = Some t" by (auto simp: tabs_def)
      with E(5) have "tab (mem s1) r q = Some t" by blast
      with pt_wf_inj [OF wf1 q(1) path_ok_va(1) this t] q(2) None show False by simp
    qed
    ultimately show ?thesis by simp
  next
    case (Some u)
    with E(5) [OF path_ok_va(1)] t show ?thesis by (auto simp: path_tabs_def)
  qed
  have grow: "pt_grow L r (path_tabs (mem s) r va) new s ?s"
    unfolding pt_grow_def
  proof (intro conjI allI impI)
    show "vm_inv L r ?s" using k T(2,3) fl d1 by (simp add: vm_inv_def)
    show "tab (mem ?s) r q = Some u" if "path_ok q" "tab (mem s) r q = Some u" for q u
      using E(5) [OF that] T(1) [OF that(1)] by simp
    show "in_pages a (path_tabs (mem s) r va \<union> set new)" if "mem ?s a \<noteq> mem s a" for a
    proof (cases "mem s1 a = mem s a")
      case True
      with that have "\<not> (a < t \<or> t + PAGE_SIZE \<le> a)" using set_ent_outside [OF vpn_less, of t a "mem s1" va 0 ?v] by auto
      with tin show ?thesis unfolding in_pages_def by (meson not_le)
    next
      case False
      from E(6) [OF this] show ?thesis by (rule in_pages_mono) (auto simp: path_tabs_def)
    qed
  qed (use E(2,3) T(2) fl in simp_all)
  have "map_loop r vb pa perm (off # offs) s = map_loop r vb pa perm offs ?s"
    using w t inval f v by (simp add: set_ent_def ent_def leaf_pte_def)
  moreover have "tab (mem ?s) r (va_path va) \<noteq> None" using T(1) [OF path_ok_va(1)] t by simp
  moreover have "pte_of (mem ?s) r w =
      (if va_path w = va_path va \<and> vpn w 0 = vpn va 0 then Some ?v else pte_of (mem s) r w)" for w
    using T(4) [of w] E(4) [of w] by simp
  moreover have "ent (mem ?s) r j = ent (mem s) r j" if "j < 512" "j \<noteq> vpn va 2" for j
  proof -
    have "r \<noteq> t" using pt_wf_inj [OF wf1 path_ok_Nil path_ok_va(1) tab.simps(1)] t by (auto simp: va_path_def)
    moreover have "page_aligned r" using pt_wf_page [OF wf1 path_ok_Nil tab.simps(1)] by (rule alloc_page_aligned)
    ultimately show ?thesis using rs that tp by (simp add: ent_set_ent leaf_pte_bound [OF perm])
  qed
  ultimately show thesis using that [OF _ grow l] by blast
qed

lemma path_tabs_eq:
  "path_tabs m r va = {t. \<exists>q\<in>{[], [vpn va 2], va_path va}. tab m r q = Some t}"
  by (auto simp: path_tabs_def walk_tabs_def)

lemma path_ok_prefixes: "q \<in> {[], [vpn va 2], va_path va} \<Longrightarrow> path_ok q"
  using path_ok_va by (auto simp: path_ok_def)

lemma pt_grow_tab:
  assumes g: "pt_grow L r P new s s'" and q: "path_ok q" and t: "tab (mem s') r q = Some t"
  shows "tab (mem s) r q = Some t \<or> t \<in> set new"
proof (rule disjCI)
  assume "t \<notin> set new"
  moreover have "t \<in> tabs (mem s') r" using q t by (rule tabsI)
  ultimately have "t \<in> tabs (mem s) r" using g by (auto simp: pt_grow_def)
  then obtain q' where q': "path_ok q'" "tab (mem s) r q' = Some t" by (auto simp: tabs_def)
  then have "tab (mem s') r q' = Some t" using g by (simp add: pt_grow_def)
  moreover have "pt_wf L (mem s') r" using g by (simp add: pt_grow_def vm_inv_def)
  ultimately have "q' = q" using pt_wf_inj q'(1) q t by blast
  with q'(2) show "tab (mem s) r q = Some t" by simp
qed

lemma path_tabs_grow:
  assumes "pt_grow L r P new s s'"
  shows "path_tabs (mem s') r va \<subseteq> path_tabs (mem s) r va \<union> set new"
  using pt_grow_tab [OF assms path_ok_prefixes] unfolding path_tabs_eq by blast

text \<open>The tables that the pages \<open>k..<n\<close> of a range need and that do not exist yet.\<close>

definition lacking :: "memory \<Rightarrow> usize \<Rightarrow> usize \<Rightarrow> nat \<Rightarrow> nat \<Rightarrow> nat list set" where
  "lacking m r va k n = {q \<in> (\<lambda>i. va_path (va + i * PAGE_SIZE)) ` {k..<n}. tab m r q = None}"

lemma finite_lacking [simp]: "finite (lacking m r va k n)"
  by (simp add: lacking_def)

lemma lacking_step:
  assumes "k < n" and g: "pt_grow L r P new s s'" and "length new = missing (mem s) r (va + k * PAGE_SIZE)"
    and t: "tab (mem s') r (va_path (va + k * PAGE_SIZE)) \<noteq> None"
  shows "2 * card (lacking (mem s') r va (Suc k) n) + length new \<le> 2 * card (lacking (mem s) r va k n)"
proof -
  let ?q = "va_path (va + k * PAGE_SIZE)"
  have mono: "tab (mem s') r q \<noteq> None" if "path_ok q" "tab (mem s) r q \<noteq> None" for q
    using g that by (auto simp: pt_grow_def)
  have sub: "lacking (mem s') r va (Suc k) n \<subseteq> lacking (mem s) r va k n - {?q}"
    using mono [OF path_ok_va(1)] t by (fastforce simp: lacking_def)
  show ?thesis
  proof (cases "tab (mem s) r ?q")
    case None
    then have "?q \<in> lacking (mem s) r va k n" using assms(1) by (auto simp: lacking_def)
    then have "Suc (card (lacking (mem s) r va k n - {?q})) = card (lacking (mem s) r va k n)"
      by (intro card_Suc_Diff1) simp_all
    moreover have "card (lacking (mem s') r va (Suc k) n) \<le> card (lacking (mem s) r va k n - {?q})"
      using sub by (simp add: card_mono)
    ultimately show ?thesis using assms(3) missing_le [of "mem s" r "va + k * PAGE_SIZE"] by linarith
  next
    case (Some t)
    then have "length new = 0" using assms(3) missing_0_iff by simp
    moreover have "card (lacking (mem s') r va (Suc k) n) \<le> card (lacking (mem s) r va k n)"
      using sub by (intro card_mono) auto
    ultimately show ?thesis by simp
  qed
qed

lemma page_in_range:
  assumes "page_aligned va" and "k < n"
  shows "va + k * PAGE_SIZE \<le> w \<and> w < va + n * PAGE_SIZE \<longleftrightarrow>
         w div PAGE_SIZE = va div PAGE_SIZE + k \<or> va + Suc k * PAGE_SIZE \<le> w \<and> w < va + n * PAGE_SIZE"
    and "w div PAGE_SIZE = va div PAGE_SIZE + k \<Longrightarrow> (w - va) div PAGE_SIZE = k"
proof -
  from assms(1) obtain c where c: "va = c * PAGE_SIZE" by (metis page_aligned_dvd dvd_def mult.commute)
  have pos: "0 < PAGE_SIZE" by (simp add: PAGE_SIZE_def)
  have lo: "va + i * PAGE_SIZE \<le> w \<longleftrightarrow> c + i \<le> w div PAGE_SIZE" for i
    using pos by (simp add: c less_eq_div_iff_mult_less_eq flip: add_mult_distrib)
  have dc: "va div PAGE_SIZE = c" using pos by (simp add: c)
  show "va + k * PAGE_SIZE \<le> w \<and> w < va + n * PAGE_SIZE \<longleftrightarrow>
         w div PAGE_SIZE = va div PAGE_SIZE + k \<or> va + Suc k * PAGE_SIZE \<le> w \<and> w < va + n * PAGE_SIZE"
    unfolding not_le [symmetric] lo dc using assms(2) by linarith
  assume "w div PAGE_SIZE = va div PAGE_SIZE + k"
  then have "w = (c + k) * PAGE_SIZE + w mod PAGE_SIZE" using div_mult_mod_eq [of w PAGE_SIZE] dc by simp
  then have "w - va = k * PAGE_SIZE + w mod PAGE_SIZE" by (simp add: c add_mult_distrib)
  then show "(w - va) div PAGE_SIZE = k" using pos by simp
qed

lemma map_loop_range:
  assumes "vm_inv L r s" and "page_aligned va" and "perm < 32"
    and "va + n * PAGE_SIZE \<le> VA_MAX" and "pa + n * PAGE_SIZE \<le> usize_max"
    and "\<And>i. k \<le> i \<Longrightarrow> i < n \<Longrightarrow> pte_of (mem s) r (va + i * PAGE_SIZE) = None"
    and "2 * card (lacking (mem s) r va k n) \<le> length (free_list s)"
  shows "\<exists>new s'. map_loop r va pa perm (map (\<lambda>i. i * PAGE_SIZE) [k..<n]) s = Ok s' \<and>
    pt_grow L r (\<Union>i\<in>{k..<n}. path_tabs (mem s) r (va + i * PAGE_SIZE)) new s s' \<and>
    length new \<le> 2 * card (lacking (mem s) r va k n) \<and>
    (\<forall>w<VA_MAX. pte_of (mem s') r w =
       (if va + k * PAGE_SIZE \<le> w \<and> w < va + n * PAGE_SIZE
        then Some (leaf_pte (pa + (w - va) div PAGE_SIZE * PAGE_SIZE) perm) else pte_of (mem s) r w)) \<and>
    (\<forall>j<512. (\<forall>i\<in>{k..<n}. vpn (va + i * PAGE_SIZE) 2 \<noteq> j) \<longrightarrow> ent (mem s') r j = ent (mem s) r j)"
  using assms
proof (induction "n - k" arbitrary: k s)
  case 0
  then have "\<not> k < n" by simp
  then have "n * PAGE_SIZE \<le> k * PAGE_SIZE" by simp
  then have "\<not> (va + k * PAGE_SIZE \<le> w \<and> w < va + n * PAGE_SIZE)" for w by linarith
  moreover have "n \<le> k" using \<open>\<not> k < n\<close> by simp
  ultimately show ?case using pt_grow_refl [OF 0(2)] by (intro exI [of _ "[]"] exI [of _ s]) auto
next
  case (Suc d)
  let ?va = "va + k * PAGE_SIZE"
  have kn: "k < n" using Suc.hyps(2) by simp
  have le: "k * PAGE_SIZE + PAGE_SIZE \<le> n * PAGE_SIZE"
    using mult_le_mono1 [of "Suc k" n PAGE_SIZE] kn by simp
  have pos: "0 < PAGE_SIZE" by (simp add: PAGE_SIZE_def)
  have va: "?va < VA_MAX" using Suc.prems(4) le pos by linarith
  have VA: "VA_MAX \<le> usize_max" by (simp add: pte_pow usize_max_eq)
  have offs: "map (\<lambda>i. i * PAGE_SIZE) [k..<n] = k * PAGE_SIZE # map (\<lambda>i. i * PAGE_SIZE) [Suc k..<n]"
    using kn by (simp add: upt_conv_Cons)
  have in_lack: "missing (mem s) r ?va \<le> length (free_list s)"
  proof (cases "tab (mem s) r (va_path ?va)")
    case None
    then have "{va_path ?va} \<subseteq> lacking (mem s) r va k n" using kn by (auto simp: lacking_def)
    from card_mono [OF finite_lacking this] Suc.prems(7) missing_le [of "mem s" r ?va]
    show ?thesis by simp
  next
    case (Some t)
    then show ?thesis by (metis missing_0_iff option.distinct(1) le0)
  qed
  have a: "uadd pa (k * PAGE_SIZE) = Ok (pa + k * PAGE_SIZE)" "uadd va (k * PAGE_SIZE) = Ok ?va"
    using Suc.prems(5) le va VA by (simp_all add: uadd_Ok)
  obtain new s1 where
    run: "map_loop r va pa perm (k * PAGE_SIZE # map (\<lambda>i. i * PAGE_SIZE) [Suc k..<n]) s =
          map_loop r va pa perm (map (\<lambda>i. i * PAGE_SIZE) [Suc k..<n]) s1"
    and g: "pt_grow L r (path_tabs (mem s) r ?va) new s s1"
    and l: "length new = missing (mem s) r ?va" and t: "tab (mem s1) r (va_path ?va) \<noteq> None"
    and p: "\<And>w. pte_of (mem s1) r w =
           (if va_path w = va_path ?va \<and> vpn w 0 = vpn ?va 0 then Some (leaf_pte (pa + k * PAGE_SIZE) perm)
            else pte_of (mem s) r w)"
    and rs: "\<And>j. j < 512 \<Longrightarrow> j \<noteq> vpn ?va 2 \<Longrightarrow> ent (mem s1) r j = ent (mem s) r j"
    by (rule map_one [OF Suc.prems(1) va Suc.prems(3) in_lack Suc.prems(6) [OF order_refl kn] a]) (rule that)
  have dk: "?va div PAGE_SIZE = va div PAGE_SIZE + k" using pos by simp
  have p': "pte_of (mem s1) r w = (if w div PAGE_SIZE = va div PAGE_SIZE + k
            then Some (leaf_pte (pa + k * PAGE_SIZE) perm) else pte_of (mem s) r w)" if "w < VA_MAX" for w
    using p same_page_iff [OF that va] unfolding dk by simp
  have un: "pte_of (mem s1) r (va + i * PAGE_SIZE) = None" if "Suc k \<le> i" "i < n" for i
  proof -
    have "va + i * PAGE_SIZE < VA_MAX"
      using Suc.prems(4) mult_le_mono1 [of "Suc i" n PAGE_SIZE] that pos by simp
    from p' [OF this] Suc.prems(6) [of i] that pos show ?thesis by simp
  qed
  note step = lacking_step [OF kn g l t]
  have room: "2 * card (lacking (mem s1) r va (Suc k) n) \<le> length (free_list s1)"
    using step Suc.prems(7) g by (simp add: pt_grow_def)
  have inv1: "vm_inv L r s1" using g by (simp add: pt_grow_def)
  have d: "d = n - Suc k" using Suc.hyps(2) by simp
  from Suc.hyps(1) [OF d inv1 Suc.prems(2-5) un room]
  obtain new' s2 where
    run2: "map_loop r va pa perm (map (\<lambda>i. i * PAGE_SIZE) [Suc k..<n]) s1 = Ok s2"
    and g2: "pt_grow L r (\<Union>i\<in>{Suc k..<n}. path_tabs (mem s1) r (va + i * PAGE_SIZE)) new' s1 s2"
    and l2: "length new' \<le> 2 * card (lacking (mem s1) r va (Suc k) n)"
    and q: "\<forall>w<VA_MAX. pte_of (mem s2) r w =
       (if va + Suc k * PAGE_SIZE \<le> w \<and> w < va + n * PAGE_SIZE
        then Some (leaf_pte (pa + (w - va) div PAGE_SIZE * PAGE_SIZE) perm) else pte_of (mem s1) r w)"
    and rs2: "\<forall>j<512. (\<forall>i\<in>{Suc k..<n}. vpn (va + i * PAGE_SIZE) 2 \<noteq> j) \<longrightarrow> ent (mem s2) r j = ent (mem s1) r j"
    by blast
  have "pt_grow L r (\<Union>i\<in>{k..<n}. path_tabs (mem s) r (va + i * PAGE_SIZE)) (new @ new') s s2"
    using g g2
  proof (rule pt_grow_trans)
    show "path_tabs (mem s) r ?va \<subseteq> (\<Union>i\<in>{k..<n}. path_tabs (mem s) r (va + i * PAGE_SIZE))"
      using kn by auto
    show "(\<Union>i\<in>{Suc k..<n}. path_tabs (mem s1) r (va + i * PAGE_SIZE))
        \<subseteq> (\<Union>i\<in>{k..<n}. path_tabs (mem s) r (va + i * PAGE_SIZE)) \<union> set new"
      using path_tabs_grow [OF g] by fastforce
  qed
  moreover have "length (new @ new') \<le> 2 * card (lacking (mem s) r va k n)" using step l2 by simp
  moreover have "pte_of (mem s2) r w =
       (if va + k * PAGE_SIZE \<le> w \<and> w < va + n * PAGE_SIZE
        then Some (leaf_pte (pa + (w - va) div PAGE_SIZE * PAGE_SIZE) perm) else pte_of (mem s) r w)"
    if "w < VA_MAX" for w
    using q p' [OF that] that page_in_range [OF Suc.prems(2) kn, of w] by auto
  moreover have "ent (mem s2) r j = ent (mem s) r j" if "j < 512" "\<forall>i\<in>{k..<n}. vpn (va + i * PAGE_SIZE) 2 \<noteq> j" for j
  proof -
    have "vpn ?va 2 \<noteq> j" using that(2) kn by simp
    then show ?thesis using rs [OF that(1)] rs2 that by simp
  qed
  ultimately show ?case using run run2 unfolding offs by (intro exI [of _ "new @ new'"] exI [of _ s2]) simp
qed

lemma page_offsets_aligned:
  "PAGE_SIZE dvd len \<Longrightarrow> page_offsets len = map (\<lambda>i. i * PAGE_SIZE) [0..<len div PAGE_SIZE]"
  by (simp add: page_offsets_def div_ceil_def dvd_eq_mod_eq_0)

text \<open>The 2 MiB regions of a range bound the tables it lacks.\<close>

definition regions :: "usize \<Rightarrow> usize \<Rightarrow> nat" where
  "regions va len = Suc ((va + len - 1) div 2 ^ 21 - va div 2 ^ 21)"

lemma card_lacking:
  assumes "PAGE_SIZE dvd len"
  shows "card (lacking m r va 0 (len div PAGE_SIZE)) \<le> regions va len"
proof -
  let ?f = "\<lambda>g. [g div 512 mod 512, g mod 512 :: nat]"
  have path: "va_path w = ?f (w div 2 ^ 21)" for w
    by (simp add: va_path_def vpn_eq flip: div_mult2_eq)
  have "va_path (va + i * PAGE_SIZE) \<in> ?f ` {va div 2 ^ 21..(va + len - 1) div 2 ^ 21}"
    if "i < len div PAGE_SIZE" for i
  proof -
    have "Suc i * PAGE_SIZE \<le> len"
      using that assms by (metis Suc_leI dvd_div_mult_self mult_le_mono1)
    then have "va + i * PAGE_SIZE \<le> va + len - 1" by (simp add: PAGE_SIZE_def)
    then show ?thesis unfolding path by (intro imageI) (simp add: div_le_mono)
  qed
  then have "lacking m r va 0 (len div PAGE_SIZE) \<subseteq> ?f ` {va div 2 ^ 21..(va + len - 1) div 2 ^ 21}"
    by (auto simp: lacking_def)
  then have "card (lacking m r va 0 (len div PAGE_SIZE)) \<le> card {va div 2 ^ 21..(va + len - 1) div 2 ^ 21}"
    by (meson card_image_le card_mono finite_atLeastAtMost finite_imageI le_trans)
  also have "\<dots> \<le> regions va len" by (simp add: regions_def)
  finally show ?thesis .
qed

text \<open>One call of \<open>map_pages\<close>.\<close>

definition mapped_range :: "usize \<Rightarrow> usize \<Rightarrow> usize \<Rightarrow> usize \<Rightarrow> usize \<Rightarrow> memory \<Rightarrow> memory \<Rightarrow> bool" where
  "mapped_range r va pa len perm m m' \<longleftrightarrow>
     (\<forall>w<VA_MAX. pte_of m' r w =
        (if va \<le> w \<and> w < va + len then Some (leaf_pte (pa + (w - va) div PAGE_SIZE * PAGE_SIZE) perm)
         else pte_of m r w)) \<and>
     (\<forall>j<512. (\<forall>w\<in>{va..<va + len}. vpn w 2 \<noteq> j) \<longrightarrow> ent m' r j = ent m r j)"

definition map_args_ok :: "usize \<Rightarrow> usize \<Rightarrow> usize \<Rightarrow> usize \<Rightarrow> bool" where
  "map_args_ok va pa len perm \<longleftrightarrow>
     page_aligned va \<and> page_aligned pa \<and> page_aligned len \<and> 0 < len \<and>
     perm < 32 \<and> perm AND PERM_MASK \<noteq> 0 \<and> va + len \<le> VA_MAX \<and> pa + len \<le> usize_max"

lemma map_pages_range:
  assumes "vm_inv L r s" and args: "map_args_ok va pa len perm"
    and un: "\<And>w. va \<le> w \<Longrightarrow> w < va + len \<Longrightarrow> pte_of (mem s) r w = None"
    and room: "2 * regions va len \<le> length (free_list s)"
  obtains new s' where "map_pages r va pa len perm s = Ok s'"
    and "pt_grow L r (\<Union>w\<in>{va..<va + len}. path_tabs (mem s) r w) new s s'"
    and "length new \<le> 2 * regions va len" and "mapped_range r va pa len perm (mem s) (mem s')"
proof -
  define n where "n = len div PAGE_SIZE"
  have dv: "PAGE_SIZE dvd len" and len: "len = n * PAGE_SIZE"
    using args by (simp_all add: map_args_ok_def page_aligned_dvd n_def)
  have in_range: "va + i * PAGE_SIZE < va + len" if "i < n" for i
    using that by (simp add: len PAGE_SIZE_def)
  have room': "2 * card (lacking (mem s) r va 0 n) \<le> length (free_list s)"
    using card_lacking [OF dv, of "mem s" r va] room unfolding n_def by linarith
  have A: "page_aligned va" "perm < 32" "va + n * PAGE_SIZE \<le> VA_MAX" "pa + n * PAGE_SIZE \<le> usize_max"
    using args by (simp_all add: map_args_ok_def len)
  have U: "pte_of (mem s) r (va + i * PAGE_SIZE) = None" if "0 \<le> i" "i < n" for i
    using un in_range [OF that(2)] by simp
  from map_loop_range [OF assms(1) A U room']
  obtain new s' where run: "map_loop r va pa perm (map (\<lambda>i. i * PAGE_SIZE) [0..<n]) s = Ok s'"
    and g: "pt_grow L r (\<Union>i\<in>{0..<n}. path_tabs (mem s) r (va + i * PAGE_SIZE)) new s s'"
    and l: "length new \<le> 2 * card (lacking (mem s) r va 0 n)"
    and p: "\<forall>w<VA_MAX. pte_of (mem s') r w =
       (if va + 0 * PAGE_SIZE \<le> w \<and> w < va + n * PAGE_SIZE
        then Some (leaf_pte (pa + (w - va) div PAGE_SIZE * PAGE_SIZE) perm) else pte_of (mem s) r w)"
    and rs: "\<forall>j<512. (\<forall>i\<in>{0..<n}. vpn (va + i * PAGE_SIZE) 2 \<noteq> j) \<longrightarrow> ent (mem s') r j = ent (mem s) r j"
    by blast
  have "map_pages r va pa len perm s = Ok s'"
    using run args page_offsets_aligned [OF dv]
    by (simp add: map_pages_def map_args_ok_def page_aligned_def is_multiple_of_iff n_def PAGE_SIZE_def
        mod_eq_0_iff_dvd)
  moreover have "pt_grow L r (\<Union>w\<in>{va..<va + len}. path_tabs (mem s) r w) new s s'"
    using g by (rule pt_grow_mono) (use in_range in fastforce)
  moreover have "length new \<le> 2 * regions va len"
    using l card_lacking [OF dv, of "mem s" r va] unfolding n_def by linarith
  moreover have "mapped_range r va pa len perm (mem s) (mem s')"
    using p rs in_range by (simp add: mapped_range_def len)
  ultimately show thesis by (rule that)
qed

lemma translate_mapped:
  assumes "mapped_range r va pa len perm m m'" and "map_args_ok va pa len perm" and "w < VA_MAX"
    and "mem s = m" and "mem s' = m'"
  shows "translate r w s' =
    (if va \<le> w \<and> w < va + len
     then Ok (Some (pa + (w - va), leaf_pte (pa + (w - va) div PAGE_SIZE * PAGE_SIZE) perm))
     else translate r w s)"
proof (cases "va \<le> w \<and> w < va + len")
  case True
  let ?f = "pa + (w - va) div PAGE_SIZE * PAGE_SIZE"
  have A: "page_aligned va" "page_aligned pa" "perm < 32" "pa + len \<le> usize_max"
    using assms(2) by (simp_all add: map_args_ok_def)
  have f: "page_aligned ?f" using A(2) by (simp add: page_aligned_dvd)
  have "(w - va) div PAGE_SIZE * PAGE_SIZE \<le> w - va" by simp
  then have "?f \<le> usize_max" using True A(4) by linarith
  from leaf_pte_pa [OF f this A(3)] have "pte_to_pa (leaf_pte ?f perm) = ?f" .
  moreover have "w mod PAGE_SIZE = (w - va) mod PAGE_SIZE"
    using True A(1) by (metis le_add_diff_inverse mod_add_left_eq add_0 page_aligned_def)
  moreover have "w mod PAGE_SIZE < PAGE_SIZE" by (simp add: PAGE_SIZE_def)
  ultimately have "pte_to_pa (leaf_pte ?f perm) OR (w mod PAGE_SIZE) = pa + (w - va)"
    using pte_to_pa_or_offset [of "w mod PAGE_SIZE" "leaf_pte ?f perm"]
      div_mult_mod_eq [of "w - va" PAGE_SIZE] by linarith
  then show ?thesis using True assms(1,3,5) by (simp add: translate_eq mapped_range_def)
next
  case False
  then show ?thesis using assms(1,3-5) by (auto simp: translate_eq mapped_range_def)
qed

section \<open>A fresh table\<close>

lemma zero_table:
  assumes z: "\<And>j. j < 512 \<Longrightarrow> ent m r j = 0" and r: "alloc_page L r"
  shows "tabs m r = {r}" and "pt_wf L m r" and "pte_of m r w = None" and "j < 512 \<Longrightarrow> sub m r j = None"
proof -
  show "j < 512 \<Longrightarrow> sub m r j = None" using z by (simp add: sub_def)
  have "tab m r q = (if q = [] then Some r else None)" if "path_ok q" for q
    using that z by (cases q) (auto simp: path_ok_def sub_def tab.simps(2))
  note T = this
  show "tabs m r = {r}" using T root_in_tabs [of r m] by (auto simp: tabs_def split: if_splits)
  with T r show "pt_wf L m r" by (auto simp: pt_wf_def split: if_splits)
  have "tab m r (va_path w) = None" using T [OF path_ok_va(1)] by (simp add: va_path_def)
  then show "pte_of m r w = None" by (simp add: pte_of_def)
qed

lemma alloc_fresh_table:
  assumes inv: "kalloc_inv L s" and "free_list s \<noteq> []"
  obtains r s' where "kalloc_alloc s = Ok (Some r, s')" and "vm_inv L r s'"
    and "\<And>w. pte_of (mem s') r w = None" and "free_list s = r # free_list s'"
    and "mem s' = write_bytes (mem s) r 0 PAGE_SIZE" and "\<And>j. j < 512 \<Longrightarrow> sub (mem s') r j = None"
proof -
  from assms(2) obtain r ps where fl: "free_list s = r # ps" by (cases "free_list s") auto
  from kalloc_alloc_pop [OF inv fl] obtain s' where s': "kalloc_alloc s = Ok (Some r, s')"
    "kalloc_inv L s'" "free_list s' = ps" "mem s' = write_bytes (mem s) r 0 PAGE_SIZE" by blast
  have r: "alloc_page L r" and "r \<notin> set ps" using inv fl by (auto simp: kalloc_inv_def)
  moreover have z: "ent (mem s') r j = 0" if "j < 512" for j
    using that r by (simp add: s'(4) ent_write_zero alloc_page_def)
  note T = zero_table [OF z r]
  ultimately show thesis using s' T fl by (intro that [of r s']) (auto simp: vm_inv_def)
qed

section \<open>The kernel's map\<close>

text \<open>The permissions \<open>kvmmake\<close> is meant to give to each address.\<close>

definition kernel_perm :: "layout \<Rightarrow> usize \<Rightarrow> usize option" where
  "kernel_perm L w =
     (if UART0 \<le> w \<and> w < UART0 + PAGE_SIZE then Some (PTE_R OR PTE_W)
      else if PLIC \<le> w \<and> w < PLIC + PLIC_SIZE then Some (PTE_R OR PTE_W)
      else if text_start L \<le> w \<and> w < text_end L then Some (PTE_R OR PTE_X)
      else if user_start L \<le> w \<and> w < user_end L then Some PTE_R
      else if rodata_start L \<le> w \<and> w < rodata_end L then Some PTE_R
      else if data_start L \<le> w \<and> w < PHYS_TOP then Some (PTE_R OR PTE_W)
      else None)"

text \<open>The table holds exactly the identity map of the regions of \<open>K\<close>.\<close>

definition identity_map :: "layout \<Rightarrow> usize \<Rightarrow> (usize \<Rightarrow> usize option) \<Rightarrow> phys \<Rightarrow> bool" where
  "identity_map L r K s \<longleftrightarrow> vm_inv L r s \<and>
     (\<forall>w<VA_MAX. pte_of (mem s) r w = map_option (leaf_pte (w - w mod PAGE_SIZE)) (K w)) \<and>
     (\<forall>j<512. (\<forall>w<VA_MAX. vpn w 2 = j \<longrightarrow> K w = None) \<longrightarrow> sub (mem s) r j = None)"

text \<open>What building a table leaves alone: everything below the allocator's range, and the pages that were not free.\<close>

definition low_same :: "layout \<Rightarrow> phys \<Rightarrow> phys \<Rightarrow> bool" where
  "low_same L s s' \<longleftrightarrow> set (free_list s') \<subseteq> set (free_list s) \<and> (\<forall>a<alloc_start L. mem s' a = mem s a)"

lemma low_same_trans: "low_same L s s1 \<Longrightarrow> low_same L s1 s2 \<Longrightarrow> low_same L s s2"
  by (auto simp: low_same_def)

lemma pt_grow_low:
  assumes "vm_inv L r s" and "pt_grow L r (\<Union>w\<in>W. path_tabs (mem s) r w) new s s'"
  shows "low_same L s s'"
proof -
  have fl: "free_list s = new @ free_list s'" using assms(2) by (simp add: pt_grow_def)
  have "alloc_start L \<le> p" if "p \<in> tabs (mem s) r \<union> set new" for p
    using that assms(1) fl by (auto simp: vm_inv_def pt_wf_def kalloc_inv_def alloc_page_def)
  then have "\<not> in_pages a ((\<Union>w\<in>W. path_tabs (mem s) r w) \<union> set new)" if "a < alloc_start L" for a
    using that path_tabs_subset [of "mem s" r] unfolding in_pages_def by fastforce
  with assms(2) fl show ?thesis unfolding low_same_def pt_grow_def by auto
qed

lemma identity_step:
  assumes I: "identity_map L r K s" and "page_aligned st" "page_aligned en" "st < en" "en \<le> VA_MAX"
    and perm: "perm < 32" "perm AND PERM_MASK \<noteq> 0"
    and un: "\<And>w. st \<le> w \<Longrightarrow> w < en \<Longrightarrow> K w = None"
    and room: "2 * regions st (en - st) + n \<le> length (free_list s)"
  shows "\<exists>s'. map_pages r st st (en - st) perm s = Ok s' \<and> n \<le> length (free_list s') \<and> low_same L s s' \<and>
     identity_map L r (\<lambda>w. if st \<le> w \<and> w < en then Some perm else K w) s'"
proof -
  have "VA_MAX \<le> usize_max" by (simp add: pte_pow usize_max_eq)
  then have args: "map_args_ok st st (en - st) perm"
    using assms(2-7) by (simp add: map_args_ok_def page_aligned_dvd dvd_diff_nat)
  have inv: "vm_inv L r s" using I by (simp add: identity_map_def)
  have "pte_of (mem s) r w = None" if "st \<le> w" "w < st + (en - st)" for w
    using I un [of w] that assms(5) by (simp add: identity_map_def)
  with room obtain new s' where run: "map_pages r st st (en - st) perm s = Ok s'"
    and g: "pt_grow L r (\<Union>w\<in>{st..<st + (en - st)}. path_tabs (mem s) r w) new s s'"
    and l: "length new \<le> 2 * regions st (en - st)"
    and m: "mapped_range r st st (en - st) perm (mem s) (mem s')"
    using map_pages_range [OF inv args, where thesis = thesis] by auto
  have rd: "st + (w - st) div PAGE_SIZE * PAGE_SIZE = w - w mod PAGE_SIZE" if "st \<le> w" for w
  proof -
    have "(w - st) mod PAGE_SIZE = w mod PAGE_SIZE"
      using that assms(2) by (metis le_add_diff_inverse mod_add_left_eq add_0 page_aligned_def)
    then have "(w - st) div PAGE_SIZE * PAGE_SIZE + w mod PAGE_SIZE = w - st"
      using div_mult_mod_eq [of "w - st" PAGE_SIZE] by simp
    then show ?thesis using that by linarith
  qed
  have "sub (mem s') r j = None"
    if j: "j < 512" "\<forall>w<VA_MAX. vpn w 2 = j \<longrightarrow> (if st \<le> w \<and> w < en then Some perm else K w) = None" for j
  proof -
    have "vpn w 2 \<noteq> j" if w: "w \<in> {st..<st + (en - st)}" for w
    proof
      assume "vpn w 2 = j"
      moreover have "st \<le> w" "w < en" "w < VA_MAX" using w assms(4,5) by auto
      ultimately show False using j(2) by auto
    qed
    then have "ent (mem s') r j = ent (mem s) r j" using m that(1) by (simp add: mapped_range_def)
    moreover have "sub (mem s) r j = None" using I that unfolding identity_map_def by (metis option.distinct(1))
    ultimately show ?thesis using sub_cong by metis
  qed
  then have "identity_map L r (\<lambda>w. if st \<le> w \<and> w < en then Some perm else K w) s'"
    using m g I rd assms(4) by (auto simp: identity_map_def mapped_range_def pt_grow_def)
  moreover have "n \<le> length (free_list s')" using room l g by (simp add: pt_grow_def)
  ultimately show ?thesis using run pt_grow_low [OF inv g] by blast
qed

fun map_regions :: "usize \<Rightarrow> (usize \<times> usize \<times> usize) list \<Rightarrow> phys \<Rightarrow> phys result" where
  "map_regions r [] s = Ok s"
| "map_regions r ((st, en, perm) # rs) s =
     bindR (map_pages r st st (en - st) perm s) (\<lambda>s. map_regions r rs s)"

fun region_perm :: "(usize \<times> usize \<times> usize) list \<Rightarrow> usize \<Rightarrow> usize option" where
  "region_perm [] w = None"
| "region_perm ((st, en, perm) # rs) w =
     (if st \<le> w \<and> w < en then Some perm else region_perm rs w)"

fun region_ok :: "usize \<times> usize \<times> usize \<Rightarrow> bool" where
  "region_ok (st, en, perm) \<longleftrightarrow>
     page_aligned st \<and> page_aligned en \<and> st < en \<and> en \<le> VA_MAX \<and> perm < 32 \<and> perm AND PERM_MASK \<noteq> 0"

fun region_disjoint :: "usize \<times> usize \<times> usize \<Rightarrow> usize \<times> usize \<times> usize \<Rightarrow> bool" where
  "region_disjoint (st, en, perm) (st', en', perm') \<longleftrightarrow> en \<le> st' \<or> en' \<le> st"

fun region_cost :: "usize \<times> usize \<times> usize \<Rightarrow> nat" where
  "region_cost (st, en, perm) = 2 * regions st (en - st)"

lemma map_regions_identity:
  assumes "identity_map L r K s" and "\<forall>x\<in>set rs. region_ok x" and "sorted_wrt region_disjoint rs"
    and "\<forall>(st, en, perm)\<in>set rs. \<forall>w. st \<le> w \<and> w < en \<longrightarrow> K w = None"
    and "sum_list (map region_cost rs) \<le> length (free_list s)"
  shows "\<exists>s'. map_regions r rs s = Ok s' \<and> length (free_list s) \<le> length (free_list s') + sum_list (map region_cost rs) \<and> low_same L s s' \<and>
     identity_map L r (\<lambda>w. case region_perm rs w of Some p \<Rightarrow> Some p | None \<Rightarrow> K w) s'"
  using assms
proof (induction rs arbitrary: K s)
  case Nil
  then show ?case by (simp add: low_same_def)
next
  case (Cons x rs)
  obtain st en perm where x: "x = (st, en, perm)" by (cases x)
  let ?K = "\<lambda>w. if st \<le> w \<and> w < en then Some perm else K w"
  have ok: "page_aligned st" "page_aligned en" "st < en" "en \<le> VA_MAX" "perm < 32" "perm AND PERM_MASK \<noteq> 0"
    and un: "\<And>w. st \<le> w \<Longrightarrow> w < en \<Longrightarrow> K w = None"
    using Cons.prems(2,4) by (auto simp: x)
  let ?n = "length (free_list s) - 2 * regions st (en - st)"
  have "2 * regions st (en - st) + ?n \<le> length (free_list s)" using Cons.prems(5) by (simp add: x)
  from identity_step [OF Cons.prems(1) ok un this] obtain s1 where
    s1: "map_pages r st st (en - st) perm s = Ok s1"
      "?n \<le> length (free_list s1)" "identity_map L r ?K s1" and l1: "low_same L s s1" by blast
  have room: "sum_list (map region_cost rs) \<le> length (free_list s1)" using s1(2) Cons.prems(5) by (simp add: x)
  have "\<forall>(st', en', perm')\<in>set rs. \<forall>w. st' \<le> w \<and> w < en' \<longrightarrow> ?K w = None"
    using Cons.prems(3,4) by (fastforce simp: x)
  from Cons.IH [OF s1(3) _ _ this room] Cons.prems(2,3) obtain s2 where
    s2: "map_regions r rs s1 = Ok s2" "length (free_list s1) \<le> length (free_list s2) + sum_list (map region_cost rs)"
      "identity_map L r (\<lambda>w. case region_perm rs w of Some p \<Rightarrow> Some p | None \<Rightarrow> ?K w) s2" and l2: "low_same L s1 s2" by auto
  have out: "region_perm rs w = None" if "st \<le> w" "w < en" for w
    using Cons.prems(3) that
  proof (induction rs)
    case (Cons y rs)
    then show ?case by (cases y) (auto simp: x)
  qed simp
  have "(\<lambda>w. case region_perm rs w of Some p \<Rightarrow> Some p | None \<Rightarrow> ?K w) =
        (\<lambda>w. case region_perm (x # rs) w of Some p \<Rightarrow> Some p | None \<Rightarrow> K w)"
    using out by (auto simp: x fun_eq_iff split: option.splits)
  with s1(1,2) s2 low_same_trans [OF l1 l2] show ?case by (simp add: x)
qed

definition kernel_regions :: "layout \<Rightarrow> (usize \<times> usize \<times> usize) list" where
  "kernel_regions L =
     [(UART0, UART0 + PAGE_SIZE, PTE_R OR PTE_W), (PLIC, PLIC + PLIC_SIZE, PTE_R OR PTE_W),
      (text_start L, text_end L, PTE_R OR PTE_X)] @
     (if user_start L < user_end L then [(user_start L, user_end L, PTE_R)] else []) @
     [(rodata_start L, rodata_end L, PTE_R), (data_start L, kernel_end L, PTE_R OR PTE_W),
      (kernel_end L, PHYS_TOP, PTE_R OR PTE_W)]"

lemma kvmmake_regions:
  assumes "layout_ok L"
  shows "kvmmake L s =
     bindR (kalloc_alloc s) (\<lambda>(p, s).
     bindR (expectR p ''kvmmake: out of pages'') (\<lambda>root.
     bindR (map_regions root (kernel_regions L) s) (\<lambda>s. Ok (root, s))))"
proof -
  have "text_start L \<le> text_end L" "rodata_start L \<le> rodata_end L" "data_start L \<le> kernel_end L"
    "kernel_end L \<le> PHYS_TOP"
    using assms by (auto simp: layout_ok_def alloc_start_def heap_start_def)
  then show ?thesis
    by (auto simp: kvmmake_def kernel_regions_def bindR_assoc intro!: bindR_cong split: prod.splits)
qed

text \<open>The regions of the kernel image share boundaries, so their costs telescope.\<close>

lemma region_cost_bound:
  assumes "st < en"
  shows "region_cost (st, en, perm) + 2 * (st div 2 ^ 21) \<le> 2 + 2 * (en div 2 ^ 21)"
proof -
  have "(en - 1) div 2 ^ 21 \<le> en div 2 ^ 21" "st div 2 ^ 21 \<le> (en - 1) div 2 ^ 21"
    using assms by (simp_all add: div_le_mono)
  moreover have e: "st + (en - st) - 1 = en - 1" using assms by simp
  ultimately show ?thesis unfolding region_cost.simps regions_def e by (simp only: mult_Suc_right diff_mult_distrib2)
qed

lemma kernel_regions_cost:
  assumes "layout_ok L"
  shows "sum_list (map region_cost (kernel_regions L)) \<le> 150"
proof -
  let ?d = "\<lambda>x :: usize. x div 2 ^ 21"
  have l: "text_start L = 0x80200000" "text_start L < text_end L" "text_end L \<le> user_start L"
    "user_start L \<le> user_end L" "user_end L \<le> rodata_start L" "rodata_start L < rodata_end L"
    "rodata_end L \<le> data_start L" "data_start L < kernel_end L" "kernel_end L < PHYS_TOP"
    using assms by (auto simp: layout_ok_def alloc_start_def heap_start_def)
  have dev: "region_cost (UART0, UART0 + PAGE_SIZE, p) = 2" "region_cost (PLIC, PLIC + PLIC_SIZE, p) = 4" for p
    by (simp_all add: regions_def memlayout_consts)
  have d: "?d (text_end L) \<le> ?d (user_start L)" "?d (user_start L) \<le> ?d (user_end L)"
    "?d (user_end L) \<le> ?d (rodata_start L)" "?d (rodata_end L) \<le> ?d (data_start L)"
    "?d (text_start L) = 1025" "?d PHYS_TOP = 1088"
    using l by (simp_all add: div_le_mono PHYS_TOP_def DRAM_BASE_def)
  note c = region_cost_bound [OF l(2), of "PTE_R OR PTE_X"] region_cost_bound [OF l(6), of PTE_R]
    region_cost_bound [OF l(8), of "PTE_R OR PTE_W"] region_cost_bound [OF l(9), of "PTE_R OR PTE_W"]
  show ?thesis
  proof (cases "user_start L < user_end L")
    case True
    from region_cost_bound [OF this, of PTE_R] c d dev show ?thesis
      by (simp add: kernel_regions_def True del: region_cost.simps)
  next
    case False
    with c d dev show ?thesis by (simp add: kernel_regions_def del: region_cost.simps)
  qed
qed

lemma kernel_perms_ok:
  "PTE_R < 32" "PTE_R OR PTE_W < 32" "PTE_R OR PTE_X < 32"
  "PTE_R AND PERM_MASK \<noteq> 0" "(PTE_R OR PTE_W) AND PERM_MASK \<noteq> 0" "(PTE_R OR PTE_X) AND PERM_MASK \<noteq> 0"
  by (simp_all add: PERM_MASK_def pte_pow)

lemma kernel_regions_ok:
  assumes "layout_ok L"
  shows "\<forall>x\<in>set (kernel_regions L). region_ok x" and "sorted_wrt region_disjoint (kernel_regions L)"
proof -
  have dev: "page_aligned UART0" "page_aligned (UART0 + PAGE_SIZE)" "page_aligned PLIC"
    "page_aligned (PLIC + PLIC_SIZE)" "page_aligned PHYS_TOP" "UART0 + PAGE_SIZE \<le> PHYS_TOP"
    "PLIC + PLIC_SIZE \<le> UART0" "UART0 + PAGE_SIZE \<le> 0x80200000" "PHYS_TOP \<le> VA_MAX"
    "0 < PAGE_SIZE" "0 < PLIC_SIZE"
    by (simp_all add: page_aligned_def memlayout_consts pte_pow)
  show "\<forall>x\<in>set (kernel_regions L). region_ok x"
    using assms dev kernel_perms_ok by (auto simp: kernel_regions_def layout_ok_def alloc_start_def heap_start_def)
  show "sorted_wrt region_disjoint (kernel_regions L)"
    using assms dev by (auto simp: layout_ok_def kernel_regions_def alloc_start_def heap_start_def)
qed

lemma region_perm_kernel:
  assumes "layout_ok L"
  shows "region_perm (kernel_regions L) = kernel_perm L"
proof
  fix w
  have "data_start L < kernel_end L" "kernel_end L < PHYS_TOP"
    using assms by (auto simp: layout_ok_def alloc_start_def heap_start_def)
  then show "region_perm (kernel_regions L) w = kernel_perm L w"
    by (auto simp: kernel_regions_def kernel_perm_def)
qed

lemma kernel_perm_less: "kernel_perm L w = Some p \<Longrightarrow> p < 32"
  using kernel_perms_ok by (auto simp: kernel_perm_def split: if_splits)

lemma translate_identity:
  assumes "p < 32" and "w < VA_MAX"
  shows "pte_to_pa (leaf_pte (w - w mod PAGE_SIZE) p) OR (w mod PAGE_SIZE) = w"
proof -
  have "w - w mod PAGE_SIZE \<le> usize_max" using assms(2) by (simp add: pte_pow(8) usize_max_eq)
  moreover have "w mod PAGE_SIZE < PAGE_SIZE" by (simp add: PAGE_SIZE_def)
  ultimately show ?thesis
    using leaf_pte_pa [OF page_aligned_round_down _ assms(1), of w]
      pte_to_pa_or_offset [of "w mod PAGE_SIZE" "leaf_pte (w - w mod PAGE_SIZE) p"] mod_less_eq_dividend [of w PAGE_SIZE]
    by linarith
qed

lemma kernel_translate:
  assumes "identity_map L r (kernel_perm L) s" and "w < VA_MAX"
  shows "translate r w s = Ok (map_option (\<lambda>perm. (w, leaf_pte (w - w mod PAGE_SIZE) perm)) (kernel_perm L w))"
  using assms translate_identity [of _ w] kernel_perm_less [of L w]
  by (auto simp: identity_map_def translate_eq option.map_comp intro!: map_option_cong)

lemma kvmmake_identity:
  assumes L: "layout_ok L" and inv: "kalloc_inv L s" and room: "151 \<le> length (free_list s)"
  obtains r s' where "kvmmake L s = Ok (r, s')" and "identity_map L r (kernel_perm L) s'"
    and "alloc_page L r" and "length (free_list s) \<le> length (free_list s') + 151" and "low_same L s s'"
proof -
  have ne: "free_list s \<noteq> []" using room by auto
  obtain r s1 where a: "kalloc_alloc s = Ok (Some r, s1)" and v: "vm_inv L r s1"
    and e: "\<And>w. pte_of (mem s1) r w = None" and f: "free_list s = r # free_list s1"
    and z: "\<And>j. j < 512 \<Longrightarrow> sub (mem s1) r j = None" and w: "mem s1 = write_bytes (mem s) r 0 PAGE_SIZE"
    by (rule alloc_fresh_table [OF inv ne]) (rule that)
  have I: "identity_map L r (\<lambda>_. None) s1" using v e z by (simp add: identity_map_def)
  have "sum_list (map region_cost (kernel_regions L)) \<le> length (free_list s1)"
    using kernel_regions_cost [OF L] room f by simp
  from map_regions_identity [OF I kernel_regions_ok [OF L] _ this] obtain s' where
    "map_regions r (kernel_regions L) s1 = Ok s'"
    and "length (free_list s1) \<le> length (free_list s') + sum_list (map region_cost (kernel_regions L))" and l: "low_same L s1 s'"
    and "identity_map L r (\<lambda>w. case kernel_perm L w of Some p \<Rightarrow> Some p | None \<Rightarrow> None) s'"
    unfolding region_perm_kernel [OF L] by auto
  moreover have "(\<lambda>w. case kernel_perm L w of Some p \<Rightarrow> Some p | None \<Rightarrow> None) = kernel_perm L"
    by (auto split: option.splits)
  moreover have r: "alloc_page L r" using inv f by (auto simp: kalloc_inv_def)
  moreover have "low_same L s s1" using f r w by (auto simp: low_same_def write_bytes_def alloc_page_def)
  then have "low_same L s s'" using l by (rule low_same_trans)
  ultimately show thesis using a kvmmake_regions [OF L, of s] kernel_regions_cost [OF L] f by (intro that [of r s']) simp_all
qed

section \<open>Properties\<close>

text \<open>
  C14. Mapping a range.  For page-aligned, non-empty arguments with some permission, on a range
  with no page mapped and with two free pages per touched 2 MiB region, \<open>map_pages\<close> does not
  panic.  Afterwards \<open>translate\<close> sends every address of the range to the corresponding physical
  address with the given permissions, every other address translates as before, the table tree and
  the page allocator keep their invariant, and memory changes only in the tables on the paths of
  the range and in the pages taken from the free list, which all became tables of this tree.
\<close>

theorem map_pages_correct:
  assumes "vm_inv L r s" and "map_args_ok va pa len perm"
    and "\<And>w. va \<le> w \<Longrightarrow> w < va + len \<Longrightarrow> translate r w s = Ok None"
    and "2 * regions va len \<le> length (free_list s)"
  shows "\<exists>new s'. map_pages r va pa len perm s = Ok s' \<and> vm_inv L r s' \<and>
     (\<forall>w<VA_MAX. translate r w s' =
        (if va \<le> w \<and> w < va + len
         then Ok (Some (pa + (w - va), leaf_pte (pa + (w - va) div PAGE_SIZE * PAGE_SIZE) perm))
         else translate r w s)) \<and>
     free_list s = new @ free_list s' \<and> tabs (mem s') r = tabs (mem s) r \<union> set new \<and>
     (\<forall>a. mem s' a \<noteq> mem s a \<longrightarrow>
        in_pages a ((\<Union>w\<in>{va..<va + len}. path_tabs (mem s) r w) \<union> set new))"
proof -
  have "pte_of (mem s) r w = None" if "va \<le> w" "w < va + len" for w
  proof -
    have "w < VA_MAX" using that assms(2) by (simp add: map_args_ok_def)
    with assms(3) [OF that] show ?thesis by (simp add: translate_eq)
  qed
  from map_pages_range [OF assms(1,2) this assms(4)] obtain new s' where
    "map_pages r va pa len perm s = Ok s'"
    and g: "pt_grow L r (\<Union>w\<in>{va..<va + len}. path_tabs (mem s) r w) new s s'"
    and m: "mapped_range r va pa len perm (mem s) (mem s')" by blast
  then show ?thesis using translate_mapped [OF m assms(2) _ refl refl] unfolding pt_grow_def by blast
qed

theorem map_pages_correct_witness:
  "\<exists>s r s1 s2. kalloc_init boot_layout None (kmem_new (\<lambda>_. 0)) = Ok s \<and>
     kalloc_alloc s = Ok (Some r, s1) \<and> map_pages r USER_TEXT 0x80a20000 0x1000 PTE_R s1 = Ok s2 \<and>
     translate r 0x40000123 s2 = Ok (Some (0x80a20123, leaf_pte 0x80a20000 PTE_R)) \<and>
     translate r 0x40001000 s2 = Ok None"
proof -
  obtain s where s: "kalloc_init boot_layout None (kmem_new (\<lambda>_. 0)) = Ok s" "kalloc_inv boot_layout s"
    "3 \<le> length (free_list s)"
    using kalloc_boot [OF boot_layout_ok, of 3 "\<lambda>_. 0"]
    by (auto simp: alloc_start_boot_layout memlayout_consts)
  then have "free_list s \<noteq> []" by auto
  then obtain r s1 where r: "kalloc_alloc s = Ok (Some r, s1)" "vm_inv boot_layout r s1"
    "\<And>w. pte_of (mem s1) r w = None" "free_list s = r # free_list s1"
    by (rule alloc_fresh_table [OF s(2)]) (rule that)
  have args: "map_args_ok USER_TEXT 0x80a20000 0x1000 PTE_R"
    using kernel_perms_ok
    by (simp add: map_args_ok_def page_aligned_def PAGE_SIZE_def USER_TEXT_def usize_max_eq pte_pow(8))
  have un: "translate r w s1 = Ok None" if "w < VA_MAX" for w using that r(3) by (simp add: translate_eq)
  have "2 * regions USER_TEXT 0x1000 \<le> length (free_list s1)"
    using s(3) r(4) by (simp add: regions_def USER_TEXT_def)
  from map_pages_correct [OF r(2) args _ this] un obtain s2 where
    "map_pages r USER_TEXT 0x80a20000 0x1000 PTE_R s1 = Ok s2"
    and t: "\<And>w. w < VA_MAX \<Longrightarrow> translate r w s2 =
        (if USER_TEXT \<le> w \<and> w < USER_TEXT + 0x1000
         then Ok (Some (0x80a20000 + (w - USER_TEXT), leaf_pte (0x80a20000 + (w - USER_TEXT) div PAGE_SIZE * PAGE_SIZE) PTE_R))
         else translate r w s1)"
    by (auto simp: USER_TEXT_def pte_pow(8))
  moreover have "translate r 0x40000123 s2 = Ok (Some (0x80a20123, leaf_pte 0x80a20000 PTE_R))"
    "translate r 0x40001000 s2 = Ok None"
    using t [of "0x40000123"] t [of "0x40001000"] un [of "0x40001000"]
    by (simp_all add: USER_TEXT_def PAGE_SIZE_def pte_pow(8))
  ultimately show ?thesis using s(1) r(1) by blast
qed

text \<open>
  C15. The kernel's page table.  From a valid boot layout and 151 free pages \<open>kvmmake\<close> builds its
  table without panicking, and the table is exactly the identity map of the kernel's regions:
  below \<open>VA_MAX\<close>, an address translates to itself with the permissions of its region, and an
  address outside every region does not translate.
\<close>

theorem kvmmake_correct:
  assumes "layout_ok L" and "kalloc_inv L s" and "151 \<le> length (free_list s)"
  shows "\<exists>r s'. kvmmake L s = Ok (r, s') \<and> vm_inv L r s' \<and>
     (\<forall>w<VA_MAX. translate r w s' =
        Ok (map_option (\<lambda>perm. (w, leaf_pte (w - w mod PAGE_SIZE) perm)) (kernel_perm L w)))"
proof -
  obtain r s' where k: "kvmmake L s = Ok (r, s')" and I: "identity_map L r (kernel_perm L) s'"
    by (rule kvmmake_identity [OF assms]) (rule that)
  show ?thesis using k I kernel_translate [OF I] by (auto simp: identity_map_def)
qed

theorem kvmmake_correct_witness:
  "\<exists>s r s'. kalloc_init boot_layout None (kmem_new (\<lambda>_. 0)) = Ok s \<and> kvmmake boot_layout s = Ok (r, s') \<and>
     translate r 0x80200123 s' = Ok (Some (0x80200123, leaf_pte 0x80200000 (PTE_R OR PTE_X))) \<and>
     translate r USER_TEXT s' = Ok None"
proof -
  obtain s where s: "kalloc_init boot_layout None (kmem_new (\<lambda>_. 0)) = Ok s" "kalloc_inv boot_layout s"
    "151 \<le> length (free_list s)"
    using kalloc_boot [OF boot_layout_ok, of 151 "\<lambda>_. 0"]
    by (auto simp: alloc_start_boot_layout memlayout_consts)
  from kvmmake_correct [OF boot_layout_ok s(2,3)] obtain r s' where "kvmmake boot_layout s = Ok (r, s')"
    "\<forall>w<VA_MAX. translate r w s' =
        Ok (map_option (\<lambda>perm. (w, leaf_pte (w - w mod PAGE_SIZE) perm)) (kernel_perm boot_layout w))"
    by blast
  then show ?thesis using s(1)
    by (intro exI [of _ s] exI [of _ r] exI [of _ s'])
      (simp add: kernel_perm_def USER_TEXT_def boot_layout_def demo_layout_def memlayout_consts pte_pow(8))
qed



end
