(* ===== verification/Uservm.thy ===== *)
theory Uservm
  imports Vmmap
begin

text \<open>
  Per-process address spaces (\<open>make_user_table\<close>, \<open>clone_user_table\<close>, \<open>free_user_table\<close> of
  \<open>src/src/vm.rs\<close>).  A user table shares the kernel's tables in every top-level slot but one; below the
  user slot it owns its tables and its frames.  \<open>aspace\<close> is the invariant: the shared slots agree
  with the kernel's, and what the space owns is owned by nobody else, neither by the kernel's tree nor
  by the free list, and by no two pages of the space.
\<close>

lemma USER_L2_INDEX_eq: "USER_L2_INDEX = 1"
  by (simp add: USER_L2_INDEX_def USER_TEXT_def ushr_eq)

text \<open>The addresses of the user slot.\<close>

definition user_va :: "usize \<Rightarrow> bool" where
  "user_va va \<longleftrightarrow> 0x40000000 \<le> va \<and> va < 0x80000000"

lemma user_va_max: "user_va va \<Longrightarrow> va < VA_MAX"
  unfolding pte_pow by (simp add: user_va_def)

lemma user_va_vpn: "user_va va \<Longrightarrow> vpn va 2 = 1"
proof -
  assume "user_va va"
  then have "va div 2 ^ 30 = 1" unfolding user_va_def by (intro div_nat_eqI) simp_all
  then show ?thesis by (simp add: vpn_eq)
qed

lemma vpn_user_va: "vpn va 2 = 1 \<Longrightarrow> va < VA_MAX \<Longrightarrow> user_va va"
proof -
  assume v: "vpn va 2 = 1" and "va < VA_MAX"
  then have "va div 2 ^ 30 < 512" unfolding pte_pow by (simp add: div_less_iff_less_mult)
  with v have "va div 2 ^ 30 = 1" by (simp add: vpn_eq)
  then show ?thesis unfolding user_va_def using div_mult_mod_eq [of va "2 ^ 30"] mod_less_divisor [of "2 ^ 30" va]
    by (simp; linarith)
qed

section \<open>What a user table owns\<close>

definition utabs :: "memory \<Rightarrow> usize \<Rightarrow> usize set" where
  "utabs m r = {t. \<exists>q. path_ok q \<and> (q = [] \<or> hd q = 1) \<and> tab m r q = Some t}"

definition uframes :: "memory \<Rightarrow> usize \<Rightarrow> usize set" where
  "uframes m r = {pte_to_pa e | va e. user_va va \<and> pte_of m r va = Some e}"

text \<open>Every page the kernel maps for a process can be read from user mode.\<close>

definition user_pte :: "usize \<Rightarrow> bool" where
  "user_pte e \<longleftrightarrow> e AND PTE_U \<noteq> 0 \<and> e AND PTE_R \<noteq> 0"

lemma user_pte_bits: "user_pte e \<longleftrightarrow> bit e 4 \<and> bit e 1"
  by (simp add: user_pte_def pte_test)

definition aspace :: "layout \<Rightarrow> usize \<Rightarrow> usize \<Rightarrow> phys \<Rightarrow> bool" where
  "aspace L kr r s \<longleftrightarrow> vm_inv L r s \<and>
     (\<forall>i<512. i \<noteq> 1 \<longrightarrow> ent (mem s) r i = ent (mem s) kr i) \<and>
     utabs (mem s) r \<inter> tabs (mem s) kr = {} \<and>
     (\<forall>f\<in>uframes (mem s) r. alloc_page L f \<and> f \<notin> set (free_list s) \<and> f \<notin> tabs (mem s) r \<and> f \<notin> tabs (mem s) kr) \<and>
     (\<forall>va w e e'. user_va va \<longrightarrow> user_va w \<longrightarrow> pte_of (mem s) r va = Some e \<longrightarrow> pte_of (mem s) r w = Some e' \<longrightarrow>
        pte_to_pa e = pte_to_pa e' \<longrightarrow> va div PAGE_SIZE = w div PAGE_SIZE) \<and>
     (\<forall>va e. user_va va \<longrightarrow> pte_of (mem s) r va = Some e \<longrightarrow> user_pte e)"

lemma aspaceD:
  assumes "aspace L kr r s"
  shows "vm_inv L r s" and "i < 512 \<Longrightarrow> i \<noteq> 1 \<Longrightarrow> ent (mem s) r i = ent (mem s) kr i"
    and "utabs (mem s) r \<inter> tabs (mem s) kr = {}"
    and "f \<in> uframes (mem s) r \<Longrightarrow> alloc_page L f" and "f \<in> uframes (mem s) r \<Longrightarrow> f \<notin> set (free_list s)"
    and "f \<in> uframes (mem s) r \<Longrightarrow> f \<notin> tabs (mem s) r" and "f \<in> uframes (mem s) r \<Longrightarrow> f \<notin> tabs (mem s) kr"
    and "user_va va \<Longrightarrow> user_va w \<Longrightarrow> pte_of (mem s) r va = Some e \<Longrightarrow> pte_of (mem s) r w = Some e' \<Longrightarrow>
      pte_to_pa e = pte_to_pa e' \<Longrightarrow> va div PAGE_SIZE = w div PAGE_SIZE"
    and "user_va va \<Longrightarrow> pte_of (mem s) r va = Some e \<Longrightarrow> user_pte e"
  using assms unfolding aspace_def by blast+

lemma aspaceI:
  assumes "vm_inv L r s" and "\<And>i. i < 512 \<Longrightarrow> i \<noteq> 1 \<Longrightarrow> ent (mem s) r i = ent (mem s) kr i"
    and "utabs (mem s) r \<inter> tabs (mem s) kr = {}"
    and "\<And>f. f \<in> uframes (mem s) r \<Longrightarrow>
      alloc_page L f \<and> f \<notin> set (free_list s) \<and> f \<notin> tabs (mem s) r \<and> f \<notin> tabs (mem s) kr"
    and "\<And>va w e e'. user_va va \<Longrightarrow> user_va w \<Longrightarrow> pte_of (mem s) r va = Some e \<Longrightarrow> pte_of (mem s) r w = Some e' \<Longrightarrow>
      pte_to_pa e = pte_to_pa e' \<Longrightarrow> va div PAGE_SIZE = w div PAGE_SIZE"
    and "\<And>va e. user_va va \<Longrightarrow> pte_of (mem s) r va = Some e \<Longrightarrow> user_pte e"
  shows "aspace L kr r s"
  unfolding aspace_def using assms by blast

text \<open>The kernel's own table, with the user slot empty.\<close>

definition kspace :: "layout \<Rightarrow> usize \<Rightarrow> phys \<Rightarrow> bool" where
  "kspace L kr s \<longleftrightarrow> vm_inv L kr s \<and> sub (mem s) kr 1 = None"

lemma utabs_tabs: "utabs m r \<subseteq> tabs m r"
  by (auto simp: utabs_def tabs_def)

lemma root_utabs: "r \<in> utabs m r"
  unfolding utabs_def by (rule CollectI, rule exI [of _ "[]"]) simp

lemma tab_shared:
  assumes "ent m r i = ent m kr i"
  shows "tab m r (i # q) = tab m kr (i # q)"
  using assms by (simp add: tab.simps(2) sub_def)

lemma tabs_split:
  assumes "\<forall>i<512. i \<noteq> 1 \<longrightarrow> ent m r i = ent m kr i"
  shows "tabs m r \<subseteq> utabs m r \<union> tabs m kr"
proof
  fix t assume "t \<in> tabs m r"
  then obtain q where q: "path_ok q" "tab m r q = Some t" by (auto simp: tabs_def)
  show "t \<in> utabs m r \<union> tabs m kr"
  proof (cases q)
    case Nil
    then show ?thesis using q by (auto simp: utabs_def intro!: exI [of _ "[]"])
  next
    case (Cons i q')
    show ?thesis
    proof (cases "i = 1")
      case True
      then show ?thesis using q Cons by (auto simp: utabs_def)
    next
      case False
      then have "ent m r i = ent m kr i" using assms q(1) Cons by (simp add: path_ok_def)
      then have "tab m kr q = Some t" using q(2) Cons tab_shared [of m r i kr q'] by simp
      then show ?thesis using q(1) by (auto simp: tabs_def)
    qed
  qed
qed

lemma pte_of_shared:
  assumes "ent m r (vpn va 2) = ent m kr (vpn va 2)"
  shows "pte_of m r va = pte_of m kr va"
  unfolding pte_of_def va_path_def tab_shared [OF assms] ..

lemma utabsI: "path_ok q \<Longrightarrow> q = [] \<or> hd q = 1 \<Longrightarrow> tab m r q = Some t \<Longrightarrow> t \<in> utabs m r"
  unfolding utabs_def by blast

lemma path_tabs_user:
  assumes "user_va va"
  shows "path_tabs m r va \<subseteq> utabs m r"
proof
  fix t assume "t \<in> path_tabs m r va"
  then obtain q where q: "q \<in> {[], [vpn va 2], va_path va}" "tab m r q = Some t" unfolding path_tabs_eq by blast
  have "q = [] \<or> hd q = 1" using q(1) user_va_vpn [OF assms] by (elim insertE) (simp_all add: va_path_def)
  then show "t \<in> utabs m r" using path_ok_prefixes [OF q(1)] q(2) by (intro utabsI)
qed

text \<open>Memory that agrees on the tables of the space and of the kernel keeps the space.\<close>

lemma ent_same:
  assumes "\<And>a. m' a \<noteq> m a \<Longrightarrow> in_pages a P" and "t \<notin> P" and "page_aligned t" and "\<forall>p\<in>P. page_aligned p" and "i < 512"
  shows "ent m' t i = ent m t i"
proof (rule ent_cong [OF _ assms(5)])
  fix a assume a: "t \<le> a" "a < t + PAGE_SIZE"
  show "m' a = m a"
  proof (rule ccontr)
    assume "m' a \<noteq> m a"
    then obtain p where p: "p \<in> P" "p \<le> a" "a < p + PAGE_SIZE" using assms(1) by (auto simp: in_pages_def)
    then have "p \<noteq> t" "page_aligned p" using assms(2,4) by auto
    with pages_disjoint [OF assms(3) this(2), of a] a p show False by auto
  qed
qed

lemma utabs_frame:
  assumes "\<And>t i. t \<in> tabs m r \<Longrightarrow> i < 512 \<Longrightarrow> ent m' t i = ent m t i"
  shows "utabs m' r = utabs m r" "uframes m' r = uframes m r"
  using tab_frame [of m r m', OF assms] pt_frame(2) [of m r m', OF assms]
  by (auto simp: utabs_def uframes_def)

lemma missing_tab:
  "missing m r va = (case tab m r [vpn va 2] of None \<Rightarrow> 2 | Some t \<Rightarrow> (case tab m r (va_path va) of None \<Rightarrow> 1 | Some u \<Rightarrow> 0))"
  by (auto simp: missing_def va_path_def split: option.splits)

lemma aspace_frame:
  assumes "aspace L kr r s" and "kspace L kr s" and "kalloc_inv L s'"
    and e: "\<And>t i. t \<in> utabs (mem s) r \<union> tabs (mem s) kr \<Longrightarrow> i < 512 \<Longrightarrow> ent (mem s') t i = ent (mem s) t i"
    and d: "set (free_list s') \<inter> (utabs (mem s) r \<union> tabs (mem s) kr \<union> uframes (mem s) r) = {}"
  shows "aspace L kr r s'" "kspace L kr s'" "tabs (mem s') kr = tabs (mem s) kr" "tabs (mem s') r = tabs (mem s) r"
    "utabs (mem s') r = utabs (mem s) r" "uframes (mem s') r = uframes (mem s) r"
    "pte_of (mem s') r va = pte_of (mem s) r va" "pte_of (mem s') kr va = pte_of (mem s) kr va"
    "missing (mem s') r va = missing (mem s) r va"
proof -
  note A = aspaceD [OF assms(1)]
  have sh: "\<forall>i<512. i \<noteq> 1 \<longrightarrow> ent (mem s) r i = ent (mem s) kr i" using A(2) by blast
  have er: "ent (mem s') t i = ent (mem s) t i" if "t \<in> tabs (mem s) r" "i < 512" for t i
    using e that tabs_split [OF sh] by blast
  have ek: "ent (mem s') t i = ent (mem s) t i" if "t \<in> tabs (mem s) kr" "i < 512" for t i
    using e that by blast
  note fr = pt_frame [of "mem s" r "mem s'", OF er] and fk = pt_frame [of "mem s" kr "mem s'", OF ek]
    and fu = utabs_frame [of "mem s" r "mem s'", OF er]
  show tk: "tabs (mem s') kr = tabs (mem s) kr" and tr: "tabs (mem s') r = tabs (mem s) r"
    and pr: "pte_of (mem s') r va = pte_of (mem s) r va" for va using fr(1,2) fk(1) by simp_all
  show "utabs (mem s') r = utabs (mem s) r" "uframes (mem s') r = uframes (mem s) r"
    "pte_of (mem s') kr va = pte_of (mem s) kr va" using fu fk by simp_all
  have tt: "tab (mem s') r q = tab (mem s) r q" if "path_ok q" for q using er that by (rule tab_frame)
  show "missing (mem s') r va = missing (mem s) r va" unfolding missing_tab tt [OF path_ok_va(1)] tt [OF path_ok_va(2)] ..
  have "sub (mem s') kr 1 = sub (mem s) kr 1" using ek [OF root_in_tabs, of 1] by (intro sub_cong) simp
  then show "kspace L kr s'" using assms(2,3) d tk fk(3) by (auto simp: kspace_def vm_inv_def)
  have "set (free_list s') \<inter> tabs (mem s) r = {}" using d tabs_split [OF sh] by blast
  then have v: "vm_inv L r s'" using A(1) assms(3) fr(3) tr by (auto simp: vm_inv_def)
  show "aspace L kr r s'"
  proof (rule aspaceI [OF v])
    show "ent (mem s') r i = ent (mem s') kr i" if "i < 512" "i \<noteq> 1" for i
      using A(2) [OF that] er [OF root_in_tabs that(1)] ek [OF root_in_tabs that(1)] by simp
    show "utabs (mem s') r \<inter> tabs (mem s') kr = {}" using A(3) fu(1) tk by simp
    show "alloc_page L f \<and> f \<notin> set (free_list s') \<and> f \<notin> tabs (mem s') r \<and> f \<notin> tabs (mem s') kr"
      if "f \<in> uframes (mem s') r" for f
    proof -
      have "f \<in> uframes (mem s) r" using that fu(2) by simp
      then show ?thesis using A(4,6,7) [of f] d tk tr by auto
    qed
    show "va div PAGE_SIZE = w div PAGE_SIZE"
      if "user_va va" "user_va w" "pte_of (mem s') r va = Some e" "pte_of (mem s') r w = Some e'" "pte_to_pa e = pte_to_pa e'"
      for va w e e' using A(8) [OF that(1,2) _ _ that(5)] that(3,4) pr by simp
    show "user_pte e" if "user_va va" "pte_of (mem s') r va = Some e" for va e using A(9) [of va e] that pr by simp
  qed
qed

section \<open>A new table\<close>

lemma ent_copy_entries:
  assumes "page_aligned kr" and "page_aligned r" and "kr \<noteq> r" and "set is \<subseteq> {..<512}" and "page_aligned t" and "j < 512"
  shows "ent (copy_entries kr r is m) t j = (if t = r \<and> j \<in> set is then ent m kr j else ent m t j)"
  using assms(4)
proof (induction "is" arbitrary: m)
  case (Cons i "is")
  have i: "i < 512" using Cons.prems by simp
  have "ent (set_ent m r i (ent m kr i)) kr j = ent m kr j"
    using assms i by (subst ent_set_ent) simp_all
  moreover have "ent (set_ent m r i (ent m kr i)) t j = (if t = r \<and> j = i then ent m kr i else ent m t j)"
    using assms i by (subst ent_set_ent) auto
  ultimately show ?case using Cons by (auto simp: copy_entries_def)
qed (simp add: copy_entries_def)

lemma copy_entries_outside:
  assumes "set is \<subseteq> {..<512}" and "\<not> in_pages a {r}"
  shows "copy_entries kr r is m a = m a"
  using assms(1)
proof (induction "is" arbitrary: m)
  case (Cons i "is")
  have "set_ent m r i v a = m a" for v using Cons.prems assms(2) by (intro set_ent_outside) (auto simp: in_pages_def)
  then show ?case using Cons by (simp add: copy_entries_def)
qed (simp add: copy_entries_def)

lemma tabs_aligned: "vm_inv L r s \<Longrightarrow> t \<in> tabs (mem s) r \<Longrightarrow> page_aligned t"
  by (auto simp: vm_inv_def pt_wf_def alloc_page_def)

lemma free_aligned: "kalloc_inv L s \<Longrightarrow> p \<in> set (free_list s) \<Longrightarrow> page_aligned p"
  by (auto simp: kalloc_inv_def alloc_page_def)

lemma kalloc_frame_pages:
  assumes "kalloc_inv L s" and "\<And>a. m a \<noteq> mem s a \<Longrightarrow> in_pages a P" and "\<forall>p\<in>P. page_aligned p"
    and "P \<inter> set (free_list s) = {}"
  shows "free_list (s\<lparr>mem := m\<rparr>) = free_list s" and "kalloc_inv L (s\<lparr>mem := m\<rparr>)"
proof -
  have "ent m p 0 = ent (mem s) p 0" if "p \<in> set (free_list s)" for p
    using that assms free_aligned [OF assms(1) that] by (intro ent_same [where P = P]) auto
  from kalloc_frame [OF assms(1) this]
  show "free_list (s\<lparr>mem := m\<rparr>) = free_list s" and "kalloc_inv L (s\<lparr>mem := m\<rparr>)" by blast+
qed

lemma kspaceD:
  assumes "kspace L kr s"
  shows "vm_inv L kr s" "kalloc_inv L s" "pt_wf L (mem s) kr" "tabs (mem s) kr \<inter> set (free_list s) = {}"
    "sub (mem s) kr 1 = None" "alloc_page L kr"
  using assms root_in_tabs [of kr "mem s"] by (auto simp: kspace_def vm_inv_def pt_wf_def)

lemma kspace_frame:
  assumes "kspace L kr s" and "kalloc_inv L s'" and "\<And>a. mem s' a \<noteq> mem s a \<Longrightarrow> in_pages a P"
    and "\<forall>p\<in>P. page_aligned p" and "P \<inter> tabs (mem s) kr = {}" and "set (free_list s') \<inter> tabs (mem s) kr = {}"
  shows "kspace L kr s'" "tabs (mem s') kr = tabs (mem s) kr" "pte_of (mem s') kr va = pte_of (mem s) kr va"
    "\<And>i. i < 512 \<Longrightarrow> ent (mem s') kr i = ent (mem s) kr i"
    "\<And>q. path_ok q \<Longrightarrow> tab (mem s') kr q = tab (mem s) kr q"
proof -
  note K = kspaceD [OF assms(1)]
  have ek: "ent (mem s') t i = ent (mem s) t i" if "t \<in> tabs (mem s) kr" "i < 512" for t i
    using that assms(3-5) tabs_aligned [OF K(1)] by (intro ent_same [where P = P]) auto
  note fk = pt_frame [of "mem s" kr "mem s'", OF ek]
  show tk: "tabs (mem s') kr = tabs (mem s) kr" and "pte_of (mem s') kr va = pte_of (mem s) kr va" using fk by simp_all
  show "\<And>i. i < 512 \<Longrightarrow> ent (mem s') kr i = ent (mem s) kr i" using ek root_in_tabs by simp
  show "\<And>q. path_ok q \<Longrightarrow> tab (mem s') kr q = tab (mem s) kr q" using ek by (rule tab_frame)
  have "sub (mem s') kr 1 = sub (mem s) kr 1" using ek [OF root_in_tabs, of 1] by (intro sub_cong) simp
  then show "kspace L kr s'" using K assms(2,6) tk fk(3) [of L] by (auto simp: kspace_def vm_inv_def)
qed

text \<open>A root that copies the kernel's entries is an address space that owns nothing but itself.\<close>

lemma fresh_aspace:
  assumes "kspace L kr s" and r: "alloc_page L r" "r \<notin> tabs (mem s) kr" "r \<notin> set (free_list s)"
    and e: "\<And>i. i < 512 \<Longrightarrow> ent (mem s) r i = ent (mem s) kr i"
  shows "aspace L kr r s" "utabs (mem s) r = {r}" "uframes (mem s) r = {}" "pte_of (mem s) r va = pte_of (mem s) kr va"
proof -
  note K = kspaceD [OF assms(1)]
  have T: "tab (mem s) r q = (if q = [] then Some r else tab (mem s) kr q)" if "path_ok q" for q
    using that e by (cases q) (auto simp: path_ok_def intro: tab_shared)
  show p: "pte_of (mem s) r va = pte_of (mem s) kr va" for va by (rule pte_of_shared) (simp add: e)
  have nr: "tab (mem s) kr q \<noteq> Some r" if "path_ok q" for q using r(2) that by (auto intro: tabsI)
  have one: "tab (mem s) kr (1 # q) = None" for q using K(5) by (simp add: tab.simps(2))
  show ut: "utabs (mem s) r = {r}"
  proof
    show "utabs (mem s) r \<subseteq> {r}"
    proof
      fix t assume "t \<in> utabs (mem s) r"
      then obtain q where q: "path_ok q" "q = [] \<or> hd q = 1" "tab (mem s) r q = Some t" unfolding utabs_def by blast
      show "t \<in> {r}" using q one T [OF q(1)] by (cases q) auto
    qed
  qed (simp add: root_utabs)
  have "pte_of (mem s) kr va = None" if "user_va va" for va
    unfolding pte_of_def va_path_def user_va_vpn [OF that] one by simp
  then show uf: "uframes (mem s) r = {}" using p unfolding uframes_def by auto
  have sub: "tabs (mem s) r \<subseteq> insert r (tabs (mem s) kr)"
    using T by (auto simp: tabs_def split: if_splits)
  have "pt_wf L (mem s) r" unfolding pt_wf_def
  proof (intro conjI ballI allI impI)
    show "alloc_page L t" if "t \<in> tabs (mem s) r" for t using that sub r(1) K(3) by (auto simp: pt_wf_def)
    show "q = q'" if "path_ok q \<and> path_ok q' \<and> tab (mem s) r q = Some t \<and> tab (mem s) r q' = Some t" for q q' t
      using that T [of q] T [of q'] nr [of q] nr [of q'] pt_wf_inj [OF K(3), of q q' t] by (auto split: if_splits)
  qed
  then have "vm_inv L r s" using K(2,4) sub r(3) by (auto simp: vm_inv_def)
  then show "aspace L kr r s" by (rule aspaceI) (use e ut uf r(2) p \<open>\<And>va. user_va va \<Longrightarrow> pte_of (mem s) kr va = None\<close> in auto)
qed

lemma make_user_table_run:
  assumes "kspace L kr s" and fl: "free_list s = r # ps"
  obtains s' where "make_user_table kr s = Ok (r, s')" and "free_list s' = ps" and "aspace L kr r s'" and "kspace L kr s'"
    and "utabs (mem s') r = {r}" and "uframes (mem s') r = {}" and "tabs (mem s') kr = tabs (mem s) kr"
    and "\<And>va. pte_of (mem s') r va = pte_of (mem s) kr va" and "\<And>va. pte_of (mem s') kr va = pte_of (mem s) kr va"
    and "\<And>a. mem s' a \<noteq> mem s a \<Longrightarrow> in_pages a {r}"
proof -
  note K = kspaceD [OF assms(1)]
  from kalloc_alloc_pop [OF K(2) fl] obtain s1 where s1: "kalloc_alloc s = Ok (Some r, s1)" "kalloc_inv L s1"
    "free_list s1 = ps" "mem s1 = write_bytes (mem s) r 0 PAGE_SIZE" by blast
  define s' where "s' = s1\<lparr>mem := copy_entries kr r [0..<512] (mem s1)\<rparr>"
  have r: "alloc_page L r" "r \<notin> set ps" "r \<notin> tabs (mem s) kr" using K(2,4) fl by (auto simp: kalloc_inv_def)
  have ra: "page_aligned r" "page_aligned kr" "kr \<noteq> r"
    using r K(6) root_in_tabs [of kr "mem s"] by (auto simp: alloc_page_def)
  have ch1: "in_pages a {r}" if "copy_entries kr r [0..<512] (mem s1) a \<noteq> mem s1 a" for a
    using that copy_entries_outside [of "[0..<512]" a r kr "mem s1"] by fastforce
  have ch: "in_pages a {r}" if "mem s' a \<noteq> mem s a" for a
    using that ch1 [of a] write_bytes_outside [of a r "mem s" 0] unfolding s'_def s1(4) by force
  have fl': "free_list s' = ps" and k': "kalloc_inv L s'"
    using kalloc_frame_pages [OF s1(2) ch1] r ra s1(3) by (simp_all add: s'_def)
  have P: "\<forall>p\<in>{r}. page_aligned p" "{r} \<inter> tabs (mem s) kr = {}" "set (free_list s') \<inter> tabs (mem s) kr = {}"
    using ra r K(4) fl fl' by auto
  note F = kspace_frame [OF assms(1) k' ch P]
  have e: "ent (mem s') r i = ent (mem s') kr i" if "i < 512" for i
    using that ra ent_copy_entries [of kr r "[0..<512]" _ i "mem s1"] by (simp add: s'_def atLeast0LessThan)
  have fa: "r \<notin> tabs (mem s') kr" "r \<notin> set (free_list s')" using r F(2) fl' by simp_all
  note A = fresh_aspace [OF F(1) r(1) fa e]
  have "ent (mem s') kr USER_L2_INDEX AND PTE_V = 0"
    using kspaceD(5) [OF F(1)] unfolding USER_L2_INDEX_eq by (auto simp: sub_def split: if_splits)
  then have "make_user_table kr s = Ok (r, s')" using s1(1) unfolding make_user_table_def s'_def by (simp add: Let_def)
  from that [OF this fl' A(1) F(1) A(2,3) F(2) _ F(3) ch] A(4) F(3) show thesis by simp
qed

section \<open>Growing an address space\<close>

lemma aspace_pages:
  assumes "aspace L kr r s" and "kspace L kr s" and "kalloc_inv L s'" and "\<And>a. mem s' a \<noteq> mem s a \<Longrightarrow> in_pages a P"
    and "\<forall>p\<in>P. page_aligned p" and "P \<inter> (utabs (mem s) r \<union> tabs (mem s) kr) = {}"
    and "set (free_list s') \<inter> (utabs (mem s) r \<union> tabs (mem s) kr \<union> uframes (mem s) r) = {}"
  shows "aspace L kr r s'" "kspace L kr s'" "tabs (mem s') kr = tabs (mem s) kr" "tabs (mem s') r = tabs (mem s) r"
    "utabs (mem s') r = utabs (mem s) r" "uframes (mem s') r = uframes (mem s) r"
    "pte_of (mem s') r va = pte_of (mem s) r va" "pte_of (mem s') kr va = pte_of (mem s) kr va"
    "missing (mem s') r va = missing (mem s) r va"
proof -
  have "ent (mem s') t i = ent (mem s) t i" if "t \<in> utabs (mem s) r \<union> tabs (mem s) kr" "i < 512" for t i
    using that assms(4-6) tabs_aligned [OF aspaceD(1) [OF assms(1)]] tabs_aligned [OF kspaceD(1) [OF assms(2)]]
      utabs_tabs [of "mem s" r] by (intro ent_same [where P = P]) auto
  note F = aspace_frame [OF assms(1-3) this assms(7)]
  show "aspace L kr r s'" "kspace L kr s'" "tabs (mem s') kr = tabs (mem s) kr" "tabs (mem s') r = tabs (mem s) r"
    "utabs (mem s') r = utabs (mem s) r" "uframes (mem s') r = uframes (mem s) r"
    "pte_of (mem s') r va = pte_of (mem s) r va" "pte_of (mem s') kr va = pte_of (mem s) kr va"
    "missing (mem s') r va = missing (mem s) r va" using F by blast+
qed

lemma aspace_free:
  assumes "aspace L kr r s" and "kspace L kr s"
  shows "set (free_list s) \<inter> (utabs (mem s) r \<union> tabs (mem s) kr \<union> uframes (mem s) r) = {}"
  using aspaceD(1,5) [OF assms(1)] kspaceD(4) [OF assms(2)] utabs_tabs [of "mem s" r] by (auto simp: vm_inv_def)

lemma user_page_pte:
  assumes "user_va va" and "w < VA_MAX"
  shows "va_path w = va_path va \<and> vpn w 0 = vpn va 0 \<longleftrightarrow> w div PAGE_SIZE = va div PAGE_SIZE"
  using same_page_iff [OF assms(2) user_va_max [OF assms(1)]] .

lemma user_va_page: "user_va va \<Longrightarrow> w div PAGE_SIZE = va div PAGE_SIZE \<Longrightarrow> user_va w"
proof -
  assume "user_va va" and "w div PAGE_SIZE = va div PAGE_SIZE"
  moreover have "x div PAGE_SIZE \<in> {0x40000..<0x80000} \<longleftrightarrow> user_va x" for x
    unfolding user_va_def PAGE_SIZE_def by (simp add: less_eq_div_iff_mult_less_eq div_less_iff_less_mult)
  ultimately show "user_va w" by metis
qed

text \<open>The tables of a space after tables were added below its user slot.\<close>

lemma utabs_grow:
  assumes g: "pt_grow L r P new s s'" and e: "\<And>i. i < 512 \<Longrightarrow> i \<noteq> 1 \<Longrightarrow> ent (mem s') r i = ent (mem s') kr i"
    and new: "set new \<inter> tabs (mem s') kr = {}"
  shows "utabs (mem s') r = utabs (mem s) r \<union> set new"
proof
  show "utabs (mem s') r \<subseteq> utabs (mem s) r \<union> set new"
  proof
    fix t assume "t \<in> utabs (mem s') r"
    then obtain q where "path_ok q" "q = [] \<or> hd q = 1" "tab (mem s') r q = Some t" unfolding utabs_def by blast
    then show "t \<in> utabs (mem s) r \<union> set new" using pt_grow_tab [OF g] utabsI by blast
  qed
  have "t \<in> utabs (mem s') r" if "t \<in> utabs (mem s) r" for t
    using that g unfolding utabs_def pt_grow_def by blast
  moreover have "set new \<subseteq> tabs (mem s') r" using g by (auto simp: pt_grow_def)
  ultimately show "utabs (mem s) r \<union> set new \<subseteq> utabs (mem s') r" using new tabs_split [of "mem s'" r kr] e by blast
qed

lemma map_user:
  assumes A: "aspace L kr r s" and K: "kspace L kr s" and va: "user_va va" "page_aligned va" "pte_of (mem s) r va = None"
    and room: "missing (mem s) r va \<le> length (free_list s)" and perm: "perm < 32" "user_pte perm"
    and f: "alloc_page L f" "f \<notin> set (free_list s)" "f \<notin> utabs (mem s) r" "f \<notin> tabs (mem s) kr" "f \<notin> uframes (mem s) r"
  obtains new s' where "map_pages r va f PAGE_SIZE perm s = Ok s'" and "free_list s = new @ free_list s'"
    and "length new = missing (mem s) r va" and "aspace L kr r s'" and "kspace L kr s'"
    and "utabs (mem s') r = utabs (mem s) r \<union> set new" and "uframes (mem s') r = insert f (uframes (mem s) r)"
    and "tabs (mem s') kr = tabs (mem s) kr" and "\<And>w. pte_of (mem s') kr w = pte_of (mem s) kr w"
    and "\<And>w. w < VA_MAX \<Longrightarrow> pte_of (mem s') r w =
      (if w div PAGE_SIZE = va div PAGE_SIZE then Some (leaf_pte f perm) else pte_of (mem s) r w)"
    and "\<And>a. mem s' a \<noteq> mem s a \<Longrightarrow> in_pages a (utabs (mem s) r \<union> set new)"
    and "missing (mem s') r va = 0"
proof -
  have fp: "page_aligned f" "f \<le> usize_max" using alloc_page_aligned [OF f(1)] alloc_page_le_usize [OF f(1)] .
  have u: "uadd f 0 = Ok f" "uadd va 0 = Ok va" using fp user_va_max [OF va(1)] by (simp_all add: uadd_Ok usize_max_eq pte_pow)
  obtain new s' where run: "map_loop r va f perm [0] s = map_loop r va f perm [] s'" and g: "pt_grow L r (path_tabs (mem s) r va) new s s'"
    and l: "length new = missing (mem s) r va" and mt: "tab (mem s') r (va_path va) \<noteq> None"
    and p: "\<And>w. pte_of (mem s') r w = (if va_path w = va_path va \<and> vpn w 0 = vpn va 0 then Some (leaf_pte f perm)
            else pte_of (mem s) r w)"
    and rs: "\<And>j. j < 512 \<Longrightarrow> j \<noteq> vpn va 2 \<Longrightarrow> ent (mem s') r j = ent (mem s) r j"
    by (rule map_one [OF aspaceD(1) [OF A] user_va_max [OF va(1)] perm(1) room va(3) u, where offs = "[]"]) (rule that)
  have g': "vm_inv L r s'" "free_list s = new @ free_list s'" using g by (simp_all add: pt_grow_def)
  have P: "path_tabs (mem s) r va \<union> set new \<subseteq> utabs (mem s) r \<union> set new" using path_tabs_user [OF va(1)] by blast
  have ch: "in_pages a (utabs (mem s) r \<union> set new)" if "mem s' a \<noteq> mem s a" for a
    using that g P by (auto simp: pt_grow_def intro: in_pages_mono)
  note D = aspaceD [OF A] and fr = aspace_free [OF A K]
  have Q: "\<forall>p\<in>utabs (mem s) r \<union> set new. page_aligned p" "(utabs (mem s) r \<union> set new) \<inter> tabs (mem s) kr = {}"
    "set (free_list s') \<inter> tabs (mem s) kr = {}"
    using tabs_aligned [OF D(1)] utabs_tabs [of "mem s" r] free_aligned [OF kspaceD(2) [OF K]] g'(2) D(3) fr by auto
  have k': "kalloc_inv L s'" using g'(1) by (simp add: vm_inv_def)
  note F = kspace_frame [OF K k' ch Q]
  have e: "ent (mem s') r i = ent (mem s') kr i" if "i < 512" "i \<noteq> 1" for i
    using that rs user_va_vpn [OF va(1)] F(4) D(2) by simp
  have ut: "utabs (mem s') r = utabs (mem s) r \<union> set new" by (rule utabs_grow [OF g e]) (use Q F(2) in auto)
  have p': "pte_of (mem s') r w = (if w div PAGE_SIZE = va div PAGE_SIZE then Some (leaf_pte f perm) else pte_of (mem s) r w)"
    if "w < VA_MAX" for w using p user_page_pte [OF va(1) that] by simp
  note pv = p' [OF user_va_max]
  have lf: "pte_to_pa (leaf_pte f perm) = f" by (rule leaf_pte_pa [OF fp perm(1)])
  have nva: "w div PAGE_SIZE \<noteq> va div PAGE_SIZE" if "user_va w" "pte_of (mem s) r w = Some e" for w e
    using that(2) va(3) pte_of_page [of w va "mem s" r] by auto
  have uf: "uframes (mem s') r = insert f (uframes (mem s) r)"
    unfolding uframes_def using pv nva lf va(1) by (auto split: if_splits) metis+
  have "aspace L kr r s'"
  proof (rule aspaceI [OF g'(1) e])
    show "utabs (mem s') r \<inter> tabs (mem s') kr = {}" using ut F(2) Q(2) by simp
    have "tabs (mem s') r \<subseteq> utabs (mem s) r \<union> set new \<union> tabs (mem s) kr" using tabs_split [of "mem s'" r kr] e ut F(2) by blast
    then show "alloc_page L x \<and> x \<notin> set (free_list s') \<and> x \<notin> tabs (mem s') r \<and> x \<notin> tabs (mem s') kr"
      if "x \<in> uframes (mem s') r" for x
      using that D(4-7) [of x] f g'(2) fr F(2) utabs_tabs [of "mem s" r] unfolding uf by auto
    show "w div PAGE_SIZE = w' div PAGE_SIZE"
      if "user_va w" "user_va w'" "pte_of (mem s') r w = Some e" "pte_of (mem s') r w' = Some e'" "pte_to_pa e = pte_to_pa e'"
      for w w' e e'
      using that f(5) lf D(8) [of w w' e e'] pv [of w] pv [of w'] unfolding uframes_def by (auto split: if_splits)
    show "user_pte e" if "user_va w" "pte_of (mem s') r w = Some e" for w e
      using that pv [of w] D(9) [of w e] perm leaf_pte_flags(2) [OF perm(1), of 4 f] leaf_pte_flags(2) [OF perm(1), of 1 f]
        by (auto simp: user_pte_bits split: if_splits)
  qed simp_all
  moreover have "perm AND PERM_MASK \<noteq> 0"
  proof
    assume "perm AND PERM_MASK = 0"
    then have "bit (perm AND PERM_MASK) 4 = bit (0::nat) 4" by (rule arg_cong)
    then show False using perm(2) by (simp add: bit_and_iff bit_PERM_MASK user_pte_bits)
  qed
  moreover from this have "map_pages r va f PAGE_SIZE perm s = Ok s'"
    using run va(2) fp(1) page_offsets_aligned [of PAGE_SIZE]
    by (simp add: map_pages_def page_aligned_def is_multiple_of_iff PAGE_SIZE_def mod_eq_0_iff_dvd)
  ultimately show thesis using that g'(2) l F ut uf p' ch mt missing_0_iff by blast
qed

end
