(* ===== verification/Uspace.thy ===== *)
theory Uspace
  imports Uservm
begin

text \<open>
  What a process sees of its address space.  \<open>uview\<close> abstracts a page table to the user's memory: the
  permissions and the byte at each user address.  The operations on page tables refine operations on
  views: mapping a page adds it, \<open>free_user_table\<close> (\<open>src/src/vm.rs\<close>) gives back exactly the pages the
  space owns, and \<open>clone_user_table\<close> makes a space with the same view in pages of its own.
\<close>

section \<open>Views\<close>

definition uview :: "memory \<Rightarrow> usize \<Rightarrow> usize \<Rightarrow> (usize \<times> u8) option" where
  "uview m r va = (if user_va va
     then map_option (\<lambda>e. (e AND PERM_MASK, m (pte_to_pa e + va mod PAGE_SIZE))) (pte_of m r va) else None)"

definition owned :: "memory \<Rightarrow> usize \<Rightarrow> usize set" where
  "owned m r = utabs m r \<union> uframes m r"

lemma uframesI: "user_va va \<Longrightarrow> pte_of m r va = Some e \<Longrightarrow> pte_to_pa e \<in> uframes m r"
  unfolding uframes_def by blast

lemma outside_page:
  assumes "\<And>a. m' a \<noteq> m a \<Longrightarrow> in_pages a P" and "f \<notin> P" and "page_aligned f" and "\<forall>p\<in>P. page_aligned p" and "k < PAGE_SIZE"
  shows "m' (f + k) = m (f + k)"
proof (rule ccontr)
  assume "m' (f + k) \<noteq> m (f + k)"
  then obtain p where p: "p \<in> P" "p \<le> f + k" "f + k < p + PAGE_SIZE" using assms(1) by (auto simp: in_pages_def)
  then have "p \<noteq> f" "page_aligned p" using assms(2,4) by auto
  with pages_disjoint [OF assms(3) this(2), of "f + k"] p assms(5) show False by auto
qed

lemma uview_same:
  assumes "\<And>va. pte_of m' r va = pte_of m r va" and "\<And>a. m' a \<noteq> m a \<Longrightarrow> in_pages a P" and "\<forall>p\<in>P. page_aligned p"
    and "P \<inter> uframes m r = {}"
  shows "uview m' r va = uview m r va"
proof (cases "user_va va \<and> pte_of m r va \<noteq> None")
  case True
  then obtain e where e: "user_va va" "pte_of m r va = Some e" by blast
  have np: "pte_to_pa e \<notin> P" using uframesI [OF e] assms(4) by blast
  have "m' (pte_to_pa e + va mod PAGE_SIZE) = m (pte_to_pa e + va mod PAGE_SIZE)"
    by (rule outside_page [OF assms(2) np page_aligned_pte_to_pa assms(3)]) (simp_all add: PAGE_SIZE_def)
  with e assms(1) show ?thesis by (simp add: uview_def)
qed (auto simp: uview_def assms(1))

text \<open>A step that writes only to pages the space does not own, and frees none of them, is invisible to it.\<close>

lemma aspace_other:
  assumes "aspace L kr r s" and "kspace L kr s" and "kalloc_inv L s'" and "\<And>a. mem s' a \<noteq> mem s a \<Longrightarrow> in_pages a P"
    and "\<forall>p\<in>P. page_aligned p" and "P \<inter> (owned (mem s) r \<union> tabs (mem s) kr) = {}"
    and "set (free_list s') \<inter> (owned (mem s) r \<union> tabs (mem s) kr) = {}"
  shows "aspace L kr r s'" "kspace L kr s'" "owned (mem s') r = owned (mem s) r" "tabs (mem s') kr = tabs (mem s) kr"
    "pte_of (mem s') r va = pte_of (mem s) r va" "uview (mem s') r va = uview (mem s) r va"
    "utabs (mem s') r = utabs (mem s) r" "missing (mem s') r va = missing (mem s) r va"
proof -
  have d: "P \<inter> (utabs (mem s) r \<union> tabs (mem s) kr) = {}" "P \<inter> uframes (mem s) r = {}"
    "set (free_list s') \<inter> (utabs (mem s) r \<union> tabs (mem s) kr \<union> uframes (mem s) r) = {}"
    using assms(6,7) by (auto simp: owned_def)
  note F = aspace_pages [OF assms(1-5) d(1,3)]
  show "aspace L kr r s'" "kspace L kr s'" "owned (mem s') r = owned (mem s) r" "tabs (mem s') kr = tabs (mem s) kr"
    "pte_of (mem s') r va = pte_of (mem s) r va" "utabs (mem s') r = utabs (mem s) r"
    "missing (mem s') r va = missing (mem s) r va" using F by (simp_all add: owned_def)
  show "uview (mem s') r va = uview (mem s) r va" by (rule uview_same [OF F(7) assms(4,5) d(2)])
qed

lemma owned_free:
  assumes "aspace L kr r s" and "kspace L kr s"
  shows "set (free_list s) \<inter> (owned (mem s) r \<union> tabs (mem s) kr) = {}" "owned (mem s) r \<inter> tabs (mem s) kr = {}"
    "p \<in> owned (mem s) r \<Longrightarrow> alloc_page L p" "p \<in> owned (mem s) r \<Longrightarrow> page_aligned p" "r \<in> owned (mem s) r"
proof -
  note D = aspaceD [OF assms(1)]
  show "set (free_list s) \<inter> (owned (mem s) r \<union> tabs (mem s) kr) = {}" using aspace_free [OF assms] by (auto simp: owned_def)
  show "owned (mem s) r \<inter> tabs (mem s) kr = {}" using D(3,7) by (auto simp: owned_def)
  show "alloc_page L p" if "p \<in> owned (mem s) r"
    using that D(1,4) utabs_tabs [of "mem s" r] by (auto simp: owned_def vm_inv_def pt_wf_def)
  then show "page_aligned p" if "p \<in> owned (mem s) r" using that alloc_page_aligned by blast
  show "r \<in> owned (mem s) r" by (simp add: owned_def root_utabs)
qed

lemma leaf_perm:
  assumes "perm < 32"
  shows "leaf_pte f perm AND PERM_MASK = perm AND PERM_MASK"
proof (rule bit_eqI)
  fix i
  show "bit (leaf_pte f perm AND PERM_MASK) i = bit (perm AND PERM_MASK) i"
    using leaf_pte_flags(2) [OF assms, of i f] by (auto simp: bit_and_iff bit_PERM_MASK)
qed

text \<open>Mapping a frame adds its page to the view and changes nothing else of it.\<close>

lemma map_user_view:
  assumes A: "aspace L kr r s" and K: "kspace L kr s" and va: "user_va va" "page_aligned va" "pte_of (mem s) r va = None"
    and room: "missing (mem s) r va \<le> length (free_list s)" and perm: "perm < 32" "user_pte perm"
    and f: "alloc_page L f" "f \<notin> set (free_list s)" "f \<notin> owned (mem s) r" "f \<notin> tabs (mem s) kr"
  obtains new s' where "map_pages r va f PAGE_SIZE perm s = Ok s'" and "free_list s = new @ free_list s'"
    and "length new = missing (mem s) r va" and "aspace L kr r s'" and "kspace L kr s'"
    and "owned (mem s') r = owned (mem s) r \<union> set new \<union> {f}" and "tabs (mem s') kr = tabs (mem s) kr"
    and "\<And>w. uview (mem s') r w = (if w div PAGE_SIZE = va div PAGE_SIZE
      then Some (perm AND PERM_MASK, mem s (f + w mod PAGE_SIZE)) else uview (mem s) r w)"
    and "\<And>w. w < VA_MAX \<Longrightarrow> pte_of (mem s') r w =
      (if w div PAGE_SIZE = va div PAGE_SIZE then Some (leaf_pte f perm) else pte_of (mem s) r w)"
    and "\<And>a. mem s' a \<noteq> mem s a \<Longrightarrow> in_pages a (utabs (mem s) r \<union> set new)" and "missing (mem s') r va = 0"
proof -
  have f': "f \<notin> utabs (mem s) r" "f \<notin> uframes (mem s) r" using f(3) by (simp_all add: owned_def)
  obtain new s' where s': "map_pages r va f PAGE_SIZE perm s = Ok s'" "free_list s = new @ free_list s'"
    "length new = missing (mem s) r va" "aspace L kr r s'" "kspace L kr s'"
    "utabs (mem s') r = utabs (mem s) r \<union> set new" "uframes (mem s') r = insert f (uframes (mem s) r)"
    "tabs (mem s') kr = tabs (mem s) kr" "\<And>w. pte_of (mem s') kr w = pte_of (mem s) kr w"
    and p: "\<And>w. w < VA_MAX \<Longrightarrow> pte_of (mem s') r w =
      (if w div PAGE_SIZE = va div PAGE_SIZE then Some (leaf_pte f perm) else pte_of (mem s) r w)"
    and ch: "\<And>a. mem s' a \<noteq> mem s a \<Longrightarrow> in_pages a (utabs (mem s) r \<union> set new)" "missing (mem s') r va = 0"
    by (rule map_user [OF A K va room perm f(1,2) f'(1) f(4) f'(2)]) (rule that)
  let ?P = "utabs (mem s) r \<union> set new"
  have P: "\<forall>p\<in>?P. page_aligned p" using owned_free(4) [OF A K] free_aligned [OF kspaceD(2) [OF K]] s'(2) by (auto simp: owned_def)
  have fr: "x \<notin> ?P" if "x \<in> insert f (uframes (mem s) r)" for x
    using that f f' s'(2) aspaceD(5,6) [OF A] utabs_tabs [of "mem s" r] by auto
  have keep: "mem s' (x + k) = mem s (x + k)" if "x \<in> insert f (uframes (mem s) r)" "page_aligned x" "k < PAGE_SIZE" for x k
    by (rule outside_page [OF ch(1) fr [OF that(1)] that(2) P that(3)])
  have o: "w mod PAGE_SIZE < PAGE_SIZE" for w by (simp add: PAGE_SIZE_def)
  have "uview (mem s') r w = (if w div PAGE_SIZE = va div PAGE_SIZE
      then Some (perm AND PERM_MASK, mem s (f + w mod PAGE_SIZE)) else uview (mem s) r w)" for w
  proof (cases "user_va w")
    case True
    note pw = p [OF user_va_max [OF True]]
    have fa: "page_aligned f" "f \<le> usize_max" using alloc_page_aligned [OF f(1)] alloc_page_le_usize [OF f(1)] .
    show ?thesis
    proof (cases "w div PAGE_SIZE = va div PAGE_SIZE")
      case same: True
      then show ?thesis using True pw keep [of f, OF _ fa(1) o] by (simp add: uview_def leaf_perm [OF perm(1)] leaf_pte_pa [OF fa perm(1)])
    next
      case False
      then show ?thesis using True pw keep [OF _ page_aligned_pte_to_pa o] uframesI [OF True, of "mem s" r]
        by (cases "pte_of (mem s) r w") (simp_all add: uview_def)
    qed
  next
    case False
    then show ?thesis using user_va_page [OF va(1), of w] by (auto simp: uview_def)
  qed
  moreover have "owned (mem s') r = owned (mem s) r \<union> set new \<union> {f}" using s'(6,7) by (auto simp: owned_def)
  ultimately show thesis using that s' p ch by blast
qed

text \<open>
  Taking a frame from the allocator, filling it with bytes, and mapping it: what \<open>load_user_image\<close>,
  \<open>clone_user_table\<close> and \<open>service_page_fault\<close> do for each page.
\<close>

lemma map_fresh:
  assumes A: "aspace L kr r s" and K: "kspace L kr s" and fl: "free_list s = f # ps"
    and al: "kalloc_alloc s = Ok (Some f, s1)" and ch1: "\<And>a. m a \<noteq> mem s1 a \<Longrightarrow> in_pages a {f}"
    and va: "user_va va" "page_aligned va" "pte_of (mem s) r va = None"
    and room: "missing (mem s) r va \<le> length ps" and perm: "perm < 32" "user_pte perm"
  obtains new s' where "map_pages r va f PAGE_SIZE perm (s1\<lparr>mem := m\<rparr>) = Ok s'" and "ps = new @ free_list s'"
    and "length new = missing (mem s) r va" and "aspace L kr r s'" and "kspace L kr s'"
    and "owned (mem s') r = owned (mem s) r \<union> set (f # new)" and "tabs (mem s') kr = tabs (mem s) kr"
    and "\<And>w. uview (mem s') r w = (if w div PAGE_SIZE = va div PAGE_SIZE
      then Some (perm AND PERM_MASK, m (f + w mod PAGE_SIZE)) else uview (mem s) r w)"
    and "\<And>w. w < VA_MAX \<Longrightarrow> pte_of (mem s') r w =
      (if w div PAGE_SIZE = va div PAGE_SIZE then Some (leaf_pte f perm) else pte_of (mem s) r w)"
    and "\<And>a. mem s' a \<noteq> mem s a \<Longrightarrow> in_pages a (utabs (mem s) r \<union> set (f # new))" and "missing (mem s') r va = 0"
    and "mem s1 = write_bytes (mem s) f 0 PAGE_SIZE"
proof -
  note S = kmem.allocate_SomeD [OF kspaceD(2) [OF K] al]
  define s2 where "s2 = s1\<lparr>mem := m\<rparr>"
  have fl1: "free_list s1 = ps" using S(1) fl by simp
  have fa: "page_aligned f" using S(3) by (rule alloc_page_aligned)
  have fn: "f \<notin> owned (mem s) r" "f \<notin> tabs (mem s) kr" using owned_free(1) [OF A K] fl by auto
  have ch2: "in_pages a {f}" if "mem s2 a \<noteq> mem s a" for a
    using that ch1 [of a] write_bytes_outside [of a f "mem s" 0] unfolding s2_def S(5) by force
  have fl2: "free_list s2 = ps" and k2: "kalloc_inv L s2"
    using kalloc_frame_pages [OF S(2) ch1] S(4) fa fl1 by (simp_all add: s2_def)
  have d: "\<forall>q\<in>{f}. page_aligned q" "{f} \<inter> (owned (mem s) r \<union> tabs (mem s) kr) = {}"
    "set (free_list s2) \<inter> (owned (mem s) r \<union> tabs (mem s) kr) = {}"
    using fa fn owned_free(1) [OF A K] fl fl2 by auto
  have F: "aspace L kr r s2" "kspace L kr s2" "owned (mem s2) r = owned (mem s) r" "tabs (mem s2) kr = tabs (mem s) kr"
    "\<And>va. pte_of (mem s2) r va = pte_of (mem s) r va" "\<And>va. uview (mem s2) r va = uview (mem s) r va"
    "utabs (mem s2) r = utabs (mem s) r" "\<And>va. missing (mem s2) r va = missing (mem s) r va"
    using aspace_other [OF A K k2 ch2 d] by blast+
  have G: "pte_of (mem s2) r va = None" "missing (mem s2) r va \<le> length (free_list s2)"
    "f \<notin> set (free_list s2)" "f \<notin> owned (mem s2) r" "f \<notin> tabs (mem s2) kr"
    using va(3) room F fl1 fl2 S(4) fn by simp_all
  obtain new s' where s': "map_pages r va f PAGE_SIZE perm s2 = Ok s'" "free_list s2 = new @ free_list s'"
    "length new = missing (mem s2) r va" "aspace L kr r s'" "kspace L kr s'"
    "owned (mem s') r = owned (mem s2) r \<union> set new \<union> {f}" "tabs (mem s') kr = tabs (mem s2) kr"
    and v: "\<And>w. uview (mem s') r w = (if w div PAGE_SIZE = va div PAGE_SIZE
      then Some (perm AND PERM_MASK, mem s2 (f + w mod PAGE_SIZE)) else uview (mem s2) r w)"
    and p: "\<And>w. w < VA_MAX \<Longrightarrow> pte_of (mem s') r w =
      (if w div PAGE_SIZE = va div PAGE_SIZE then Some (leaf_pte f perm) else pte_of (mem s2) r w)"
    and ch: "\<And>a. mem s' a \<noteq> mem s2 a \<Longrightarrow> in_pages a (utabs (mem s2) r \<union> set new)" and mi: "missing (mem s') r va = 0"
    by (rule map_user_view [OF F(1,2) va(1,2) G(1,2) perm S(3) G(3-5)]) (rule that)
  have all: "in_pages a (utabs (mem s) r \<union> set (f # new))" if "mem s' a \<noteq> mem s a" for a
  proof -
    have "in_pages a (utabs (mem s) r \<union> set new) \<or> in_pages a {f}" using that ch [of a] ch2 [of a] F(7) by force
    then show ?thesis by (auto simp: in_pages_def)
  qed
  show thesis
  proof (rule that [OF s'(1) [unfolded s2_def]])
    show "ps = new @ free_list s'" "length new = missing (mem s) r va" using s'(2,3) fl2 F(8) by simp_all
    show "owned (mem s') r = owned (mem s) r \<union> set (f # new)" using s'(6) F(3) by auto
    show "\<And>w. uview (mem s') r w = (if w div PAGE_SIZE = va div PAGE_SIZE
      then Some (perm AND PERM_MASK, m (f + w mod PAGE_SIZE)) else uview (mem s) r w)" using v F(6) by (simp add: s2_def)
  qed (use s'(4,5,7) F(4,5) p all mi S(5) in simp_all)
qed

text \<open>
  A space under construction: since \<open>s0\<close> the pages \<open>used\<close> were taken from the free list, they are
  what the space owns, and nothing else was written.
\<close>

definition grown :: "layout \<Rightarrow> usize \<Rightarrow> usize \<Rightarrow> phys \<Rightarrow> usize list \<Rightarrow> phys \<Rightarrow> bool" where
  "grown L kr r s0 used s \<longleftrightarrow>
     aspace L kr r s \<and> kspace L kr s \<and> free_list s0 = used @ free_list s \<and> owned (mem s) r = set used \<and>
     tabs (mem s) kr = tabs (mem s0) kr \<and> (\<forall>a. mem s a \<noteq> mem s0 a \<longrightarrow> in_pages a (set used))"

lemma grownD:
  assumes "grown L kr r s0 used s"
  shows "aspace L kr r s" "kspace L kr s" "free_list s0 = used @ free_list s" "owned (mem s) r = set used"
    "tabs (mem s) kr = tabs (mem s0) kr" "\<And>a. mem s a \<noteq> mem s0 a \<Longrightarrow> in_pages a (set used)"
  using assms unfolding grown_def by blast+

lemma grown_make:
  assumes K: "kspace L kr s" and fl: "free_list s = r # ps"
  obtains s1 where "make_user_table kr s = Ok (r, s1)" and "grown L kr r s [r] s1" and "\<And>w. uview (mem s1) r w = None"
    and "sub (mem s1) r 1 = None" and "\<And>w. user_va w \<Longrightarrow> pte_of (mem s1) r w = None"
proof -
  obtain s1 where s1: "make_user_table kr s = Ok (r, s1)" "free_list s1 = ps" "aspace L kr r s1" "kspace L kr s1"
    "utabs (mem s1) r = {r}" "uframes (mem s1) r = {}" "tabs (mem s1) kr = tabs (mem s) kr"
    and ch: "\<And>a. mem s1 a \<noteq> mem s a \<Longrightarrow> in_pages a {r}" by (rule make_user_table_run [OF K fl]) (rule that)
  have un: "pte_of (mem s1) r w = None" if "user_va w" for w
    using uframesI [OF that, of "mem s1" r] s1(6) by (cases "pte_of (mem s1) r w") auto
  have "sub (mem s1) r 1 = None"
  proof (cases "sub (mem s1) r 1")
    case (Some t)
    then have "t = r" using s1(5) utabsI [of "[1]" "mem s1" r t] by (simp add: path_ok_def)
    moreover have "pt_wf L (mem s1) r" using aspaceD(1) [OF s1(3)] by (simp add: vm_inv_def)
    ultimately show ?thesis using pt_wf_inj [of L "mem s1" r "[1]" "[]" r] Some by (simp add: path_ok_def)
  qed
  moreover have "grown L kr r s [r] s1" using s1 ch fl unfolding grown_def by (simp add: owned_def)
  ultimately show thesis using s1(1) un by (intro that [of s1]) (simp_all add: uview_def)
qed

lemma grown_map:
  assumes G: "grown L kr r s0 used s" and fl: "free_list s = f # ps"
    and al: "kalloc_alloc s = Ok (Some f, s1)" and ch1: "\<And>a. m a \<noteq> mem s1 a \<Longrightarrow> in_pages a {f}"
    and va: "user_va va" "page_aligned va" "uview (mem s) r va = None"
    and room: "missing (mem s) r va \<le> length ps" and perm: "perm < 32" "user_pte perm"
  obtains new s' where "map_pages r va f PAGE_SIZE perm (s1\<lparr>mem := m\<rparr>) = Ok s'" and "grown L kr r s0 (used @ f # new) s'"
    and "length new = missing (mem s) r va" and "ps = new @ free_list s'"
    and "\<And>w. uview (mem s') r w = (if w div PAGE_SIZE = va div PAGE_SIZE
      then Some (perm AND PERM_MASK, m (f + w mod PAGE_SIZE)) else uview (mem s) r w)"
    and "missing (mem s') r va = 0" and "mem s1 = write_bytes (mem s) f 0 PAGE_SIZE"
proof -
  note D = grownD [OF G]
  have un: "pte_of (mem s) r va = None" using va(1,3) by (simp add: uview_def)
  obtain new s' where s': "map_pages r va f PAGE_SIZE perm (s1\<lparr>mem := m\<rparr>) = Ok s'"
    "ps = new @ free_list s'" "length new = missing (mem s) r va" "aspace L kr r s'" "kspace L kr s'"
    "owned (mem s') r = owned (mem s) r \<union> set (f # new)" "tabs (mem s') kr = tabs (mem s) kr"
    and v: "\<And>w. uview (mem s') r w = (if w div PAGE_SIZE = va div PAGE_SIZE
      then Some (perm AND PERM_MASK, m (f + w mod PAGE_SIZE)) else uview (mem s) r w)"
    and ch: "\<And>a. mem s' a \<noteq> mem s a \<Longrightarrow> in_pages a (utabs (mem s) r \<union> set (f # new))"
    and mi: "missing (mem s') r va = 0" "mem s1 = write_bytes (mem s) f 0 PAGE_SIZE"
    by (rule map_fresh [OF D(1,2) fl al ch1 va(1,2) un room perm]) (assumption, rule that)
  have "in_pages a (set (used @ f # new))" if "mem s' a \<noteq> mem s0 a" for a
  proof -
    have "in_pages a (utabs (mem s) r \<union> set (f # new)) \<or> in_pages a (set used)" using that ch [of a] D(6) [of a] by force
    moreover have "utabs (mem s) r \<subseteq> set used" using D(4) by (auto simp: owned_def)
    ultimately show ?thesis by (auto simp: in_pages_def)
  qed
  moreover have "owned (mem s') r = set (used @ f # new)" using s'(6) D(4) by auto
  ultimately have "grown L kr r s0 (used @ f # new) s'" using s' D(3,5) fl unfolding grown_def by simp
  with s'(1-3) v mi show thesis by (intro that [of s' new])
qed

section \<open>The pages of the user slot\<close>

text \<open>The address of entry \<open>j\<close> of the \<open>i\<close>-th table below the user slot.\<close>

definition uva :: "nat \<Rightarrow> nat \<Rightarrow> usize" where
  "uva i j = 2 ^ 30 + i * 2 ^ 21 + j * 2 ^ 12"

lemma uva_props:
  assumes "i < 512" and "j < 512"
  shows "user_va (uva i j)" "page_aligned (uva i j)" "vpn (uva i j) 2 = 1" "vpn (uva i j) 1 = i" "vpn (uva i j) 0 = j"
proof -
  have "uva i j = 2 ^ 12 * (j + 512 * (i + 512 * 1))" by (simp add: uva_def)
  then have d: "uva i j div PAGE_SIZE = j + 512 * (i + 512 * 1)" and m: "page_aligned (uva i j)"
    by (simp_all add: PAGE_SIZE_def page_aligned_def)
  show "user_va (uva i j)" using assms by (simp add: user_va_def uva_def)
  show "page_aligned (uva i j)" by (rule m)
  have q: "(k + 512 * x) div 512 = x" "(k + 512 * x) mod 512 = k" if "k < 512" for k x :: nat using that by simp_all
  show "vpn (uva i j) 2 = 1" "vpn (uva i j) 1 = i" "vpn (uva i j) 0 = j"
    unfolding vpn_levels d q [OF assms(2)] q [OF assms(1)] by simp_all
qed

lemma or_shifted:
  assumes "(x :: nat) < 2 ^ n"
  shows "y * 2 ^ n OR x = y * 2 ^ n + x"
proof -
  have "y * 2 ^ n AND x = 0"
  proof (rule bit_eqI)
    fix i
    have "bit (take_bit n x) i \<Longrightarrow> i < n" by (simp add: bit_take_bit_iff)
    then have "bit x i \<Longrightarrow> i < n" using assms by (simp add: take_bit_nat_eq_self)
    then show "bit (y * 2 ^ n AND x) i = bit 0 i"
      by (auto simp: bit_and_iff bit_push_bit_iff_nat simp flip: push_bit_eq_mult)
  qed
  then show ?thesis by (simp add: disjunctive_add_eq_or)
qed

lemma clone_va:
  assumes "i < 512" and "j < 512"
  shows "ushl USER_L2_INDEX 30 OR ushl i 21 OR ushl j 12 = uva i j"
proof -
  have s: "ushl USER_L2_INDEX 30 = 512 * 2 ^ 21" "ushl i 21 = i * 2 ^ 21" "ushl j 12 = j * 2 ^ 12"
    using assms by (simp_all add: ushl_def USER_L2_INDEX_eq push_bit_eq_mult take_bit_eq_mod)
  have "i * 2 ^ 21 < 2 ^ (30::nat)" "j * 2 ^ 12 < 2 ^ (21 :: nat)" using assms by simp_all
  then show ?thesis
    using or_shifted [of "i * 2 ^ 21" 30 1] or_shifted [of "j * 2 ^ 12" 21 "512 + i"]
    unfolding s or.assoc [symmetric] by (simp add: uva_def algebra_simps)
qed

lemma pte_of_uva:
  assumes "user_va va"
  shows "pte_of m r va = pte_of m r (uva (vpn va 1) (vpn va 0))"
  unfolding pte_of_def va_path_def user_va_vpn [OF assms] uva_props [OF vpn_less vpn_less] ..

section \<open>Freeing an address space\<close>

definition freed :: "layout \<Rightarrow> usize list \<Rightarrow> phys \<Rightarrow> phys \<Rightarrow> bool" where
  "freed L ps s s' \<longleftrightarrow> kalloc_inv L s' \<and> free_list s' = ps @ free_list s \<and>
     (\<forall>a. mem s' a \<noteq> mem s a \<longrightarrow> in_pages a (set ps))"

lemma freed_refl: "kalloc_inv L s \<Longrightarrow> freed L [] s s"
  by (simp add: freed_def)

lemma freed_trans: "freed L ps s s' \<Longrightarrow> freed L qs s' s'' \<Longrightarrow> freed L (qs @ ps) s s''"
  unfolding freed_def in_pages_def by (metis UnI1 UnI2 append.assoc set_append)

lemma freed_one:
  assumes "kalloc_inv L s" and "alloc_page L p" and "p \<notin> set (free_list s)"
  obtains s' where "kalloc_free L p s = Ok s'" and "freed L [p] s s'"
proof -
  from kmem.release_push [OF assms] obtain s' where "kalloc_free L p s = Ok s'" "kalloc_inv L s'"
    "free_list s' = p # free_list s" "\<forall>a. \<not> (p \<le> a \<and> a < p + PAGE_SIZE) \<longrightarrow> mem s' a = mem s a" by blast
  then have "freed L [p] s s'" unfolding freed_def in_pages_def by auto
  with \<open>kalloc_free L p s = Ok s'\<close> show thesis by (rule that)
qed

lemma freed_aligned: "freed L ps s s' \<Longrightarrow> \<forall>p\<in>set ps. page_aligned p"
  using free_aligned [of L s'] by (auto simp: freed_def)

lemma freed_sub:
  assumes "freed L ps s s'" and "page_aligned t" and "t \<notin> set ps" and "i < 512"
  shows "ent (mem s') t i = ent (mem s) t i" "sub (mem s') t i = sub (mem s) t i"
proof -
  show "ent (mem s') t i = ent (mem s) t i"
    using assms freed_aligned [OF assms(1)] by (intro ent_same [where P = "set ps"]) (auto simp: freed_def)
  then show "sub (mem s') t i = sub (mem s) t i" by (rule sub_cong)
qed

text \<open>The pages that the entries \<open>is\<close> of a table point to.\<close>

definition kids :: "memory \<Rightarrow> usize \<Rightarrow> nat list \<Rightarrow> usize set" where
  "kids m t is = {p. \<exists>i\<in>set is. sub m t i = Some p}"

lemma kids_Cons: "kids m t (i # is) = set_option (sub m t i) \<union> kids m t is"
  by (auto simp: kids_def)

lemma kids_cong: "(\<And>i. i \<in> set is \<Longrightarrow> sub m' t i = sub m t i) \<Longrightarrow> kids m' t is = kids m t is"
  by (auto simp: kids_def)

lemma free_leaves_run:
  assumes "kalloc_inv L s" and "page_aligned t" and "distinct js" and "set js \<subseteq> {..<512}"
    and "\<And>p. p \<in> kids (mem s) t js \<Longrightarrow> alloc_page L p \<and> p \<notin> set (free_list s) \<and> p \<noteq> t"
    and "\<And>i j p. i \<in> set js \<Longrightarrow> j \<in> set js \<Longrightarrow> sub (mem s) t i = Some p \<Longrightarrow> sub (mem s) t j = Some p \<Longrightarrow> i = j"
  shows "\<exists>s' ps. free_leaves L t js s = Ok s' \<and> freed L ps s s' \<and> set ps = kids (mem s) t js"
  using assms
proof (induction js arbitrary: s)
  case Nil
  then show ?case using freed_refl [OF Nil(1)] by (intro exI [of _ s] exI [of _ "[]"]) (simp add: kids_def)
next
  case (Cons j js)
  show ?case
  proof (cases "sub (mem s) t j")
    case None
    from Cons.IH [OF Cons.prems(1,2)] Cons.prems(3-6) None obtain s' ps where
      "free_leaves L t js s = Ok s'" "freed L ps s s'" "set ps = kids (mem s) t js" by (auto simp: kids_Cons)
    moreover have "ent (mem s) t j AND PTE_V = 0" using None by (auto simp: sub_def split: if_splits)
    ultimately show ?thesis using None by (intro exI [of _ s'] exI [of _ ps]) (simp add: kids_Cons)
  next
    case (Some p)
    have e: "ent (mem s) t j AND PTE_V \<noteq> 0" "pte_to_pa (ent (mem s) t j) = p" using Some by (auto simp: sub_def split: if_splits)
    have p: "alloc_page L p" "p \<notin> set (free_list s)" "p \<noteq> t" using Cons.prems(5) [of p] Some by (simp_all add: kids_Cons)
    obtain s1 where s1: "kalloc_free L p s = Ok s1" "freed L [p] s s1" by (rule freed_one [OF Cons.prems(1) p(1,2)])
    have same: "sub (mem s1) t i = sub (mem s) t i" if "i \<in> set js" for i
      using freed_sub(2) [OF s1(2) Cons.prems(2)] p(3) that Cons.prems(4) by auto
    then have k: "kids (mem s1) t js = kids (mem s) t js" by (rule kids_cong)
    have np: "p \<notin> kids (mem s) t js" using Cons.prems(3,6) Some by (auto simp: kids_def)
    have f1: "kalloc_inv L s1" "free_list s1 = p # free_list s" using s1(2) by (simp_all add: freed_def)
    have "\<exists>s' ps. free_leaves L t js s1 = Ok s' \<and> freed L ps s1 s' \<and> set ps = kids (mem s1) t js"
    proof (rule Cons.IH [OF f1(1) Cons.prems(2)])
      show "alloc_page L q \<and> q \<notin> set (free_list s1) \<and> q \<noteq> t" if "q \<in> kids (mem s1) t js" for q
        using Cons.prems(5) [of q] that np unfolding k f1(2) by (auto simp: kids_Cons)
      show "i = i'" if "i \<in> set js" "i' \<in> set js" "sub (mem s1) t i = Some q" "sub (mem s1) t i' = Some q" for i i' q
        using Cons.prems(6) [of i i' q] that same by simp
    qed (use Cons.prems in simp_all)
    then obtain s' ps where "free_leaves L t js s1 = Ok s'" "freed L ps s1 s'" "set ps = kids (mem s) t js" using k by auto
    then show ?thesis using e s1 freed_trans [OF s1(2), of ps s'] Some
      by (intro exI [of _ s'] exI [of _ "ps @ [p]"]) (simp add: kids_Cons)
  qed
qed

text \<open>A bottom table with the frames it maps.\<close>

definition grp :: "memory \<Rightarrow> usize \<Rightarrow> usize set" where
  "grp m t = insert t (kids m t [0..<512])"

definition group_ok :: "layout \<Rightarrow> phys \<Rightarrow> usize \<Rightarrow> bool" where
  "group_ok L s t \<longleftrightarrow> (\<forall>p\<in>grp (mem s) t. alloc_page L p \<and> p \<notin> set (free_list s)) \<and> t \<notin> kids (mem s) t [0..<512] \<and>
     (\<forall>i<512. \<forall>j<512. \<forall>p. sub (mem s) t i = Some p \<longrightarrow> sub (mem s) t j = Some p \<longrightarrow> i = j)"

lemma group_aligned: "group_ok L s t \<Longrightarrow> page_aligned t"
  by (auto simp: group_ok_def grp_def alloc_page_def)

lemma freed_group:
  assumes "freed L ps s s'" and "group_ok L s t" and "set ps \<inter> grp (mem s) t = {}"
  shows "grp (mem s') t = grp (mem s) t" "group_ok L s' t"
proof -
  have "t \<notin> set ps" using assms(3) by (auto simp: grp_def)
  then have e: "sub (mem s') t i = sub (mem s) t i" if "i < 512" for i
    using freed_sub(2) [OF assms(1) group_aligned [OF assms(2)]] that by blast
  then have k: "kids (mem s') t [0..<512] = kids (mem s) t [0..<512]" by (intro kids_cong) simp
  then show g: "grp (mem s') t = grp (mem s) t" by (simp add: grp_def)
  show "group_ok L s' t" using assms e unfolding group_ok_def g k by (auto simp: freed_def)
qed

lemma free_group:
  assumes "kalloc_inv L s" and "group_ok L s t"
  shows "\<exists>s' ps. bindR (free_leaves L t [0..<512] s) (kalloc_free L t) = Ok s' \<and> freed L ps s s' \<and> set ps = grp (mem s) t"
proof -
  have "\<exists>s' ps. free_leaves L t [0..<512] s = Ok s' \<and> freed L ps s s' \<and> set ps = kids (mem s) t [0..<512]"
    using assms(2) group_aligned [OF assms(2)] by (intro free_leaves_run [OF assms(1)]) (auto simp: group_ok_def grp_def)
  then obtain s1 ps where s1: "free_leaves L t [0..<512] s = Ok s1" "freed L ps s s1" "set ps = kids (mem s) t [0..<512]" by blast
  have "kalloc_inv L s1" "alloc_page L t" "t \<notin> set (free_list s1)"
    using s1(2,3) assms(2) by (auto simp: freed_def group_ok_def grp_def)
  then obtain s' where "kalloc_free L t s1 = Ok s'" "freed L [t] s1 s'" by (rule freed_one)
  with s1 freed_trans [OF s1(2), of "[t]" s'] show ?thesis
    by (intro exI [of _ s'] exI [of _ "[t] @ ps"]) (simp add: grp_def)
qed

lemma free_l0s_run:
  assumes "kalloc_inv L s" and "page_aligned l1" and "distinct is" and "set is \<subseteq> {..<512}"
    and "\<And>i t. i \<in> set is \<Longrightarrow> sub (mem s) l1 i = Some t \<Longrightarrow> group_ok L s t \<and> l1 \<notin> grp (mem s) t"
    and "\<And>i j t u. i \<in> set is \<Longrightarrow> j \<in> set is \<Longrightarrow> i \<noteq> j \<Longrightarrow> sub (mem s) l1 i = Some t \<Longrightarrow> sub (mem s) l1 j = Some u \<Longrightarrow>
      grp (mem s) t \<inter> grp (mem s) u = {}"
  shows "\<exists>s' ps. free_l0s L l1 is s = Ok s' \<and> freed L ps s s' \<and> set ps = (\<Union>t\<in>kids (mem s) l1 is. grp (mem s) t)"
  using assms
proof (induction "is" arbitrary: s)
  case Nil
  then show ?case using freed_refl [OF Nil(1)] by (intro exI [of _ s] exI [of _ "[]"]) (simp add: kids_def)
next
  case (Cons i "is")
  show ?case
  proof (cases "sub (mem s) l1 i")
    case None
    have "\<exists>s' ps. free_l0s L l1 is s = Ok s' \<and> freed L ps s s' \<and> set ps = (\<Union>t\<in>kids (mem s) l1 is. grp (mem s) t)"
      by (rule Cons.IH [OF Cons.prems(1,2)]) (use Cons.prems(3,4) in simp_all, use Cons.prems(5,6) list.set_intros(2) in metis)+
    then obtain s' ps where
      "free_l0s L l1 is s = Ok s'" "freed L ps s s'" "set ps = (\<Union>t\<in>kids (mem s) l1 is. grp (mem s) t)" by blast
    moreover have "ent (mem s) l1 i AND PTE_V = 0" using None by (auto simp: sub_def split: if_splits)
    ultimately show ?thesis using None by (intro exI [of _ s'] exI [of _ ps]) (simp add: kids_Cons)
  next
    case (Some t)
    have e: "ent (mem s) l1 i AND PTE_V \<noteq> 0" "pte_to_pa (ent (mem s) l1 i) = t" using Some by (auto simp: sub_def split: if_splits)
    have t: "group_ok L s t" "l1 \<notin> grp (mem s) t" using Cons.prems(5) [of i t] Some by simp_all
    from free_group [OF Cons.prems(1) t(1)] obtain s1 qs where
      s1: "bindR (free_leaves L t [0..<512] s) (kalloc_free L t) = Ok s1" "freed L qs s s1" "set qs = grp (mem s) t" by blast
    have same: "sub (mem s1) l1 j = sub (mem s) l1 j" if "j \<in> set is" for j
      using freed_sub(2) [OF s1(2) Cons.prems(2)] t(2) s1(3) that Cons.prems(4) by auto
    have g: "grp (mem s1) u = grp (mem s) u" "group_ok L s1 u \<and> l1 \<notin> grp (mem s1) u" if "j \<in> set is" "sub (mem s) l1 j = Some u" for j u
    proof -
      have "j \<noteq> i" using that(1) Cons.prems(3) by auto
      then have "set qs \<inter> grp (mem s) u = {}" using Cons.prems(6) [of i j t u] that Some s1(3) by auto
      moreover have "group_ok L s u" "l1 \<notin> grp (mem s) u" using Cons.prems(5) [of j u] that by simp_all
      ultimately show "grp (mem s1) u = grp (mem s) u" "group_ok L s1 u \<and> l1 \<notin> grp (mem s1) u"
        using freed_group [OF s1(2)] by simp_all
    qed
    have kk: "kids (mem s1) l1 is = kids (mem s) l1 is" using same by (rule kids_cong)
    have "grp (mem s1) u = grp (mem s) u" if "u \<in> kids (mem s) l1 is" for u using that g(1) unfolding kids_def by blast
    then have k: "(\<Union>t\<in>kids (mem s1) l1 is. grp (mem s1) t) = (\<Union>t\<in>kids (mem s) l1 is. grp (mem s) t)" using kk by simp
    have "\<exists>s' ps. free_l0s L l1 is s1 = Ok s' \<and> freed L ps s1 s' \<and> set ps = (\<Union>t\<in>kids (mem s1) l1 is. grp (mem s1) t)"
    proof (rule Cons.IH [OF _ Cons.prems(2)])
      show "group_ok L s1 u \<and> l1 \<notin> grp (mem s1) u" if "j \<in> set is" "sub (mem s1) l1 j = Some u" for j u
        using g(2) [of j u] that same by simp
      show "grp (mem s1) u \<inter> grp (mem s1) v = {}"
        if "j \<in> set is" "k \<in> set is" "j \<noteq> k" "sub (mem s1) l1 j = Some u" "sub (mem s1) l1 k = Some v" for j k u v
        using Cons.prems(6) [of j k u v] that same g(1) [of j u] g(1) [of k v] by simp
    qed (use Cons.prems s1(2) in \<open>simp_all add: freed_def\<close>)
    then obtain s' ps where "free_l0s L l1 is s1 = Ok s'" "freed L ps s1 s'" "set ps = (\<Union>t\<in>kids (mem s) l1 is. grp (mem s) t)"
      using k by auto
    then show ?thesis using e s1 freed_trans [OF s1(2), of ps s'] Some
      by (intro exI [of _ s'] exI [of _ "ps @ qs"]) (auto simp: kids_Cons result_simps elim!: bindR_OkE)
  qed
qed

lemma utabs_eq:
  "utabs m r = insert r (\<Union>l1\<in>set_option (sub m r 1). insert l1 (kids m l1 [0..<512]))"
proof
  show "utabs m r \<subseteq> insert r (\<Union>l1\<in>set_option (sub m r 1). insert l1 (kids m l1 [0..<512]))"
  proof
    fix t assume "t \<in> utabs m r"
    then obtain q where q: "path_ok q" "q = [] \<or> hd q = 1" "tab m r q = Some t" unfolding utabs_def by blast
    from q(1) show "t \<in> insert r (\<Union>l1\<in>set_option (sub m r 1). insert l1 (kids m l1 [0..<512]))"
      by (cases rule: path_ok_cases) (use q(2,3) in \<open>auto simp: kids_def split: option.splits\<close>)
  qed
  have "l1 \<in> utabs m r" if "sub m r 1 = Some l1" for l1 using that by (intro utabsI [of "[1]"]) (simp_all add: path_ok_def)
  moreover have "t \<in> utabs m r" if "sub m r 1 = Some l1" "i < 512" "sub m l1 i = Some t" for l1 i t
    using that by (intro utabsI [of "[1, i]"]) (simp_all add: path_ok_def)
  ultimately show "insert r (\<Union>l1\<in>set_option (sub m r 1). insert l1 (kids m l1 [0..<512])) \<subseteq> utabs m r"
    by (auto simp: kids_def root_utabs)
qed

lemma pte_of_leaf:
  assumes "sub m r 1 = Some l1" and "i < 512" and "sub m l1 i = Some t" and "j < 512"
  shows "pte_of m r (uva i j) = (if ent m t j AND PTE_V \<noteq> 0 then Some (ent m t j) else None)"
proof -
  have "tab m r [1, i] = Some t" using assms by simp
  then show ?thesis unfolding pte_of_def va_path_def uva_props [OF assms(2,4)] by (simp only: option.case)
qed

lemma pte_of_sub:
  assumes "sub m r 1 = Some l1" and "i < 512" and "sub m l1 i = Some t" and "j < 512" and "sub m t j = Some f"
  shows "\<exists>e. pte_of m r (uva i j) = Some e \<and> pte_to_pa e = f"
  using assms(5) unfolding pte_of_leaf [OF assms(1-4)] by (auto simp: sub_def split: if_splits)

lemma uframes_eq:
  "uframes m r = (\<Union>l1\<in>set_option (sub m r 1). \<Union>t\<in>kids m l1 [0..<512]. kids m t [0..<512])"
proof
  show "uframes m r \<subseteq> (\<Union>l1\<in>set_option (sub m r 1). \<Union>t\<in>kids m l1 [0..<512]. kids m t [0..<512])"
  proof
    fix f assume "f \<in> uframes m r"
    then obtain va e where e: "user_va va" "pte_of m r va = Some e" "f = pte_to_pa e" unfolding uframes_def by blast
    then obtain t where t: "tab m r [1, vpn va 1] = Some t" "sub m t (vpn va 0) = Some f"
      unfolding pte_of_def va_path_def user_va_vpn [OF e(1)] by (auto simp: sub_def split: option.splits if_splits)
    then show "f \<in> (\<Union>l1\<in>set_option (sub m r 1). \<Union>t\<in>kids m l1 [0..<512]. kids m t [0..<512])"
      by (fastforce simp: kids_def split: option.splits)
  qed
  show "(\<Union>l1\<in>set_option (sub m r 1). \<Union>t\<in>kids m l1 [0..<512]. kids m t [0..<512]) \<subseteq> uframes m r"
  proof (clarsimp simp: kids_def simp del: One_nat_def)
    fix l1 f t i j assume a: "sub m r 1 = Some l1" "i < 512" "sub m l1 i = Some t" "j < 512" "sub m t j = Some f"
    from pte_of_sub [OF this] uframesI [OF uva_props(1) [OF a(2,4)]] show "f \<in> uframes m r" by blast
  qed
qed

lemma owned_eq:
  "owned m r = insert r (\<Union>l1\<in>set_option (sub m r 1). insert l1 (\<Union>t\<in>kids m l1 [0..<512]. grp m t))"
  unfolding owned_def utabs_eq uframes_eq grp_def by auto

text \<open>The groups of a space are its own and share nothing.\<close>

lemma aspace_groups:
  assumes A: "aspace L kr r s" and K: "kspace L kr s" and l1: "sub (mem s) r 1 = Some l1"
  shows "i < 512 \<Longrightarrow> sub (mem s) l1 i = Some t \<Longrightarrow> group_ok L s t \<and> l1 \<notin> grp (mem s) t \<and> r \<notin> grp (mem s) t"
    and "i < 512 \<Longrightarrow> j < 512 \<Longrightarrow> i \<noteq> j \<Longrightarrow> sub (mem s) l1 i = Some t \<Longrightarrow> sub (mem s) l1 j = Some u \<Longrightarrow>
      grp (mem s) t \<inter> grp (mem s) u = {}"
    and "l1 \<noteq> r" and "l1 \<in> owned (mem s) r"
proof -
  note D = aspaceD [OF A] and O = owned_free [OF A K]
  have wf: "pt_wf L (mem s) r" using D(1) by (simp add: vm_inv_def)
  have T: "path_ok [1, i]" "tab (mem s) r [1, i] = Some t" if "i < 512" "sub (mem s) l1 i = Some t" for i t
    using that l1 by (simp_all add: path_ok_def)
  have T1: "path_ok [1]" "tab (mem s) r [1] = Some l1" using l1 by (simp_all add: path_ok_def)
  have ne: "t \<noteq> l1" "t \<noteq> r" if "i < 512" "sub (mem s) l1 i = Some t" for i t
    using pt_wf_inj [OF wf T(1) T1(1) T(2), OF that that] pt_wf_inj [OF wf T(1) path_ok_Nil T(2), OF that that] T1 by auto
  have leaf: "f \<notin> tabs (mem s) r" "f \<in> uframes (mem s) r"
    if "i < 512" "sub (mem s) l1 i = Some t" "f \<in> kids (mem s) t [0..<512]" for i t f
  proof -
    from that(3) obtain j where "j < 512" "sub (mem s) t j = Some f" by (auto simp: kids_def)
    from pte_of_sub [OF l1 that(1,2) this] uframesI [OF uva_props(1) [OF that(1) this(1)]]
    show "f \<in> uframes (mem s) r" by blast
    then show "f \<notin> tabs (mem s) r" by (rule D(6))
  qed
  have inj: "i = i' \<and> j = j'" if "i < 512" "sub (mem s) l1 i = Some t" "i' < 512" "sub (mem s) l1 i' = Some u"
    "j < 512" "sub (mem s) t j = Some f" "j' < 512" "sub (mem s) u j' = Some f" for i i' j j' t u f
  proof -
    from pte_of_sub [OF l1 that(1,2,5,6)] pte_of_sub [OF l1 that(3,4,7,8)] obtain e e' where
      e: "pte_of (mem s) r (uva i j) = Some e" "pte_of (mem s) r (uva i' j') = Some e'" "pte_to_pa e = pte_to_pa e'" by auto
    from D(8) [OF uva_props(1) uva_props(1) this] that have "uva i j div PAGE_SIZE = uva i' j' div PAGE_SIZE" by simp
    then have "vpn (uva i j) 0 = vpn (uva i' j') 0" "vpn (uva i j) 1 = vpn (uva i' j') 1" unfolding vpn_levels by simp_all
    then show ?thesis unfolding uva_props [OF that(1,5)] uva_props [OF that(3,7)] by simp
  qed
  show "l1 \<in> owned (mem s) r" using l1 by (simp add: owned_eq)
  show "l1 \<noteq> r" using pt_wf_inj [OF wf T1(1) path_ok_Nil T1(2)] by auto
  show "group_ok L s t \<and> l1 \<notin> grp (mem s) t \<and> r \<notin> grp (mem s) t" if i: "i < 512" "sub (mem s) l1 i = Some t"
  proof -
    have "t \<in> kids (mem s) l1 [0..<512]" using i by (auto simp: kids_def)
    then have "grp (mem s) t \<subseteq> owned (mem s) r" using l1 by (auto simp: owned_eq)
    then have "\<forall>p\<in>grp (mem s) t. alloc_page L p \<and> p \<notin> set (free_list s)" using O(1,3) by blast
    moreover have "t \<notin> kids (mem s) t [0..<512]" "l1 \<notin> kids (mem s) t [0..<512]" "r \<notin> kids (mem s) t [0..<512]"
      using leaf(1) [OF i] tabsI [OF T [OF i]] tabsI [OF T1] root_in_tabs [of r "mem s"] by blast+
    ultimately show ?thesis using ne [OF i] inj [OF i i] unfolding group_ok_def by (auto simp: grp_def)
  qed
  show "grp (mem s) t \<inter> grp (mem s) u = {}"
    if ij: "i < 512" "j < 512" "i \<noteq> j" "sub (mem s) l1 i = Some t" "sub (mem s) l1 j = Some u"
  proof -
    have "t \<noteq> u" using ij(3) pt_wf_inj [OF wf T(1) [OF ij(1,4)] T(1) [OF ij(2,5)] T(2) [OF ij(1,4)]] T(2) [OF ij(2,5)] by auto
    moreover have "f \<notin> kids (mem s) u [0..<512]" if "f \<in> kids (mem s) t [0..<512]" for f
      using inj [OF ij(1,4,2,5)] ij(3) that by (auto simp: kids_def)
    moreover have "t \<notin> kids (mem s) u [0..<512]" "u \<notin> kids (mem s) t [0..<512]"
      using leaf(1) [OF ij(1,4)] leaf(1) [OF ij(2,5)] tabsI [OF T [OF ij(1,4)]] tabsI [OF T [OF ij(2,5)]] by blast+
    ultimately show ?thesis by (auto simp: grp_def)
  qed
qed

lemma free_user_table_run:
  assumes A: "aspace L kr r s" and K: "kspace L kr s"
  obtains s' ps where "free_user_table L r s = Ok s'" and "freed L ps s s'" and "set ps = owned (mem s) r"
proof (cases "sub (mem s) r 1")
  case None
  then have "ent (mem s) r USER_L2_INDEX AND PTE_V = 0" unfolding USER_L2_INDEX_eq by (auto simp: sub_def split: if_splits)
  moreover have "alloc_page L r" "r \<notin> set (free_list s)" using owned_free(1,3,5) [OF A K] by auto
  then obtain s' where "kalloc_free L r s = Ok s'" "freed L [r] s s'" by (rule freed_one [OF kspaceD(2) [OF K]])
  moreover have "owned (mem s) r = {r}" using None by (simp add: owned_eq)
  ultimately show thesis by (intro that [of s' "[r]"]) (simp_all add: free_user_table_def)
next
  case (Some l1)
  note G = aspace_groups [OF A K Some] and O = owned_free [OF A K]
  have e: "ent (mem s) r USER_L2_INDEX AND PTE_V \<noteq> 0" "pte_to_pa (ent (mem s) r USER_L2_INDEX) = l1"
    using Some unfolding USER_L2_INDEX_eq by (auto simp: sub_def split: if_splits)
  have "\<exists>s' ps. free_l0s L l1 [0..<512] s = Ok s' \<and> freed L ps s s' \<and> set ps = (\<Union>t\<in>kids (mem s) l1 [0..<512]. grp (mem s) t)"
    by (rule free_l0s_run [OF kspaceD(2) [OF K] O(4) [OF G(4)]]) (use G in auto)
  then obtain s1 ps where s1: "free_l0s L l1 [0..<512] s = Ok s1" "freed L ps s s1"
    and ps: "set ps = (\<Union>t\<in>kids (mem s) l1 [0..<512]. grp (mem s) t)" by blast
  have nin: "l1 \<notin> set ps" "r \<notin> set ps" unfolding ps kids_def using G(1) by auto
  have nf: "l1 \<notin> set (free_list s)" "r \<notin> set (free_list s)" using O(1,5) G(4) by auto
  have "kalloc_inv L s1" "l1 \<notin> set (free_list s1)" using s1(2) nin nf by (auto simp: freed_def)
  then obtain s2 where s2: "kalloc_free L l1 s1 = Ok s2" "freed L [l1] s1 s2" using O(3) [OF G(4)] freed_one by blast
  have "kalloc_inv L s2" "r \<notin> set (free_list s2)" using s1(2) s2(2) nin nf G(3) by (auto simp: freed_def)
  then obtain s' where s': "kalloc_free L r s2 = Ok s'" "freed L [r] s2 s'" using O(3) [OF O(5)] freed_one by blast
  have "owned (mem s) r = set ([r] @ [l1] @ ps)" using ps Some by (auto simp: owned_eq)
  moreover have "free_user_table L r s = Ok s'" using e s1(1) s2(1) s'(1) by (simp add: free_user_table_def)
  ultimately show thesis
    using freed_trans [OF freed_trans [OF s1(2) s2(2)] s'(2)] by (intro that [of s' "[r] @ [l1] @ ps"]) simp_all
qed

end
