(* ===== verification/Clone.thy ===== *)
theory Clone
  imports Uspace
begin

text \<open>
  \<open>clone_user_table\<close> of \<open>src/src/vm.rs\<close>, the copy of an address space that \<open>fork\<close> makes.  The child's
  view equals the parent's, it lives in pages that were free, and as many free pages as the parent
  owns are enough for the copy to succeed.
\<close>

section \<open>The loop invariant\<close>

text \<open>The pages at the indices \<open>D\<close> were copied.\<close>

definition cloning :: "layout \<Rightarrow> usize \<Rightarrow> usize \<Rightarrow> usize \<Rightarrow> phys \<Rightarrow> (nat \<times> nat) set \<Rightarrow> usize list \<Rightarrow> phys \<Rightarrow> bool" where
  "cloning L kr p c s0 D used s \<longleftrightarrow> grown L kr c s0 used s \<and>
     (\<forall>w. uview (mem s) c w = (if (vpn w 1, vpn w 0) \<in> D then uview (mem s0) p w else None))"

lemma cloningD:
  assumes "cloning L kr p c s0 D used s"
  shows "aspace L kr c s" "kspace L kr s" "free_list s0 = used @ free_list s" "owned (mem s) c = set used"
    "tabs (mem s) kr = tabs (mem s0) kr" "\<And>a. mem s a \<noteq> mem s0 a \<Longrightarrow> in_pages a (set used)"
    "uview (mem s) c w = (if (vpn w 1, vpn w 0) \<in> D then uview (mem s0) p w else None)" "grown L kr c s0 used s"
  using assms unfolding cloning_def grown_def by blast+

text \<open>The parent and its pages are untouched.\<close>

lemma cloning_parent:
  assumes C: "cloning L kr p c s0 D used s" and A: "aspace L kr p s0" and K: "kspace L kr s0"
  shows "aspace L kr p s" "owned (mem s) p = owned (mem s0) p" "uview (mem s) p w = uview (mem s0) p w"
    "owned (mem s) p \<inter> set used = {}" "\<forall>q\<in>set used. page_aligned q"
    "t \<in> owned (mem s0) p \<Longrightarrow> k < PAGE_SIZE \<Longrightarrow> mem s (t + k) = mem s0 (t + k)"
    "t \<in> owned (mem s0) p \<Longrightarrow> i < 512 \<Longrightarrow> ent (mem s) t i = ent (mem s0) t i"
proof -
  note D = cloningD [OF C] and O = owned_free [OF A K]
  show al: "\<forall>q\<in>set used. page_aligned q" using free_aligned [OF kspaceD(2) [OF K]] D(3) by auto
  have d: "set used \<inter> (owned (mem s0) p \<union> tabs (mem s0) kr) = {}" "set (free_list s) \<inter> (owned (mem s0) p \<union> tabs (mem s0) kr) = {}"
    using O(1) D(3) by auto
  note F = aspace_other [OF A K kspaceD(2) [OF D(2)] D(6) al d]
  show "aspace L kr p s" "owned (mem s) p = owned (mem s0) p" "uview (mem s) p w = uview (mem s0) p w"
    "owned (mem s) p \<inter> set used = {}" using F d by auto
  show "mem s (t + k) = mem s0 (t + k)" if "t \<in> owned (mem s0) p" "k < PAGE_SIZE"
    by (rule outside_page [OF D(6) _ O(4) [OF that(1)] al that(2)]) (use d that in auto)
  show "ent (mem s) t i = ent (mem s0) t i" if "t \<in> owned (mem s0) p" "i < 512"
    by (rule ent_same [OF D(6) _ O(4) [OF that(1)] al that(2)]) (use d that in auto)
qed

lemma same_page_uva:
  assumes "i < 512" and "j < 512" and "user_va w"
  shows "w div PAGE_SIZE = uva i j div PAGE_SIZE \<longleftrightarrow> vpn w 1 = i \<and> vpn w 0 = j"
  using user_page_pte [OF uva_props(1) [OF assms(1,2)] user_va_max [OF assms(3)]]
  unfolding va_path_def uva_props [OF assms(1,2)] user_va_vpn [OF assms(3)] by simp

lemma perm_mask:
  shows "e AND PERM_MASK < 32" and "(e AND PERM_MASK) AND PERM_MASK = e AND PERM_MASK"
    and "user_pte (e AND PERM_MASK) \<longleftrightarrow> user_pte e"
proof -
  have "take_bit 5 (e AND PERM_MASK) = e AND PERM_MASK"
    by (rule bit_eqI) (auto simp: bit_take_bit_iff bit_and_iff bit_PERM_MASK)
  then show "e AND PERM_MASK < 32" using take_bit_nat_less_exp [of 5 "e AND PERM_MASK"] by simp
  show "(e AND PERM_MASK) AND PERM_MASK = e AND PERM_MASK" by (simp add: ac_simps)
  show "user_pte (e AND PERM_MASK) \<longleftrightarrow> user_pte e" by (simp add: user_pte_bits bit_and_iff bit_PERM_MASK)
qed

section \<open>One page\<close>

definition clone_one :: "usize \<Rightarrow> usize \<Rightarrow> usize \<Rightarrow> phys \<Rightarrow> phys result" where
  "clone_one c va e s = bindR (kalloc_alloc s) (\<lambda>(p, s).
     bindR (expectR p ''clone_user_table: out of pages'') (\<lambda>dst.
     map_pages c va dst PAGE_SIZE (e AND PERM_MASK)
       (s\<lparr>mem := copy_nonoverlapping (mem s) (pte_to_pa e) dst PAGE_SIZE\<rparr>)))"

lemma clone_one_run:
  assumes C: "cloning L kr p c s0 D used s" and A: "aspace L kr p s0" and K: "kspace L kr s0"
    and ij: "i < 512" "j < 512" "(i, j) \<notin> D" and e: "pte_of (mem s0) p (uva i j) = Some e"
    and room: "missing (mem s) c (uva i j) < length (free_list s)"
  obtains new s' where "clone_one c (uva i j) e s = Ok s'" and "cloning L kr p c s0 (insert (i, j) D) (used @ new) s'"
    and "length new = Suc (missing (mem s) c (uva i j))" and "missing (mem s') c (uva i j) = 0"
proof -
  note D = cloningD [OF C] and P = cloning_parent [OF C A K] and U = uva_props [OF ij(1,2)]
  from room obtain f ps where fl: "free_list s = f # ps" by (cases "free_list s") auto
  from kalloc_alloc_pop [OF kspaceD(2) [OF D(2)] fl] obtain s1 where s1: "kalloc_alloc s = Ok (Some f, s1)" by blast
  let ?m = "copy_nonoverlapping (mem s1) (pte_to_pa e) f PAGE_SIZE"
  have ch1: "in_pages a {f}" if "?m a \<noteq> mem s1 a" for a
    using that by (auto simp: copy_nonoverlapping_def in_pages_def split: if_splits)
  have un: "uview (mem s) c (uva i j) = None" using D(7) [of "uva i j"] ij U by (simp del: One_nat_def)
  have room2: "missing (mem s) c (uva i j) \<le> length ps" using room fl by simp
  have perm: "e AND PERM_MASK < 32" "user_pte (e AND PERM_MASK)"
    using perm_mask(1,3) [of e] aspaceD(9) [OF A U(1) e] by simp_all
  obtain new s' where s': "map_pages c (uva i j) f PAGE_SIZE (e AND PERM_MASK) (s1\<lparr>mem := ?m\<rparr>) = Ok s'"
    "grown L kr c s0 (used @ f # new) s'" "length new = missing (mem s) c (uva i j)"
    and v: "\<And>w. uview (mem s') c w = (if w div PAGE_SIZE = uva i j div PAGE_SIZE
      then Some ((e AND PERM_MASK) AND PERM_MASK, ?m (f + w mod PAGE_SIZE)) else uview (mem s) c w)"
    and mi: "missing (mem s') c (uva i j) = 0" and z: "mem s1 = write_bytes (mem s) f 0 PAGE_SIZE"
    by (rule grown_map [OF D(8) fl s1 ch1 U(1,2) un room2 perm]) (assumption, rule that)
  have src: "pte_to_pa e \<in> owned (mem s0) p" using uframesI [OF U(1) e] by (simp add: owned_def)
  have fn: "f \<noteq> pte_to_pa e" "page_aligned f"
    using owned_free(1) [OF P(1) D(2)] P(2) src fl free_aligned [OF kspaceD(2) [OF D(2)], of f] by auto
  have data: "?m (f + k) = mem s0 (pte_to_pa e + k)" if "k < PAGE_SIZE" for k
  proof -
    have "?m (f + k) = mem s1 (pte_to_pa e + k)" using that by (simp add: copy_nonoverlapping_def)
    also have "\<dots> = mem s (pte_to_pa e + k)" unfolding z
      by (rule outside_page [where P = "{f}", OF _ _ page_aligned_pte_to_pa _ that]) (use write_bytes_outside fn in auto)
    finally show ?thesis using P(6) [OF src that] by simp
  qed
  have view: "uview (mem s') c w = (if (vpn w 1, vpn w 0) \<in> insert (i, j) D then uview (mem s0) p w else None)" for w
  proof (cases "user_va w")
    case True
    note sp = same_page_uva [OF ij(1,2) True]
    show ?thesis
    proof (cases "w div PAGE_SIZE = uva i j div PAGE_SIZE")
      case page: True
      have "pte_of (mem s0) p w = Some e" using pte_of_page [OF page] e by simp
      then have "uview (mem s0) p w = Some (e AND PERM_MASK, mem s0 (pte_to_pa e + w mod PAGE_SIZE))" using True by (simp add: uview_def)
      moreover have "?m (f + w mod PAGE_SIZE) = mem s0 (pte_to_pa e + w mod PAGE_SIZE)" by (rule data) (simp add: PAGE_SIZE_def)
      ultimately show ?thesis using page sp v [of w] perm_mask(2) [of e] by simp
    next
      case False
      then have "(vpn w 1, vpn w 0) \<noteq> (i, j)" using sp by simp
      then show ?thesis using v [of w] False D(7) [of w] by auto
    qed
  next
    case False
    then show ?thesis by (simp add: uview_def)
  qed
  have "cloning L kr p c s0 (insert (i, j) D) (used @ f # new) s'" unfolding cloning_def using s'(2) view by blast
  moreover have "clone_one c (uva i j) e s = Ok s'" using s1 s'(1) by (simp add: clone_one_def)
  ultimately show thesis using that s'(3) mi by simp
qed

section \<open>The loops\<close>

lemma cloning_skip:
  assumes "cloning L kr p c s0 D used s" and "\<And>w. user_va w \<Longrightarrow> (vpn w 1, vpn w 0) \<in> E \<Longrightarrow> pte_of (mem s0) p w = None"
  shows "cloning L kr p c s0 (D \<union> E) used s"
proof -
  have "uview (mem s0) p w = None" if "(vpn w 1, vpn w 0) \<in> E" for w using assms(2) [of w] that by (simp add: uview_def)
  then show ?thesis using assms(1) unfolding cloning_def by simp
qed

definition leaves :: "memory \<Rightarrow> usize \<Rightarrow> nat list \<Rightarrow> nat" where
  "leaves m t js = length (filter (\<lambda>j. sub m t j \<noteq> None) js)"

lemma missing_uva:
  assumes "i < 512" and "j < 512"
  shows "missing m c (uva i j) = missing m c (uva i 0)"
  unfolding missing_def uva_props [OF assms] uva_props [OF assms(1) zero_less_numeral] ..

lemma clone_l0_Cons:
  assumes "i < 512" and "j < 512"
  shows "clone_l0 c i t (j # js) s = (if ent (mem s) t j AND PTE_V = 0 then clone_l0 c i t js s
    else bindR (clone_one c (uva i j) (ent (mem s) t j) s) (clone_l0 c i t js))"
  by (simp add: clone_one_def clone_va [OF assms] Let_def bindR_assoc split_def)

lemma clone_l0_run:
  assumes A: "aspace L kr p s0" and K: "kspace L kr s0" and i: "i < 512" and l1: "sub (mem s0) p 1 = Some l1"
    and t: "sub (mem s0) l1 i = Some t"
    and "cloning L kr p c s0 D used s" and "distinct js" and "set js \<subseteq> {..<512}" and "\<And>j. j \<in> set js \<Longrightarrow> (i, j) \<notin> D"
    and "leaves (mem s0) t js + missing (mem s) c (uva i 0) \<le> length (free_list s)"
  shows "\<exists>s' new. clone_l0 c i t js s = Ok s' \<and> cloning L kr p c s0 (D \<union> {i} \<times> set js) (used @ new) s' \<and>
    length new + missing (mem s') c (uva i 0) = leaves (mem s0) t js + missing (mem s) c (uva i 0)"
  using assms(6-)
proof (induction js arbitrary: D used s)
  case Nil
  then show ?case by (intro exI [of _ s] exI [of _ "[]"]) (simp add: leaves_def)
next
  case (Cons j js)
  have j: "j < 512" using Cons.prems(3) by simp
  have tk: "t \<in> kids (mem s0) l1 [0..<512]" using i t by (auto simp: kids_def)
  have "t \<in> owned (mem s0) p" using l1 tk by (auto simp: owned_eq grp_def simp del: One_nat_def)
  from cloning_parent(7) [OF Cons.prems(1) A K this j] have e: "ent (mem s) t j = ent (mem s0) t j" .
  note leaf = pte_of_leaf [OF l1 i t j]
  have ins: "insert (i, j) D \<union> {i} \<times> set js = D \<union> {i} \<times> set (j # js)" by auto
  have rest: "(i, k) \<notin> insert (i, j) D" if "k \<in> set js" for k using Cons.prems(2,4) that by auto
  show ?case
  proof (cases "sub (mem s0) t j")
    case None
    then have v: "ent (mem s0) t j AND PTE_V = 0" by (auto simp: sub_def split: if_splits)
    have "cloning L kr p c s0 (D \<union> {(i, j)}) used s"
    proof (rule cloning_skip [OF Cons.prems(1)])
      fix w assume "user_va w" "(vpn w 1, vpn w 0) \<in> {(i, j)}"
      then show "pte_of (mem s0) p w = None" using pte_of_uva [of w "mem s0" p] leaf v by simp
    qed
    then have "cloning L kr p c s0 (insert (i, j) D) used s" by simp
    from Cons.IH [OF this _ _ rest] Cons.prems(2,3,5) None have
      "\<exists>s' new. clone_l0 c i t js s = Ok s' \<and> cloning L kr p c s0 (insert (i, j) D \<union> {i} \<times> set js) (used @ new) s' \<and>
        length new + missing (mem s') c (uva i 0) = leaves (mem s0) t js + missing (mem s) c (uva i 0)" by (simp add: leaves_def)
    then show ?thesis unfolding ins clone_l0_Cons [OF i j] using v e None by (simp add: leaves_def)
  next
    case (Some f)
    then have v: "ent (mem s0) t j AND PTE_V \<noteq> 0" by (auto simp: sub_def split: if_splits)
    then have pe: "pte_of (mem s0) p (uva i j) = Some (ent (mem s0) t j)" using leaf by simp
    have mi: "missing (mem s) c (uva i j) = missing (mem s) c (uva i 0)" by (rule missing_uva [OF i j])
    have "(i, j) \<notin> D" "missing (mem s) c (uva i j) < length (free_list s)"
      using Cons.prems(4,5) Some mi by (simp_all add: leaves_def)
    then obtain new s1 where s1: "clone_one c (uva i j) (ent (mem s0) t j) s = Ok s1"
      "cloning L kr p c s0 (insert (i, j) D) (used @ new) s1" "length new = Suc (missing (mem s) c (uva i j))"
      "missing (mem s1) c (uva i j) = 0" by (rule clone_one_run [OF Cons.prems(1) A K i j _ pe])
    have m1: "missing (mem s1) c (uva i 0) = 0" using s1(4) missing_uva [OF i j] by simp
    have "used @ free_list s = used @ (new @ free_list s1)" using cloningD(3) [OF Cons.prems(1)] cloningD(3) [OF s1(2)] by simp
    then have fl: "free_list s = new @ free_list s1" unfolding same_append_eq .
    have "leaves (mem s0) t js + missing (mem s1) c (uva i 0) \<le> length (free_list s1)"
      using Cons.prems(5) fl s1(3) m1 mi Some by (simp add: leaves_def)
    from Cons.IH [OF s1(2) _ _ rest this] Cons.prems(2,3) obtain s' new' where
      "clone_l0 c i t js s1 = Ok s'" "cloning L kr p c s0 (D \<union> {i} \<times> set (j # js)) ((used @ new) @ new') s'"
      "length new' + missing (mem s') c (uva i 0) = leaves (mem s0) t js" unfolding ins m1 by auto
    then show ?thesis unfolding clone_l0_Cons [OF i j] using v e s1 mi Some
      by (intro exI [of _ s'] exI [of _ "new @ new'"]) (simp add: leaves_def)
  qed
qed

text \<open>What an entry of the parent's middle table costs to copy, and the middle table the child may lack.\<close>

definition cost :: "memory \<Rightarrow> usize \<Rightarrow> nat \<Rightarrow> nat" where
  "cost m l1 i = (case sub m l1 i of None \<Rightarrow> 0 | Some t \<Rightarrow> Suc (leaves m t [0..<512]))"

definition lacks_mid :: "memory \<Rightarrow> usize \<Rightarrow> nat" where
  "lacks_mid m c = (if sub m c 1 = None then 1 else 0)"

lemma missing_top:
  assumes "i < 512"
  shows "missing m c (uva i 0) \<le> Suc (lacks_mid m c)" and "lacks_mid m c \<le> missing m c (uva i 0)"
  unfolding missing_def lacks_mid_def uva_props [OF assms zero_less_numeral] by (auto split: option.splits)

lemma cloning_free:
  assumes "cloning L kr p c s0 D used s" and "cloning L kr p c s0 E (used @ new) s'"
  shows "free_list s = new @ free_list s'"
proof -
  have "used @ free_list s = used @ (new @ free_list s')" using cloningD(3) [OF assms(1)] cloningD(3) [OF assms(2)] by simp
  then show ?thesis unfolding same_append_eq .
qed

lemma clone_l1_run:
  assumes A: "aspace L kr p s0" and K: "kspace L kr s0" and l1: "sub (mem s0) p 1 = Some l1"
    and "cloning L kr p c s0 D used s" and "distinct is" and "set is \<subseteq> {..<512}" and "\<And>i j. i \<in> set is \<Longrightarrow> (i, j) \<notin> D"
    and "sum_list (map (cost (mem s0) l1) is) + lacks_mid (mem s) c \<le> length (free_list s)"
  shows "\<exists>s' new. clone_l1 c l1 is s = Ok s' \<and> cloning L kr p c s0 (D \<union> set is \<times> {..<512}) (used @ new) s' \<and>
    length new + lacks_mid (mem s') c \<le> sum_list (map (cost (mem s0) l1) is) + lacks_mid (mem s) c"
  using assms(4-)
proof (induction "is" arbitrary: D used s)
  case Nil
  then show ?case by (intro exI [of _ s] exI [of _ "[]"]) simp
next
  case (Cons i "is")
  have i: "i < 512" using Cons.prems(3) by simp
  have "l1 \<in> owned (mem s0) p" using l1 by (auto simp: owned_eq simp del: One_nat_def)
  from cloning_parent(7) [OF Cons.prems(1) A K this i] have e: "ent (mem s) l1 i = ent (mem s0) l1 i" .
  have ins: "(D \<union> {i} \<times> {..<512}) \<union> set is \<times> {..<512} = D \<union> set (i # is) \<times> {..<512}" by auto
  have rest: "(k, j) \<notin> D \<union> {i} \<times> {..<512}" if "k \<in> set is" for k j using Cons.prems(2,4) that by auto
  have go: "\<exists>s' new'. clone_l1 c l1 is s1 = Ok s' \<and> cloning L kr p c s0 (D \<union> set (i # is) \<times> {..<512}) (used1 @ new') s' \<and>
      length new' + lacks_mid (mem s') c \<le> sum_list (map (cost (mem s0) l1) is) + lacks_mid (mem s1) c"
    if "cloning L kr p c s0 (D \<union> {i} \<times> {..<512}) used1 s1"
      "sum_list (map (cost (mem s0) l1) is) + lacks_mid (mem s1) c \<le> length (free_list s1)" for s1 used1
    using Cons.IH [OF that(1) _ _ rest that(2)] Cons.prems(2,3) unfolding ins by simp
  show ?case
  proof (cases "sub (mem s0) l1 i")
    case None
    have "cloning L kr p c s0 (D \<union> {i} \<times> {..<512}) used s"
    proof (rule cloning_skip [OF Cons.prems(1)])
      fix w assume w: "user_va w" "(vpn w 1, vpn w 0) \<in> {i} \<times> {..<512}"
      then have "tab (mem s0) p [vpn w 2, vpn w 1] = None" using l1 None unfolding user_va_vpn [OF w(1)] by (simp del: One_nat_def)
      then show "pte_of (mem s0) p w = None" unfolding pte_of_def va_path_def by (simp only: option.case)
    qed
    moreover have z: "cost (mem s0) l1 i = 0" using None by (simp add: cost_def)
    moreover have "ent (mem s0) l1 i AND PTE_V = 0" using None by (auto simp: sub_def split: if_splits)
    ultimately show ?thesis using go [of used s] Cons.prems(5) e by simp
  next
    case (Some t)
    have v: "ent (mem s0) l1 i AND PTE_V \<noteq> 0" "pte_to_pa (ent (mem s0) l1 i) = t" using Some by (auto simp: sub_def split: if_splits)
    have "leaves (mem s0) t [0..<512] + missing (mem s) c (uva i 0) \<le> length (free_list s)"
      using Cons.prems(5) missing_top(1) [OF i, of "mem s" c] Some by (simp add: cost_def)
    from clone_l0_run [OF A K i l1 Some Cons.prems(1) _ _ _ this] Cons.prems(4) obtain s1 new where
      s1: "clone_l0 c i t [0..<512] s = Ok s1" "cloning L kr p c s0 (D \<union> {i} \<times> {..<512}) (used @ new) s1"
      and n: "length new + missing (mem s1) c (uva i 0) = leaves (mem s0) t [0..<512] + missing (mem s) c (uva i 0)"
      by (auto simp: atLeast0LessThan)
    have n': "length new + lacks_mid (mem s1) c \<le> cost (mem s0) l1 i + lacks_mid (mem s) c"
      using n missing_top(1) [OF i, of "mem s" c] missing_top(2) [OF i, of "mem s1" c] Some by (simp add: cost_def)
    have "sum_list (map (cost (mem s0) l1) is) + lacks_mid (mem s1) c \<le> length (free_list s1)"
      using Cons.prems(5) n' cloning_free [OF Cons.prems(1) s1(2)] by simp
    from go [OF s1(2) this] obtain s' new' where
      "clone_l1 c l1 is s1 = Ok s'" "cloning L kr p c s0 (D \<union> set (i # is) \<times> {..<512}) ((used @ new) @ new') s'"
      "length new' + lacks_mid (mem s') c \<le> sum_list (map (cost (mem s0) l1) is) + lacks_mid (mem s1) c" by blast
    then show ?thesis using v e s1(1) n' by (intro exI [of _ s'] exI [of _ "new @ new'"]) (simp add: Let_def)
  qed
qed

section \<open>The pages a space owns, counted\<close>

lemma card_kids:
  assumes "distinct js" and "\<And>i j f. i \<in> set js \<Longrightarrow> j \<in> set js \<Longrightarrow> sub m t i = Some f \<Longrightarrow> sub m t j = Some f \<Longrightarrow> i = j"
  shows "card (kids m t js) = leaves m t js" and "finite (kids m t js)"
proof -
  let ?K = "set (filter (\<lambda>j. sub m t j \<noteq> None) js)"
  have k: "kids m t js = (\<lambda>j. the (sub m t j)) ` ?K" by (force simp: kids_def)
  have "inj_on (\<lambda>j. the (sub m t j)) ?K" using assms(2) by (auto simp: inj_on_def)
  then have "card (kids m t js) = card ?K" unfolding k by (rule card_image)
  also have "\<dots> = leaves m t js" using assms(1) unfolding leaves_def by (intro distinct_card) simp
  finally show "card (kids m t js) = leaves m t js" .
  show "finite (kids m t js)" unfolding k by simp
qed

lemma card_owned:
  assumes A: "aspace L kr r s" and K: "kspace L kr s" and l1: "sub (mem s) r 1 = Some l1"
  shows "card (owned (mem s) r) = 2 + sum_list (map (cost (mem s) l1) [0..<512])"
proof -
  note G = aspace_groups [OF A K l1]
  let ?g = "\<lambda>i. case sub (mem s) l1 i of None \<Rightarrow> {} | Some t \<Rightarrow> grp (mem s) t"
  have g: "card (?g i) = cost (mem s) l1 i \<and> finite (?g i) \<and> r \<notin> ?g i \<and> l1 \<notin> ?g i" if i: "i < 512" for i
  proof (cases "sub (mem s) l1 i")
    case (Some t)
    have ok: "group_ok L s t" "l1 \<notin> grp (mem s) t" "r \<notin> grp (mem s) t" using G(1) [OF i Some] by simp_all
    then have "card (kids (mem s) t [0..<512]) = leaves (mem s) t [0..<512]" "finite (kids (mem s) t [0..<512])"
      by (intro card_kids; auto simp: group_ok_def)+
    then show ?thesis using ok Some by (simp add: cost_def grp_def group_ok_def)
  qed (simp add: cost_def)
  have disj: "?g i \<inter> ?g j = {}" if "i < 512" "j < 512" "i \<noteq> j" for i j
    using G(2) [OF that] by (auto split: option.splits)
  have u: "(\<Union>t\<in>kids (mem s) l1 [0..<512]. grp (mem s) t) = (\<Union>i\<in>{..<512}. ?g i)"
    unfolding kids_def by (auto simp: atLeast0LessThan split: option.splits) force
  have "card (\<Union>i\<in>{..<512}. ?g i) = (\<Sum>i<512. card (?g i))"
    by (rule card_UN_disjoint) (use g disj in auto)
  also have "\<dots> = (\<Sum>i<512. cost (mem s) l1 i)" by (rule sum.cong) (use g in auto)
  also have "\<dots> = sum_list (map (cost (mem s) l1) [0..<512])" by (simp add: interv_sum_list_conv_sum_set_nat atLeast0LessThan)
  finally have c: "card (\<Union>i\<in>{..<512}. ?g i) = sum_list (map (cost (mem s) l1) [0..<512])" .
  have fin: "finite (\<Union>i\<in>{..<512}. ?g i)" "r \<notin> (\<Union>i\<in>{..<512}. ?g i)" "l1 \<notin> (\<Union>i\<in>{..<512}. ?g i)" using g by auto
  have "owned (mem s) r = insert r (insert l1 (\<Union>i\<in>{..<512}. ?g i))" using l1 u by (simp add: owned_eq)
  then show ?thesis using fin c G(3) by simp
qed

section \<open>The copy\<close>

lemma clone_user_table_run:
  assumes A: "aspace L kr p s" and K: "kspace L kr s" and room: "card (owned (mem s) p) \<le> length (free_list s)"
  obtains c used s' where "clone_user_table kr p s = Ok (c, s')" and "cloning L kr p c s UNIV used s'"
    and "length used \<le> card (owned (mem s) p)"
proof -
  have "0 < card (owned (mem s) p)"
  proof (cases "sub (mem s) p 1")
    case None
    then show ?thesis by (simp add: owned_eq)
  next
    case (Some l1)
    then show ?thesis using card_owned [OF A K] by simp
  qed
  then obtain c ps where fl: "free_list s = c # ps" using room by (cases "free_list s") auto
  obtain s1 where g: "make_user_table kr s = Ok (c, s1)" "grown L kr c s [c] s1" "\<And>w. uview (mem s1) c w = None"
    "sub (mem s1) c 1 = None" by (rule grown_make [OF K fl]) (rule that)
  then have s1: "make_user_table kr s = Ok (c, s1)" "cloning L kr p c s {} [c] s1" "lacks_mid (mem s1) c = 1"
    by (simp_all add: cloning_def lacks_mid_def)
  have "ent (mem s1) p 1 = ent (mem s) p 1" by (rule cloning_parent(7) [OF s1(2) A K owned_free(5) [OF A K]]) simp
  then have e: "ent (mem s1) p USER_L2_INDEX = ent (mem s) p 1" unfolding USER_L2_INDEX_eq .
  have vp: "(vpn w 1, vpn w 0) \<in> {..<512} \<times> {..<512}" for w using vpn_less by (simp del: One_nat_def)
  show thesis
  proof (cases "sub (mem s) p 1")
    case None
    then have n: "ent (mem s) p 1 AND PTE_V = 0" "owned (mem s) p = {p}" by (auto simp: owned_eq sub_def split: if_splits)
    have none: "pte_of (mem s) p w = None" if "user_va w" for w
    proof -
      have "tab (mem s) p [vpn w 2, vpn w 1] = None" using None unfolding user_va_vpn [OF that] by (simp del: One_nat_def)
      then show ?thesis unfolding pte_of_def va_path_def by (simp only: option.case)
    qed
    have "cloning L kr p c s ({} \<union> UNIV) [c] s1" by (rule cloning_skip [OF s1(2)]) (rule none)
    then show thesis using s1(1) e n by (intro that [of c s1 "[c]"]) (simp_all add: clone_user_table_def Let_def)
  next
    case (Some l1)
    note card = card_owned [OF A K Some]
    have v: "ent (mem s) p 1 AND PTE_V \<noteq> 0" "pte_to_pa (ent (mem s) p 1) = l1" using Some by (auto simp: sub_def split: if_splits)
    have "sum_list (map (cost (mem s) l1) [0..<512]) + lacks_mid (mem s1) c \<le> length (free_list s1)"
      using room card s1(3) cloningD(3) [OF s1(2)] by simp
    from clone_l1_run [OF A K Some s1(2) _ _ _ this] obtain s' new where
      s': "clone_l1 c l1 [0..<512] s1 = Ok s'" "cloning L kr p c s ({..<512} \<times> {..<512}) ([c] @ new) s'"
      and n: "length new + lacks_mid (mem s') c \<le> sum_list (map (cost (mem s) l1) [0..<512]) + lacks_mid (mem s1) c"
      by (auto simp: atLeast0LessThan)
    have "cloning L kr p c s UNIV ([c] @ new) s'" using s'(2) vp unfolding cloning_def by simp
    moreover have "clone_user_table kr p s = Ok (c, s')" using s1(1) e v s'(1) by (simp add: clone_user_table_def Let_def)
    ultimately show thesis using n s1(3) card by (intro that [of c s' "[c] @ new"]) simp_all
  qed
qed

end
