(* ===== verification/Spinlock.thy ===== *)
theory Spinlock
  imports Riscv
begin

text \<open>
  \<open>src/src/spinlock.rs\<close>: the nesting counter of disabled interrupts (\<open>NOFF\<close>, \<open>INTENA\<close>) and the
  spin lock built on it.  The state is a record that every later state of the kernel extends, so the
  operations here apply to all of them.  The atomic counters wrap, as \<open>fetch_add\<close> and \<open>fetch_sub\<close> do;
  the debug assertions are panics.  A lock is its flag and its value; spinning on a taken lock is
  a \<open>partial_function\<close>, so on the one hart of this kernel, where nobody else can release it while
  interrupts are off, it is the value \<open>None\<close>.
\<close>

record irq =
  csr :: csrs
  noff :: usize
  intena :: bool

definition push_off :: "'a irq_scheme \<Rightarrow> 'a irq_scheme" where
  "push_off s =
     (let old = intr_get (csr s);
          s = s\<lparr>csr := intr_off (csr s)\<rparr>;
          s = (if noff s = 0 then s\<lparr>intena := old\<rparr> else s) in
      s\<lparr>noff := wrapping_add (noff s) 1\<rparr>)"

definition pop_off :: "'a irq_scheme \<Rightarrow> 'a irq_scheme result" where
  "pop_off s =
     bindR (assertR (\<not> intr_get (csr s)) ''pop_off with interrupts on'') (\<lambda>_.
     let n = noff s; s = s\<lparr>noff := wrapping_add (noff s) usize_max\<rparr> in
     bindR (assertR (0 < n) ''pop_off without matching push_off'') (\<lambda>_.
     Ok (if n = 1 \<and> intena s then s\<lparr>csr := intr_on (csr s)\<rparr> else s)))"

definition holding_one :: "'a irq_scheme \<Rightarrow> bool" where
  "holding_one s \<longleftrightarrow> noff s = 1"

definition saved_intena :: "'a irq_scheme \<Rightarrow> bool" where
  "saved_intena s = intena s"

definition set_intena :: "bool \<Rightarrow> 'a irq_scheme \<Rightarrow> 'a irq_scheme" where
  "set_intena b s = s\<lparr>intena := b\<rparr>"

record 'v spinlock =
  locked :: bool
  lock_value :: 'v

definition spinlock_new :: "'v \<Rightarrow> 'v spinlock" where
  "spinlock_new v = \<lparr>locked = False, lock_value = v\<rparr>"

partial_function (option) spin :: "'v spinlock \<Rightarrow> 'v spinlock option" where
  "spin l = (if locked l then spin l else Some (l\<lparr>locked := True\<rparr>))"

definition lock :: "'v spinlock \<Rightarrow> 'a irq_scheme \<Rightarrow> ('v spinlock \<times> 'a irq_scheme) option" where
  "lock l s = (let s = push_off s in map_option (\<lambda>l. (l, s)) (spin l))"

definition guard_drop :: "'v spinlock \<Rightarrow> 'a irq_scheme \<Rightarrow> ('v spinlock \<times> 'a irq_scheme) result" where
  "guard_drop l s = bindR (pop_off s) (\<lambda>s. Ok (l\<lparr>locked := False\<rparr>, s))"

text \<open>A critical section: lock, work on the value through the guard, drop the guard.\<close>

definition with_lock :: "('v \<Rightarrow> 'b \<times> 'v) \<Rightarrow> 'v spinlock \<Rightarrow> 'a irq_scheme \<Rightarrow>
    ('b \<times> 'v spinlock \<times> 'a irq_scheme) result option" where
  "with_lock f l s =
     map_option (\<lambda>(l, s). let (b, v) = f (lock_value l) in
       bindR (guard_drop (l\<lparr>lock_value := v\<rparr>) s) (\<lambda>(l, s). Ok (b, l, s))) (lock l s)"

section \<open>Nesting\<close>

text \<open>The state between operations: interrupts are off while a level is held.\<close>

definition irq_ok :: "'a irq_scheme \<Rightarrow> bool" where
  "irq_ok s \<longleftrightarrow> sstatus (csr s) \<le> usize_max \<and> noff s < usize_max \<and> (0 < noff s \<longrightarrow> \<not> intr_get (csr s))"

lemma push_off_eq:
  "irq_ok s \<Longrightarrow> push_off s =
     s\<lparr>csr := intr_off (csr s), noff := Suc (noff s),
       intena := (if noff s = 0 then intr_get (csr s) else intena s)\<rparr>"
  by (simp add: push_off_def Let_def irq_ok_def wrapping_add_def usize_max_def)

lemma push_off_ok:
  assumes "irq_ok s" and "Suc (noff s) < usize_max"
  shows "irq_ok (push_off s)" and "\<not> intr_get (csr (push_off s))" and "noff (push_off s) = Suc (noff s)"
  using assms order_trans [OF sstatus_intr_off_le, of "csr s" usize_max] by (simp_all add: push_off_eq irq_ok_def)

lemma pop_off_eq:
  assumes "irq_ok s" and "noff s = Suc n"
  shows "pop_off s = Ok (s\<lparr>noff := n, csr := (if n = 0 \<and> intena s then intr_on (csr s) else csr s)\<rparr>)"
  using assms by (simp add: pop_off_def Let_def irq_ok_def wrapping_add_def usize_max_def mod_add_self2)

text \<open>The CSRs that the end of the outermost level will restore.\<close>

definition outer_csr :: "'a irq_scheme \<Rightarrow> csrs" where
  "outer_csr s = (if 0 < noff s \<and> intena s then intr_on (csr s) else csr s)"

lemma outer_push:
  assumes "irq_ok s"
  shows "outer_csr (push_off s) = outer_csr s"
proof (cases "noff s")
  case 0
  then show ?thesis using assms
    by (cases "intr_get (csr s)") (simp_all add: push_off_eq outer_csr_def irq_ok_def intr_on_off intr_off_idle)
next
  case (Suc n)
  then show ?thesis using assms by (simp add: push_off_eq outer_csr_def irq_ok_def intr_off_idle)
qed

lemma intr_on_le: "sstatus c \<le> usize_max \<Longrightarrow> sstatus (intr_on c) \<le> usize_max"
  by (rule usize_boundI) (auto simp: intr_on_def bit_sstatus_set dest: usize_bit_bound)

lemma pop_off_ok:
  assumes "irq_ok s" and "noff s = Suc n"
  shows "\<exists>s'. pop_off s = Ok s' \<and> irq_ok s' \<and> noff s' = n \<and> outer_csr s' = outer_csr s"
  using assms intr_on_le [of "csr s"] by (auto simp: pop_off_eq irq_ok_def outer_csr_def)

lemma csr_outer: "irq_ok s \<Longrightarrow> csr s = (if noff s = 0 then outer_csr s else intr_off (outer_csr s))"
proof (cases "0 < noff s \<and> intena s")
  case True
  assume "irq_ok s"
  with True have "intr_off (intr_on (csr s)) = csr s"
    by (intro csrs.equality) (auto simp: irq_ok_def intr_off_def intr_on_def intr_get_bit bit_sstatus_set
        bit_sstatus_clear intr_on_le [unfolded intr_on_def, simplified] intro!: bit_eqI)
  with True show ?thesis by (simp add: outer_csr_def)
qed (auto simp: outer_csr_def irq_ok_def intr_off_idle)

section \<open>The interface of interrupt masking\<close>

text \<open>
  What the rest of the kernel relies on: levels nest, a level masks interrupts, and whatever the
  outermost level saw comes back when it ends.  The lemma about arbitrary sequences of
  levels is proved once here.
\<close>

datatype level = Enter | Leave

fun depth_ok :: "nat \<Rightarrow> nat \<Rightarrow> level list \<Rightarrow> bool" where
  "depth_ok bnd d [] \<longleftrightarrow> True"
| "depth_ok bnd d (Enter # ls) \<longleftrightarrow> Suc d < bnd \<and> depth_ok bnd (Suc d) ls"
| "depth_ok bnd d (Leave # ls) \<longleftrightarrow> 0 < d \<and> depth_ok bnd (d - 1) ls"

fun end_depth :: "nat \<Rightarrow> level list \<Rightarrow> nat" where
  "end_depth d [] = d"
| "end_depth d (Enter # ls) = end_depth (Suc d) ls"
| "end_depth d (Leave # ls) = end_depth (d - 1) ls"

fun run_levels :: "('s \<Rightarrow> 's) \<Rightarrow> ('s \<Rightarrow> 's result) \<Rightarrow> level list \<Rightarrow> 's \<Rightarrow> 's result" where
  "run_levels enter leave [] s = Ok s"
| "run_levels enter leave (Enter # ls) s = run_levels enter leave ls (enter s)"
| "run_levels enter leave (Leave # ls) s = bindR (leave s) (run_levels enter leave ls)"

locale interrupt_mask =
  fixes enter :: "'s \<Rightarrow> 's" and leave :: "'s \<Rightarrow> 's result"
    and depth :: "'s \<Rightarrow> nat" and outer :: "'s \<Rightarrow> 'c" and ok :: "'s \<Rightarrow> bool" and bnd :: nat
  assumes enter_ok: "ok s \<Longrightarrow> Suc (depth s) < bnd \<Longrightarrow>
      ok (enter s) \<and> depth (enter s) = Suc (depth s) \<and> outer (enter s) = outer s"
    and leave_ok: "ok s \<Longrightarrow> 0 < depth s \<Longrightarrow>
      \<exists>s'. leave s = Ok s' \<and> ok s' \<and> depth s' = depth s - 1 \<and> outer s' = outer s"
begin

lemma levels_ok:
  "ok s \<Longrightarrow> depth_ok bnd (depth s) ls \<Longrightarrow>
   \<exists>s'. run_levels enter leave ls s = Ok s' \<and> ok s' \<and> depth s' = end_depth (depth s) ls \<and> outer s' = outer s"
proof (induction ls arbitrary: s)
  case (Cons l ls)
  show ?case
  proof (cases l)
    case Enter
    with Cons enter_ok [of s] show ?thesis by (metis depth_ok.simps(2) end_depth.simps(2) run_levels.simps(2))
  next
    case Leave
    with Cons.prems leave_ok [of s] obtain s1 where
      "leave s = Ok s1" "ok s1" "depth s1 = depth s - 1" "outer s1 = outer s" by auto
    with Cons.IH [of s1] Cons.prems Leave show ?thesis by auto
  qed
qed simp

end

interpretation intr: interrupt_mask push_off pop_off noff outer_csr irq_ok usize_max
proof unfold_locales
  show "irq_ok (push_off s) \<and> noff (push_off s) = Suc (noff s) \<and> outer_csr (push_off s) = outer_csr s"
    if "irq_ok s" "Suc (noff s) < usize_max" for s :: "'a irq_scheme"
    using that by (simp add: push_off_ok outer_push)
  show "\<exists>s'. pop_off s = Ok s' \<and> irq_ok s' \<and> noff s' = noff s - 1 \<and> outer_csr s' = outer_csr s"
    if "irq_ok s" "0 < noff s" for s :: "'a irq_scheme"
    using that pop_off_ok [of s "noff s - 1"] by simp
qed

section \<open>The lock\<close>

lemma spin_free: "\<not> locked l \<Longrightarrow> spin l = Some (l\<lparr>locked := True\<rparr>)"
  by (subst spin.simps) simp

lemma spin_SomeD: "spin l = Some l' \<Longrightarrow> \<not> locked l"
  by (rule spin.raw_induct [where P = "\<lambda>l l'. \<not> locked l"]) (auto split: if_splits)

lemma spin_taken: "locked l \<Longrightarrow> spin l = None"
  using spin_SomeD [of l] by (cases "spin l") auto

definition idle_irq :: irq where
  "idle_irq = \<lparr>csr = \<lparr>sstatus = SSTATUS_SIE, sie = 0, sepc_csr = 0, stvec = 0, scause = 0, stval = 0,
     satp = 0, sscratch = 0\<rparr>, noff = 0, intena = False\<rparr>"

lemma idle_irq_ok: "irq_ok idle_irq" "intr_get (csr idle_irq)"
  by (simp_all add: idle_irq_def irq_ok_def intr_get_def usize_max_eq sstatus_pow)

section \<open>Properties\<close>

text \<open>
  C35. Interrupt masking nests.  Any sequence of \<open>push_off\<close> and \<open>pop_off\<close> that never pops more levels
  than are held runs without panic, ends at the depth the sequence says, has interrupts off
  whenever that depth is positive, and, when it ends at the depth it began with, gives back the
  CSRs, interrupt enable included, exactly as they were.
\<close>

theorem push_pop_nesting:
  fixes s :: "'a irq_scheme"
  assumes "irq_ok s" and "depth_ok usize_max (noff s) ls"
  shows "\<exists>s'. run_levels push_off pop_off ls s = Ok s' \<and> noff s' = end_depth (noff s) ls \<and>
     (0 < noff s' \<longrightarrow> \<not> intr_get (csr s')) \<and> (noff s' = noff s \<longrightarrow> csr s' = csr s)"
proof -
  from intr.levels_ok [OF assms] obtain s' where "run_levels push_off pop_off ls s = Ok s'" "irq_ok s'"
    "noff s' = end_depth (noff s) ls" "outer_csr s' = outer_csr s" by blast
  moreover have "csr s' = csr s" if "noff s' = noff s"
    using csr_outer [OF \<open>irq_ok s'\<close>] csr_outer [OF assms(1)] that \<open>outer_csr s' = outer_csr s\<close> by simp
  moreover have "\<not> intr_get (csr s')" if "0 < noff s'" using \<open>irq_ok s'\<close> that by (simp add: irq_ok_def)
  ultimately show ?thesis by (intro exI [of _ s'] conjI impI)
qed

theorem push_pop_nesting_witness:
  "\<exists>s'. run_levels push_off pop_off [Enter, Enter, Leave, Leave] idle_irq = Ok s' \<and> csr s' = csr idle_irq"
  using push_pop_nesting [OF idle_irq_ok(1), of "[Enter, Enter, Leave, Leave]"]
  by (auto simp: idle_irq_def usize_max_eq)

text \<open>
  A spin lock that is free is taken and given back: the critical section runs with interrupts
  off on the protected value, its result and the updated value come out, the lock is free again and
  the CSRs are as before.  Taking a lock that is already held never returns, which is why interrupts
  must be off while one is held.
\<close>

theorem with_lock_correct:
  fixes s :: "'a irq_scheme"
  assumes "irq_ok s" and "Suc (noff s) < usize_max"
  shows "(\<not> locked l \<longrightarrow> (\<exists>s'. with_lock f l s =
            Some (Ok (fst (f (lock_value l)), l\<lparr>lock_value := snd (f (lock_value l))\<rparr>, s')) \<and>
            csr s' = csr s \<and> noff s' = noff s)) \<and>
         (\<forall>l' s'. lock l s = Some (l', s') \<longrightarrow> locked l' \<and> \<not> intr_get (csr s')) \<and>
         (locked l \<longrightarrow> with_lock f l s = None)"
proof (intro conjI allI impI)
  note p = push_off_ok [OF assms] outer_push [OF assms(1)]
  from pop_off_ok [OF p(1,3)] obtain s' where s': "pop_off (push_off s) = Ok s'" "irq_ok s'" "noff s' = noff s"
    "outer_csr s' = outer_csr (push_off s)" by blast
  then have "csr s' = csr s" using csr_outer [of s'] csr_outer [OF assms(1)] p(4) by simp
  then show "\<exists>s'. with_lock f l s =
      Some (Ok (fst (f (lock_value l)), l\<lparr>lock_value := snd (f (lock_value l))\<rparr>, s')) \<and>
      csr s' = csr s \<and> noff s' = noff s" if "\<not> locked l"
    using that s' by (intro exI [of _ s'])
      (simp add: with_lock_def lock_def guard_drop_def spin_free Let_def split: prod.splits)
  show "locked l'" "\<not> intr_get (csr s')" if "lock l s = Some (l', s')" for l' s'
    using that p(2) by (cases "locked l"; auto simp: lock_def Let_def spin_free spin_taken)+
  show "with_lock f l s = None" if "locked l"
    using that by (simp add: with_lock_def lock_def spin_taken Let_def)
qed

theorem with_lock_correct_witness:
  "\<exists>s'. with_lock (\<lambda>v. (v, v + 1)) (spinlock_new (3::nat)) idle_irq = Some (Ok (3, spinlock_new 4, s')) \<and>
     csr s' = csr idle_irq"
  using with_lock_correct [OF idle_irq_ok(1), of "spinlock_new (3::nat)" "\<lambda>v. (v, v + 1)"]
  by (auto simp: spinlock_new_def idle_irq_def usize_max_eq)

end
