(* ===== verification/Proc.thy ===== *)
theory Proc
  imports Vm Spinlock
begin

text \<open>
  \<open>src/src/proc.rs\<close>: processes, the round-robin scheduler, sleep and wakeup, file descriptors, the
  user heap, \<open>fork\<close> and \<open>exec\<close>.  The state \<open>sched\<close> extends the interrupt state of \<open>Spinlock\<close> with
  physical memory, the fields of \<open>Scheduler\<close>, the pid counter and the callee-saved registers of the
  hart.

  Control leaves a thread at \<open>swtch\<close> (\<open>switch.S\<close>), so every function that reaches it is cut there.
  The part before it returns \<open>Switch k\<close> when the hart has been handed to the scheduler, where \<open>k\<close>
  names what the thread's kernel stack still has to do; the part after it is a function of its own,
  \<open><name>_back\<close>.  The local variable \<open>intena\<close> of a suspended \<open>sched()\<close> is kept in the process record.
  The addresses of kernel stacks come from the heap and are arguments; the closures passed to
  \<open>with_current\<close> and \<open>spawn_with\<close> are functions on the process.
\<close>

section \<open>Data\<close>

definition KSTACK_SIZE :: usize where "KSTACK_SIZE = 16 * 1024"
definition MAX_FDS :: usize where "MAX_FDS = 8"

record fd_entry =
  file_idx :: usize
  fd_offset :: usize

record ctx =
  ctx_ra :: usize
  ctx_sp :: usize
  ctx_s :: "usize list"

definition zeroed :: ctx where
  "zeroed = \<lparr>ctx_ra = 0, ctx_sp = 0, ctx_s = replicate 12 0\<rparr>"

text \<open>\<open>TrapFrame\<close> of \<open>src/src/trap.rs\<close>.\<close>

record trap_frame =
  tf_ra :: usize   tf_sp :: usize   tf_gp :: usize   tf_tp :: usize
  tf_t0 :: usize   tf_t1 :: usize   tf_t2 :: usize
  tf_s0 :: usize   tf_s1 :: usize
  tf_a0 :: usize   tf_a1 :: usize   tf_a2 :: usize   tf_a3 :: usize
  tf_a4 :: usize   tf_a5 :: usize   tf_a6 :: usize   tf_a7 :: usize
  tf_s2 :: usize   tf_s3 :: usize   tf_s4 :: usize   tf_s5 :: usize   tf_s6 :: usize
  tf_s7 :: usize   tf_s8 :: usize   tf_s9 :: usize   tf_s10 :: usize  tf_s11 :: usize
  tf_t3 :: usize   tf_t4 :: usize   tf_t5 :: usize   tf_t6 :: usize
  tf_sepc :: usize
  tf_sstatus :: usize

datatype pstate = Runnable | Running | Sleeping usize | Zombie

text \<open>The function pointer \<open>entry\<close>: the two bodies of user processes, or a kernel thread's.\<close>

datatype entry_fn = User_thread_body | Forkret_body | Kernel_body string

record process =
  pid :: usize
  pname :: string
  pstate :: pstate
  pcontext :: ctx
  entry :: entry_fn
  kstack_top :: usize
  user_entry :: usize
  user_sp :: usize
  page_table :: usize
  user_table :: "usize option"
  heap_base :: usize
  heap_brk :: usize
  fds :: "fd_entry option list"
  fork_frame :: "trap_frame option"
  kstack :: usize
  sched_intena :: bool

record sched = irq +
  ram :: phys
  kernel_root :: usize
  procs :: "process option list"
  current :: "nat option"
  next_slot :: usize
  scheduler_ctx :: ctx
  next_pid :: usize
  hart :: ctx
  thread_entry_at :: usize

text \<open>What a switched-out thread does when the scheduler switches back to it: finish \<open>yield_now\<close>, or
  take another turn of the loop in which it slept.\<close>

datatype kont = K_yield | K_join usize | K_ticks usize | K_getchar | K_dead

datatype ('a, 'k) outcome = Return 'a | Switch 'k

definition sched_data :: "('a irq_scheme) \<Rightarrow> unit result" where
  "sched_data s = assertR (\<not> intr_get (csr s)) ''scheduler state touched with interrupts on''"

text \<open>Indexing the slot table.\<close>

definition slot_at :: "process option list \<Rightarrow> nat \<Rightarrow> process option result" where
  "slot_at ps i = (if i < length ps then Ok (ps ! i) else Panic ''index out of bounds'')"

definition set_proc :: "nat \<Rightarrow> process \<Rightarrow> 'a sched_scheme \<Rightarrow> 'a sched_scheme" where
  "set_proc i p s = s\<lparr>procs := (procs s)[i := Some p]\<rparr>"

section \<open>Creating processes\<close>

definition new_process :: "usize \<Rightarrow> string \<Rightarrow> entry_fn \<Rightarrow> usize \<Rightarrow> usize \<Rightarrow> usize \<Rightarrow> process" where
  "new_process i name e stk stack_top kroot =
     \<lparr>pid = i, pname = name, pstate = Runnable, pcontext = zeroed, entry = e, kstack_top = stack_top,
      user_entry = 0, user_sp = 0, page_table = kroot, user_table = None, heap_base = 0, heap_brk = 0,
      fds = replicate MAX_FDS None, fork_frame = None, kstack = stk, sched_intena = False\<rparr>"

text \<open>The slot table with a new process in the first free slot, or at its end.\<close>

definition publish :: "process \<Rightarrow> process option list \<Rightarrow> process option list" where
  "publish p ps =
     (case position (\<lambda>slot. slot = None) ps of
        Some slot \<Rightarrow> ps[slot := Some p]
      | None \<Rightarrow> ps @ [Some p])"

definition spawn_with :: "usize \<Rightarrow> string \<Rightarrow> entry_fn \<Rightarrow> (process \<Rightarrow> process) \<Rightarrow>
    'a sched_scheme \<Rightarrow> (usize \<times> 'a sched_scheme) result" where
  "spawn_with stk name e configure s =
     bindR (uadd stk KSTACK_SIZE) (\<lambda>top.
     let stack_top = top AND unot 0xf;
         i = next_pid s;
         s = s\<lparr>next_pid := wrapping_add (next_pid s) 1\<rparr>;
         p = configure (new_process i name e stk stack_top (kernel_root s));
         p = p\<lparr>pcontext := (pcontext p)\<lparr>ctx_ra := thread_entry_at s, ctx_sp := stack_top\<rparr>\<rparr>;
         s = push_off s in
     bindR (sched_data s) (\<lambda>_.
     bindR (pop_off (s\<lparr>procs := publish p (procs s)\<rparr>)) (\<lambda>s.
     Ok (i, s))))"

definition attach_user_space :: "usize \<Rightarrow> usize \<Rightarrow> usize \<Rightarrow> process \<Rightarrow> process" where
  "attach_user_space table e sp p =
     p\<lparr>page_table := table, user_table := Some table, user_entry := e, user_sp := sp,
       heap_base := USER_HEAP_BASE, heap_brk := USER_HEAP_BASE\<rparr>"

definition spawn :: "usize \<Rightarrow> string \<Rightarrow> entry_fn \<Rightarrow> 'a sched_scheme \<Rightarrow> (usize \<times> 'a sched_scheme) result" where
  "spawn stk name e s = spawn_with stk name e (\<lambda>p. p) s"

fun load_text :: "usize \<Rightarrow> usize \<Rightarrow> usize \<Rightarrow> nat list \<Rightarrow> phys \<Rightarrow> phys result" where
  "load_text table src len [] s = Ok s"
| "load_text table src len (i # is) s =
     bindR (kalloc_alloc s) (\<lambda>(p, s).
     bindR (expectR p ''no page for user text'') (\<lambda>page.
     bindR (umul i PAGE_SIZE) (\<lambda>off.
     bindR (usub len off) (\<lambda>rest.
     bindR (uadd src off) (\<lambda>from.
     bindR (uadd USER_TEXT off) (\<lambda>va.
     bindR (map_pages table va page PAGE_SIZE (PTE_R OR PTE_X OR PTE_U)
              (s\<lparr>mem := copy_nonoverlapping (mem s) from page (min rest PAGE_SIZE)\<rparr>)) (\<lambda>s.
     load_text table src len is s)))))))"

definition load_user_image :: "usize \<Rightarrow> usize \<times> usize \<Rightarrow> phys \<Rightarrow> (usize \<times> phys) result" where
  "load_user_image kroot prog s =
     (let (src, len) = prog in
      bindR (assertR (0 < len) ''empty user program'') (\<lambda>_.
      bindR (make_user_table kroot s) (\<lambda>(table, s).
      bindR (load_text table src len [0..<div_ceil len PAGE_SIZE] s) (\<lambda>s.
      bindR (kalloc_alloc s) (\<lambda>(p, s).
      bindR (expectR p ''no page for user stack'') (\<lambda>stack.
      bindR (map_pages table (USER_STACK_TOP - PAGE_SIZE) stack PAGE_SIZE (PTE_R OR PTE_W OR PTE_U) s) (\<lambda>s.
      Ok (table, s))))))))"

definition spawn_user :: "usize \<Rightarrow> string \<Rightarrow> usize \<times> usize \<Rightarrow> 'a sched_scheme \<Rightarrow>
    (usize \<times> 'a sched_scheme) result" where
  "spawn_user stk name prog s =
     bindR (load_user_image (kernel_root s) prog (ram s)) (\<lambda>(table, m).
     spawn_with stk name User_thread_body (attach_user_space table USER_TEXT USER_STACK_TOP) (s\<lparr>ram := m\<rparr>))"

section \<open>The current process\<close>

definition with_current :: "(process \<Rightarrow> ('b \<times> process) result) \<Rightarrow> 'a sched_scheme \<Rightarrow>
    ('b option \<times> 'a sched_scheme) result" where
  "with_current f s =
     (let s = push_off s in
      bindR (sched_data s) (\<lambda>_.
      bindR (case current s of
               None \<Rightarrow> Ok (None, s)
             | Some cur \<Rightarrow>
                 bindR (slot_at (procs s) cur) (\<lambda>slot.
                 case slot of
                   None \<Rightarrow> Ok (None, s)
                 | Some p \<Rightarrow> bindR (f p) (\<lambda>(out, p). Ok (Some out, set_proc cur p s)))) (\<lambda>(out, s).
      bindR (pop_off s) (\<lambda>s. Ok (out, s)))))"

definition fd_install_body :: "usize \<Rightarrow> process \<Rightarrow> (usize option \<times> process) result" where
  "fd_install_body idx p =
     (case position (\<lambda>slot. slot = None) (fds p) of
        None \<Rightarrow> Ok (None, p)
      | Some fd \<Rightarrow> Ok (Some fd, p\<lparr>fds := (fds p)[fd := Some \<lparr>file_idx = idx, fd_offset = 0\<rparr>]\<rparr>))"

definition fd_install :: "usize \<Rightarrow> 'a sched_scheme \<Rightarrow> (usize option \<times> 'a sched_scheme) result" where
  "fd_install idx s = bindR (with_current (fd_install_body idx) s) (\<lambda>(r, s). Ok (Option.bind r (\<lambda>x. x), s))"

definition fd_entry_of :: "usize \<Rightarrow> process \<Rightarrow> fd_entry option" where
  "fd_entry_of fd p = Option.bind (get_at (fds p) fd) (\<lambda>x. x)"

definition fd_lookup :: "usize \<Rightarrow> 'a sched_scheme \<Rightarrow> ((usize \<times> usize) option \<times> 'a sched_scheme) result" where
  "fd_lookup fd s =
     bindR (with_current (\<lambda>p. Ok (map_option (\<lambda>e. (file_idx e, fd_offset e)) (fd_entry_of fd p), p)) s)
       (\<lambda>(r, s). Ok (Option.bind r (\<lambda>x. x), s))"

definition fd_advance_body :: "usize \<Rightarrow> usize \<Rightarrow> process \<Rightarrow> (unit \<times> process) result" where
  "fd_advance_body fd delta p =
     (case fd_entry_of fd p of
        None \<Rightarrow> Ok ((), p)
      | Some e \<Rightarrow>
          bindR (uadd (fd_offset e) delta) (\<lambda>n.
          Ok ((), p\<lparr>fds := (fds p)[fd := Some (e\<lparr>fd_offset := n\<rparr>)]\<rparr>)))"

definition fd_advance :: "usize \<Rightarrow> usize \<Rightarrow> 'a sched_scheme \<Rightarrow> 'a sched_scheme result" where
  "fd_advance fd delta s = bindR (with_current (fd_advance_body fd delta) s) (\<lambda>(_, s). Ok s)"

definition fd_close_body :: "usize \<Rightarrow> process \<Rightarrow> (bool \<times> process) result" where
  "fd_close_body fd p =
     (case fd_entry_of fd p of
        None \<Rightarrow> Ok (False, p)
      | Some _ \<Rightarrow> Ok (True, p\<lparr>fds := (fds p)[fd := None]\<rparr>))"

definition fd_close :: "usize \<Rightarrow> 'a sched_scheme \<Rightarrow> (bool \<times> 'a sched_scheme) result" where
  "fd_close fd s = bindR (with_current (fd_close_body fd) s) (\<lambda>(r, s). Ok (r = Some True, s))"

definition current_root :: "'a sched_scheme \<Rightarrow> (usize \<times> 'a sched_scheme) result" where
  "current_root s =
     bindR (with_current (\<lambda>p. Ok (page_table p, p)) s) (\<lambda>(r, s).
     Ok (case r of Some t \<Rightarrow> t | None \<Rightarrow> kernel_root s, s))"

definition sbrk_body :: "usize \<Rightarrow> process \<Rightarrow> (usize \<times> process) result" where
  "sbrk_body delta p =
     (let old = heap_brk p in
      case checked_add old delta of
        None \<Rightarrow> Ok (usize_max, p)
      | Some new \<Rightarrow>
          if new > USER_HEAP_MAX then Ok (usize_max, p) else Ok (old, p\<lparr>heap_brk := new\<rparr>))"

definition sbrk :: "usize \<Rightarrow> 'a sched_scheme \<Rightarrow> (usize \<times> 'a sched_scheme) result" where
  "sbrk delta s =
     bindR (with_current (sbrk_body delta) s) (\<lambda>(r, s).
     Ok (case r of Some v \<Rightarrow> v | None \<Rightarrow> usize_max, s))"

definition service_page_fault :: "usize \<Rightarrow> 'a sched_scheme \<Rightarrow> (bool \<times> 'a sched_scheme) result" where
  "service_page_fault addr s =
     bindR (with_current (\<lambda>p. Ok ((heap_base p, heap_brk p, page_table p), p)) s) (\<lambda>(r, s).
     case r of
       None \<Rightarrow> Ok (False, s)
     | Some (base, brk, table) \<Rightarrow>
         if addr < base \<or> addr \<ge> brk then Ok (False, s)
         else
           let page_va = addr AND unot (PAGE_SIZE - 1) in
           bindR (translate table page_va (ram s)) (\<lambda>t.
           if t \<noteq> None then Ok (False, s)
           else
             bindR (kalloc_alloc (ram s)) (\<lambda>(p, m).
             let s = s\<lparr>ram := m\<rparr> in
             case p of
               None \<Rightarrow> Ok (False, s)
             | Some frame \<Rightarrow>
                 bindR (map_pages table page_va frame PAGE_SIZE (PTE_R OR PTE_W OR PTE_U) (ram s)) (\<lambda>m.
                 Ok (True, s\<lparr>ram := m\<rparr>)))))"

definition current_pid :: "'a sched_scheme \<Rightarrow> (usize \<times> 'a sched_scheme) result" where
  "current_pid s =
     (let s = push_off s in
      bindR (sched_data s) (\<lambda>_.
      bindR (case current s of
               None \<Rightarrow> Ok None
             | Some cur \<Rightarrow> slot_at (procs s) cur) (\<lambda>p.
      bindR (pop_off s) (\<lambda>s.
      Ok (case p of None \<Rightarrow> 0 | Some p \<Rightarrow> pid p, s)))))"

text \<open>\<open>iter().flatten()\<close> over the slots.\<close>

definition live :: "process option list \<Rightarrow> process list" where
  "live ps = map the (filter (\<lambda>x. x \<noteq> None) ps)"

definition process_list :: "'a sched_scheme \<Rightarrow> ((usize \<times> string \<times> pstate) list \<times> 'a sched_scheme) result" where
  "process_list s =
     (let s = push_off s in
      bindR (sched_data s) (\<lambda>_.
      let list = map (\<lambda>p. (pid p, pname p, pstate p)) (live (procs s)) in
      bindR (pop_off s) (\<lambda>s. Ok (list, s))))"

section \<open>Switching\<close>

text \<open>\<open>sched()\<close> up to and including its \<open>swtch\<close>: the hart's callee-saved registers go to the process
  and the scheduler's are loaded.\<close>

definition sched_out :: "'a sched_scheme \<Rightarrow> 'a sched_scheme result" where
  "sched_out s =
     bindR (assertR (holding_one s) ''sched: push_off depth != 1'') (\<lambda>_.
     bindR (sched_data s) (\<lambda>_.
     bindR (expectR (current s) ''sched: no current thread'') (\<lambda>cur.
     bindR (slot_at (procs s) cur) (\<lambda>slot.
     bindR (expectR slot ''sched: empty slot'') (\<lambda>p.
     bindR (assertR (pstate p \<noteq> Running) ''sched: still Running'') (\<lambda>_.
     Ok ((set_proc cur (p\<lparr>sched_intena := saved_intena s, pcontext := hart s\<rparr>) s)
           \<lparr>hart := scheduler_ctx s\<rparr>)))))))"

text \<open>The rest of \<open>sched()\<close>, back on the thread's stack.\<close>

definition sched_back :: "bool \<Rightarrow> 'a irq_scheme \<Rightarrow> 'a irq_scheme" where
  "sched_back ie s = set_intena ie s"

definition set_current_state :: "pstate \<Rightarrow> nat \<Rightarrow> 'a sched_scheme \<Rightarrow> 'a sched_scheme result" where
  "set_current_state st cur s =
     bindR (slot_at (procs s) cur) (\<lambda>slot.
     bindR (expectR slot ''called `Option::unwrap()` on a `None` value'') (\<lambda>p.
     Ok (set_proc cur (p\<lparr>pstate := st\<rparr>) s)))"

definition yield_now :: "'a sched_scheme \<Rightarrow> ((unit, kont) outcome \<times> 'a sched_scheme) result" where
  "yield_now s =
     (let s = push_off s in
      bindR (sched_data s) (\<lambda>_.
      case current s of
        Some cur \<Rightarrow>
          bindR (set_current_state Runnable cur s) (\<lambda>s.
          bindR (sched_out s) (\<lambda>s. Ok (Switch K_yield, s)))
      | None \<Rightarrow> bindR (pop_off s) (\<lambda>s. Ok (Return (), s))))"

definition yield_back :: "bool \<Rightarrow> 'a irq_scheme \<Rightarrow> 'a irq_scheme result" where
  "yield_back ie s = pop_off (sched_back ie s)"

definition on_tick_preempt :: "'a sched_scheme \<Rightarrow> ((unit, kont) outcome \<times> 'a sched_scheme) result" where
  "on_tick_preempt s =
     (let s = push_off s in
      bindR (sched_data s) (\<lambda>_.
      bindR (case current s of
               Some cur \<Rightarrow>
                 bindR (slot_at (procs s) cur) (\<lambda>slot.
                 bindR (expectR slot ''called `Option::unwrap()` on a `None` value'') (\<lambda>p.
                 Ok (pstate p = Running)))
             | None \<Rightarrow> Ok False) (\<lambda>should_yield.
      bindR (pop_off s) (\<lambda>s.
      if should_yield then yield_now s else Ok (Return (), s)))))"

text \<open>\<open>sleep\<close> up to its \<open>swtch\<close>.\<close>

definition sleep :: "usize \<Rightarrow> 'a sched_scheme \<Rightarrow> 'a sched_scheme result" where
  "sleep chan s =
     bindR (sched_data s) (\<lambda>_.
     bindR (expectR (current s) ''sleep outside a thread'') (\<lambda>cur.
     bindR (set_current_state (Sleeping chan) cur s) (\<lambda>s.
     sched_out s)))"

definition wake :: "usize \<Rightarrow> process \<Rightarrow> process" where
  "wake chan p = (if pstate p = Sleeping chan then p\<lparr>pstate := Runnable\<rparr> else p)"

definition wakeup :: "usize \<Rightarrow> 'a sched_scheme \<Rightarrow> 'a sched_scheme result" where
  "wakeup chan s =
     (let s = push_off s in
      bindR (sched_data s) (\<lambda>_.
      pop_off (s\<lparr>procs := map (map_option (wake chan)) (procs s)\<rparr>)))"

definition EXIT_CHAN :: usize where "EXIT_CHAN = 0xdead0001"

definition exit :: "'a sched_scheme \<Rightarrow> ((unit, kont) outcome \<times> 'a sched_scheme) result" where
  "exit s =
     (let s = push_off s in
      bindR (sched_data s) (\<lambda>_.
      bindR (expectR (current s) ''exit outside a thread'') (\<lambda>cur.
      bindR (set_current_state Zombie cur s) (\<lambda>s.
      bindR (wakeup EXIT_CHAN s) (\<lambda>s.
      bindR (sched_out s) (\<lambda>s. Ok (Switch K_dead, s)))))))"

definition exit_back :: "'a irq_scheme \<Rightarrow> 'a irq_scheme result" where
  "exit_back s = Panic ''internal error: entered unreachable code: zombie thread rescheduled''"

text \<open>One turn of the loop of \<open>join\<close>; after a wakeup, \<open>join_back\<close> finishes the turn and takes the next.\<close>

definition join :: "usize \<Rightarrow> 'a sched_scheme \<Rightarrow> ((unit, kont) outcome \<times> 'a sched_scheme) result" where
  "join i s =
     (let s = push_off s in
      bindR (sched_data s) (\<lambda>_.
      let still_running = list_ex (\<lambda>p. pid p = i \<and> pstate p \<noteq> Zombie) (live (procs s)) in
      if \<not> still_running then bindR (pop_off s) (\<lambda>s. Ok (Return (), s))
      else bindR (sleep EXIT_CHAN s) (\<lambda>s. Ok (Switch (K_join i), s))))"

definition join_back :: "usize \<Rightarrow> bool \<Rightarrow> 'a sched_scheme \<Rightarrow> ((unit, kont) outcome \<times> 'a sched_scheme) result" where
  "join_back i ie s = bindR (pop_off (sched_back ie s)) (join i)"

section \<open>Entering user mode\<close>

text \<open>The instruction \<open>sret\<close>: the program counter it jumps to, whether it lands in U-mode, and the CSRs.\<close>

definition sret :: "csrs \<Rightarrow> usize \<times> bool \<times> csrs" where
  "sret c =
     (let st = sstatus c;
          ie = (if st AND SSTATUS_SPIE \<noteq> 0 then csr_set st SSTATUS_SIE else csr_clear st SSTATUS_SIE) in
      (sepc_csr c, st AND SSTATUS_SPP = 0,
       c\<lparr>sstatus := csr_clear (csr_set ie SSTATUS_SPIE) SSTATUS_SPP\<rparr>))"

text \<open>How the hart starts to run user code: at a fresh entry with only the stack pointer set, or with
  all registers of a frame.\<close>

datatype user_regs = Fresh usize | Regs trap_frame

record user_launch =
  upc :: usize
  uregs :: user_regs
  umode :: bool

definition enter_user :: "usize \<Rightarrow> usize \<Rightarrow> usize \<Rightarrow> 'a irq_scheme \<Rightarrow> user_launch \<times> 'a irq_scheme" where
  "enter_user e sp ktop s =
     (let c = intr_off (csr s);
          c = c\<lparr>sscratch := ktop\<rparr>;
          c = c\<lparr>sepc_csr := e\<rparr>;
          c = c\<lparr>sstatus := csr_clear (sstatus c) SSTATUS_SPP\<rparr>;
          c = c\<lparr>sstatus := csr_set (sstatus c) SSTATUS_SPIE\<rparr>;
          (pc, u, c) = sret c in
      (\<lparr>upc = pc, uregs = Fresh sp, umode = u\<rparr>, s\<lparr>csr := c\<rparr>))"

text \<open>\<open>userret.S\<close>.\<close>

definition userret :: "trap_frame \<Rightarrow> usize \<Rightarrow> 'a irq_scheme \<Rightarrow> user_launch \<times> 'a irq_scheme" where
  "userret frame ktop s =
     (let c = (csr s)\<lparr>sscratch := ktop\<rparr>;
          c = c\<lparr>sepc_csr := tf_sepc frame\<rparr>;
          c = c\<lparr>sstatus := tf_sstatus frame\<rparr>;
          (pc, u, c) = sret c in
      (\<lparr>upc = pc, uregs = Regs frame, umode = u\<rparr>, s\<lparr>csr := c\<rparr>))"

definition exec :: "layout \<Rightarrow> usize \<times> usize \<Rightarrow> 'a sched_scheme \<Rightarrow> (user_launch \<times> 'a sched_scheme) result" where
  "exec L prog s =
     bindR (load_user_image (kernel_root s) prog (ram s)) (\<lambda>(new_table, m).
     bindR (with_current (\<lambda>p.
              Ok ((user_table p, kstack_top p),
                  p\<lparr>page_table := new_table, user_table := Some new_table, user_entry := USER_TEXT,
                    user_sp := USER_STACK_TOP, heap_base := USER_HEAP_BASE, heap_brk := USER_HEAP_BASE,
                    fork_frame := None\<rparr>)) (s\<lparr>ram := m\<rparr>)) (\<lambda>(r, s).
     bindR (expectR r ''exec outside a process'') (\<lambda>(old_table, ktop).
     bindR (switch_to new_table (intr_off (csr s))) (\<lambda>c.
     let s = s\<lparr>csr := c\<rparr> in
     bindR (case old_table of
              Some old \<Rightarrow> bindR (free_user_table L old (ram s)) (\<lambda>m. Ok (s\<lparr>ram := m\<rparr>))
            | None \<Rightarrow> Ok s) (\<lambda>s.
     Ok (enter_user USER_TEXT USER_STACK_TOP ktop s))))))"

definition fork :: "usize \<Rightarrow> trap_frame \<Rightarrow> 'a sched_scheme \<Rightarrow> (usize \<times> 'a sched_scheme) result" where
  "fork stk parent_frame s =
     bindR (with_current (\<lambda>p. Ok ((page_table p, heap_base p, heap_brk p, fds p), p)) s) (\<lambda>(r, s).
     case r of
       None \<Rightarrow> Ok (usize_max, s)
     | Some (ptable, pbase, pbrk, pfds) \<Rightarrow>
         bindR (clone_user_table (kernel_root s) ptable (ram s)) (\<lambda>(child_table, m).
         let child_frame = parent_frame\<lparr>tf_a0 := 0\<rparr> in
         spawn_with stk ''u-fork-child'' Forkret_body
           (\<lambda>p. (attach_user_space child_table (tf_sepc parent_frame) (tf_sp parent_frame) p)
                  \<lparr>heap_base := pbase, heap_brk := pbrk, fds := pfds, fork_frame := Some child_frame\<rparr>)
           (s\<lparr>ram := m\<rparr>)))"

definition forkret_body :: "'a sched_scheme \<Rightarrow> (user_launch \<times> 'a sched_scheme) result" where
  "forkret_body s =
     bindR (with_current (\<lambda>p.
              bindR (expectR (fork_frame p) ''forked child without a frame'') (\<lambda>fr.
              Ok ((fr, kstack_top p), p))) s) (\<lambda>(r, s).
     bindR (expectR r ''no current process'') (\<lambda>(fr, ktop).
     Ok (userret fr ktop (s\<lparr>csr := intr_off (csr s)\<rparr>))))"

definition user_thread_body :: "'a sched_scheme \<Rightarrow> (user_launch \<times> 'a sched_scheme) result" where
  "user_thread_body s =
     bindR (with_current (\<lambda>p. Ok ((user_entry p, user_sp p, kstack_top p), p)) s) (\<lambda>(r, s).
     bindR (expectR r ''no current process'') (\<lambda>(e, sp, ktop).
     bindR (assertR (e \<noteq> 0) ''user process with no entry point'') (\<lambda>_.
     Ok (enter_user e sp ktop s))))"

text \<open>\<open>thread_entry\<close> up to the call of the thread's body, which it returns.\<close>

definition thread_entry :: "'a sched_scheme \<Rightarrow> (entry_fn \<times> 'a sched_scheme) result" where
  "thread_entry s =
     bindR (pop_off s) (\<lambda>s.
     let s = s\<lparr>csr := intr_on (csr s)\<rparr>;
         s = push_off s in
     bindR (sched_data s) (\<lambda>_.
     bindR (expectR (current s) ''thread_entry with no current'') (\<lambda>cur.
     bindR (slot_at (procs s) cur) (\<lambda>slot.
     bindR (expectR slot ''current slot empty'') (\<lambda>p.
     bindR (pop_off s) (\<lambda>s.
     Ok (entry p, s)))))))"

section \<open>The scheduler loop\<close>

fun reap :: "layout \<Rightarrow> process option list \<Rightarrow> phys \<Rightarrow> (process option list \<times> phys) result" where
  "reap L [] m = Ok ([], m)"
| "reap L (slot # slots) m =
     bindR (case slot of
              Some p \<Rightarrow>
                if pstate p = Zombie
                then bindR (case user_table p of
                              Some table \<Rightarrow> free_user_table L table m
                            | None \<Rightarrow> Ok m) (\<lambda>m. Ok (None, m))
                else Ok (slot, m)
            | None \<Rightarrow> Ok (slot, m)) (\<lambda>(slot, m).
     bindR (reap L slots m) (\<lambda>(slots, m).
     Ok (slot # slots, m)))"

definition is_runnable :: "process option \<Rightarrow> bool" where
  "is_runnable slot = (case slot of Some p \<Rightarrow> pstate p = Runnable | None \<Rightarrow> False)"

fun scan :: "process option list \<Rightarrow> usize \<Rightarrow> nat list \<Rightarrow> nat option result" where
  "scan ps start [] = Ok None"
| "scan ps start (i # is) =
     bindR (uadd start i) (\<lambda>k.
     let idx = k mod length ps in
     bindR (slot_at ps idx) (\<lambda>slot.
     if is_runnable slot then Ok (Some idx) else scan ps start is))"

text \<open>One turn of the loop up to the \<open>swtch\<close> into the thread it picked, or the whole turn when nothing
  is runnable.\<close>

definition scheduler_turn :: "layout \<Rightarrow> 'a sched_scheme \<Rightarrow> (nat option \<times> 'a sched_scheme) result" where
  "scheduler_turn L s =
     (let s = push_off (s\<lparr>csr := intr_on (csr s)\<rparr>) in
      bindR (sched_data s) (\<lambda>_.
      bindR (reap L (procs s) (ram s)) (\<lambda>(ps, m).
      let s = s\<lparr>procs := ps, ram := m\<rparr> in
      bindR (scan (procs s) (next_slot s) [0..<length (procs s)]) (\<lambda>picked.
      case picked of
        Some idx \<Rightarrow>
          bindR (uadd idx 1) (\<lambda>nxt.
          let s = s\<lparr>next_slot := nxt, current := Some idx\<rparr> in
          bindR (set_current_state Running idx s) (\<lambda>s.
          bindR (slot_at (procs s) idx) (\<lambda>slot.
          bindR (expectR slot ''called `Option::unwrap()` on a `None` value'') (\<lambda>p.
          bindR (switch_to (page_table p) (csr s)) (\<lambda>c.
          Ok (Some idx, s\<lparr>csr := c, scheduler_ctx := hart s, hart := pcontext p\<rparr>))))))
      | None \<Rightarrow>
          bindR (pop_off s) (\<lambda>s.
          Ok (None, s\<lparr>csr := intr_on (csr s)\<rparr>))))))"

text \<open>The rest of a turn, after a thread has switched back to the scheduler.\<close>

definition scheduler_back :: "'a sched_scheme \<Rightarrow> 'a sched_scheme result" where
  "scheduler_back s =
     bindR (switch_to (kernel_root s) (csr s)) (\<lambda>c.
     let s = s\<lparr>csr := c\<rparr> in
     bindR (sched_data s) (\<lambda>_.
     pop_off (s\<lparr>current := None\<rparr>)))"

end
