(* ===== verification/Sched.thy ===== *)
theory Sched
  imports Proc
begin

text \<open>
  The scheduler's invariant.  The slot table is read as a finite map from slot indices to processes
  (\<open>ptab\<close>); every operation of \<open>Proc\<close> is a small update of that map.  \<open>sstep\<close> is the state machine of
  the scheduler: its rules are the operations, each with the scheduler's part of the switch it
  causes, and the invariant holds in every state they reach.
\<close>

section \<open>Interrupt levels\<close>

lemma pop_pushed:
  assumes "irq_ok s" and "Suc (noff s) < usize_max"
    and "csr t = csr (push_off s)" "noff t = noff (push_off s)" "intena t = intena (push_off s)"
  shows "pop_off t = Ok (t\<lparr>csr := csr s, noff := noff s\<rparr>)"
proof -
  have ok: "irq_ok t" using push_off_ok(1) [OF assms(1,2)] assms(3-5) by (simp add: irq_ok_def)
  have n: "noff t = Suc (noff s)" using push_off_ok(3) [OF assms(1,2)] assms(4) by simp
  have "(if noff s = 0 \<and> intena t then intr_on (csr t) else csr t) = csr s"
    using assms(1) by (auto simp: assms(3,5) push_off_eq irq_ok_def intr_on_off intr_off_idle)
  then show ?thesis using pop_off_eq [OF ok n] by simp
qed

lemma push_off_masks: "irq_ok s \<Longrightarrow> \<not> intr_get (csr (push_off s))"
  by (simp add: push_off_eq irq_ok_def)

lemma push_off_sched [simp]:
  "procs (push_off s) = procs s" "current (push_off s) = current s" "next_pid (push_off s) = next_pid s"
  "next_slot (push_off s) = next_slot s" "kernel_root (push_off s) = kernel_root s" "ram (push_off s) = ram s"
  "hart (push_off s) = hart s" "scheduler_ctx (push_off s) = scheduler_ctx s"
  "thread_entry_at (push_off s) = thread_entry_at s"
  by (simp_all add: push_off_def Let_def)

text \<open>The state between operations: no level is held.\<close>

definition irq_idle :: "'a irq_scheme \<Rightarrow> bool" where
  "irq_idle s \<longleftrightarrow> irq_ok s \<and> noff s = 0"

lemma irq_idleD: "irq_idle s \<Longrightarrow> irq_ok s" "irq_idle s \<Longrightarrow> Suc (noff s) < usize_max"
  by (simp_all add: irq_idle_def usize_max_eq)

section \<open>The slot table as a map\<close>

definition ptab :: "process option list \<Rightarrow> nat \<Rightarrow> process option" where
  "ptab ps i = (if i < length ps then ps ! i else None)"

lemma slot_at_eq_Ok [result_simps]: "slot_at ps i = Ok x \<longleftrightarrow> i < length ps \<and> ptab ps i = x"
  by (auto simp: slot_at_def ptab_def)

lemma ptab_slot_at: "ptab ps i = Some p \<Longrightarrow> slot_at ps i = Ok (Some p)"
  by (simp add: slot_at_def ptab_def split: if_splits)

lemma ptab_update: "ptab ps i = Some p \<Longrightarrow> ptab (ps[i := x]) = (ptab ps)(i := x)"
  by (rule ext) (auto simp: ptab_def split: if_splits)

lemma ptab_map: "ptab (map (map_option f) ps) = map_option f \<circ> ptab ps"
  by (rule ext) (simp add: ptab_def)

lemma set_live: "set (live ps) = {p. Some p \<in> set ps}"
  by (induction ps) (auto simp: live_def)

lemma live_ptab: "p \<in> set (live ps) \<longleftrightarrow> (\<exists>i. ptab ps i = Some p)"
  unfolding set_live mem_Collect_eq in_set_conv_nth ptab_def by (metis option.distinct(1))

lemma ptab_publish: "\<exists>k. ptab ps k = None \<and> k \<le> length ps \<and> ptab (publish p ps) = (ptab ps)(k \<mapsto> p)"
proof (cases "position (\<lambda>slot. slot = None) ps")
  case None
  then have "ptab (publish p ps) = (ptab ps)(length ps \<mapsto> p)"
    by (intro ext) (auto simp: publish_def ptab_def nth_append)
  then show ?thesis by (intro exI [of _ "length ps"]) (simp add: ptab_def)
next
  case (Some k)
  then have "k < length ps" "ps ! k = None" by (simp_all add: position_Some_iff)
  with Some show ?thesis by (intro exI [of _ k]) (auto simp: publish_def ptab_def)
qed

definition drop_zombie :: "process option \<Rightarrow> process option" where
  "drop_zombie x = (case x of Some p \<Rightarrow> if pstate p = Zombie then None else Some p | None \<Rightarrow> None)"

lemma reap_procs: "reap L ps m = Ok (ps', m') \<Longrightarrow> ps' = map drop_zombie ps"
  by (induction ps arbitrary: m ps' m')
     (auto simp: result_simps drop_zombie_def split: option.splits if_splits)

lemma ptab_drop_zombie: "ptab (map drop_zombie ps) = drop_zombie \<circ> ptab ps"
  by (rule ext) (simp add: ptab_def drop_zombie_def)

section \<open>The invariant\<close>

definition proc_ok :: "usize \<Rightarrow> process \<Rightarrow> bool" where
  "proc_ok kroot p \<longleftrightarrow>
     length (fds p) = MAX_FDS \<and> heap_base p \<le> heap_brk p \<and> heap_brk p \<le> USER_HEAP_MAX \<and>
     page_table p = (case user_table p of None \<Rightarrow> kroot | Some t \<Rightarrow> t) \<and>
     (user_table p \<noteq> None \<longrightarrow> heap_base p = USER_HEAP_BASE)"

definition tab_inv :: "usize \<Rightarrow> usize \<Rightarrow> nat option \<Rightarrow> (nat \<Rightarrow> process option) \<Rightarrow> bool" where
  "tab_inv kroot np cur T \<longleftrightarrow>
     (\<forall>i p. T i = Some p \<longrightarrow> proc_ok kroot p \<and> 0 < pid p \<and> pid p < np \<and> (pstate p = Running \<longleftrightarrow> cur = Some i)) \<and>
     (\<forall>i j p q. T i = Some p \<longrightarrow> T j = Some q \<longrightarrow> pid p = pid q \<longrightarrow> i = j) \<and>
     (\<forall>i. cur = Some i \<longrightarrow> T i \<noteq> None)"

text \<open>The invariant with the process \<open>cur\<close> in place of \<open>current\<close>: while a thread hands the hart over, it is
  no longer Running although \<open>current\<close> still names it.\<close>

definition tinv :: "nat option \<Rightarrow> 'a sched_scheme \<Rightarrow> bool" where
  "tinv cur s \<longleftrightarrow> tab_inv (kernel_root s) (next_pid s) cur (ptab (procs s)) \<and>
     0 < next_pid s \<and> next_pid s \<le> usize_max"

definition sched_inv :: "'a sched_scheme \<Rightarrow> bool" where
  "sched_inv s \<longleftrightarrow> irq_idle s \<and> tinv (current s) s"

text \<open>Updates of the map that keep the invariant.\<close>

lemma tab_invD:
  assumes "tab_inv kroot np cur T" and "T i = Some p"
  shows "proc_ok kroot p" "0 < pid p" "pid p < np" "pstate p = Running \<longleftrightarrow> cur = Some i"
    "T j = Some q \<Longrightarrow> pid q = pid p \<Longrightarrow> j = i"
  using assms unfolding tab_inv_def by metis+

lemma tab_invI:
  assumes "\<And>i p. T i = Some p \<Longrightarrow> proc_ok kroot p"
    and "\<And>i p. T i = Some p \<Longrightarrow> 0 < pid p" and "\<And>i p. T i = Some p \<Longrightarrow> pid p < np"
    and "\<And>i p. T i = Some p \<Longrightarrow> pstate p = Running \<longleftrightarrow> cur = Some i"
    and "\<And>i j p q. T i = Some p \<Longrightarrow> T j = Some q \<Longrightarrow> pid p = pid q \<Longrightarrow> i = j"
    and "\<And>i. cur = Some i \<Longrightarrow> T i \<noteq> None"
  shows "tab_inv kroot np cur T"
  unfolding tab_inv_def using assms by blast

lemma tab_inv_set:
  assumes inv: "tab_inv kroot np cur T" and T: "T i = Some p" and "pid p' = pid p" and "proc_ok kroot p'"
    and st: "pstate p' = Running \<longleftrightarrow> cur' = Some i"
    and cur: "cur' = cur \<or> cur = Some i \<and> cur' = None \<or> cur = None \<and> cur' = Some i"
  shows "tab_inv kroot np cur' (T(i \<mapsto> p'))"
proof (rule tab_invI)
  note d = tab_invD [OF inv]
  fix j q assume "(T(i \<mapsto> p')) j = Some q"
  then consider "j = i" "q = p'" | "j \<noteq> i" "T j = Some q" by (auto split: if_splits)
  note c = this
  show "proc_ok kroot q" "0 < pid q" "pid q < np"
    using c d(1-3) T assms(3,4) by (cases; simp)+
  show "pstate q = Running \<longleftrightarrow> cur' = Some j" using c st cur d(4) by cases auto
  show "j = k" if "(T(i \<mapsto> p')) k = Some r" "pid q = pid r" for k r
    using c that d(5) T assms(3) by cases (auto split: if_splits)
next
  show "(T(i \<mapsto> p')) j \<noteq> None" if "cur' = Some j" for j
    using that cur inv by (auto simp: tab_inv_def)
qed

lemma tab_inv_add:
  assumes inv: "tab_inv kroot np cur T" and "T k = None" and "pid p = np" and "0 < np" and "pstate p = Runnable"
    and "proc_ok kroot p"
  shows "tab_inv kroot (Suc np) cur (T(k \<mapsto> p))"
proof (rule tab_invI)
  note d = tab_invD [OF inv]
  have k: "cur \<noteq> Some k" using inv assms(2) by (auto simp: tab_inv_def)
  fix j q assume "(T(k \<mapsto> p)) j = Some q"
  then consider "j = k" "q = p" | "j \<noteq> k" "T j = Some q" by (auto split: if_splits)
  note c = this
  show "proc_ok kroot q" "0 < pid q" "pid q < Suc np"
    using c d(1-3) assms(3,4,6) by (cases; auto simp: less_Suc_eq)+
  show "pstate q = Running \<longleftrightarrow> cur = Some j" using c d(4) k assms(5) by cases auto
  show "j = l" if "(T(k \<mapsto> p)) l = Some r" "pid q = pid r" for l r
    using c that d(3,5) assms(3) by cases (auto split: if_splits)
next
  show "(T(k \<mapsto> p)) j \<noteq> None" if "cur = Some j" for j
    using that inv by (auto simp: tab_inv_def)
qed

lemma tab_inv_wake:
  assumes "tab_inv kroot np cur T"
  shows "tab_inv kroot np cur (map_option (wake chan) \<circ> T)"
proof -
  have w: "pid (wake chan p) = pid p" "proc_ok kroot (wake chan p) = proc_ok kroot p"
    "pstate (wake chan p) = Running \<longleftrightarrow> pstate p = Running" for p
    by (auto simp: wake_def proc_ok_def)
  show ?thesis using assms unfolding tab_inv_def by (auto simp: w)
qed

lemma tab_inv_drop_zombie:
  assumes "tab_inv kroot np None T"
  shows "tab_inv kroot np None (drop_zombie \<circ> T)"
  using assms unfolding tab_inv_def drop_zombie_def
  by (auto split: option.splits if_splits)


section \<open>The interface of an operation on the current process\<close>

text \<open>
  The closures that \<open>with_current\<close> runs share a contract: they keep the pid, the state and the
  well-formedness of the process.  What \<open>with_current\<close> then guarantees is proved once.
\<close>

lemma with_current_cases:
  assumes "irq_idle s" and "with_current f s = Ok (r, s')"
  obtains (none) "r = None" "s' = s\<lparr>intena := intr_get (csr s)\<rparr>"
      "\<And>i. current s = Some i \<Longrightarrow> ptab (procs s) i = None"
    | (some) i p x p' where "current s = Some i" "ptab (procs s) i = Some p" "f p = Ok (x, p')" "r = Some x"
      "s' = set_proc i p' (s\<lparr>intena := intr_get (csr s)\<rparr>)"
proof -
  note irq = irq_idleD [OF assms(1)]
  have n: "noff s = 0" using assms(1) by (simp add: irq_idle_def)
  note pop = pop_pushed [OF irq] and push = push_off_eq [OF irq(1)]
  show thesis
  proof (cases "\<exists>i p. current s = Some i \<and> ptab (procs s) i = Some p")
    case True
    then obtain i p where ip: "current s = Some i" "ptab (procs s) i = Some p" by blast
    then obtain x p' where f: "f p = Ok (x, p')" "r = Some x" "pop_off (set_proc i p' (push_off s)) = Ok s'"
      using assms(2) by (auto simp: with_current_def Let_def result_simps ptab_slot_at split: prod.splits)
    have "s' = set_proc i p' (s\<lparr>intena := intr_get (csr s)\<rparr>)"
      using f(3) n by (subst (asm) pop) (auto simp: set_proc_def push)
    with ip f show ?thesis by (intro some)
  next
    case False
    then have "r = None" "pop_off (push_off s) = Ok s'"
      using assms(2) by (auto simp: with_current_def Let_def result_simps split: option.splits prod.splits)
    moreover from this(2) have "s' = s\<lparr>intena := intr_get (csr s)\<rparr>"
      using n by (subst (asm) pop) (auto simp: push)
    ultimately show ?thesis using False by (intro none) auto
  qed
qed

locale self_op =
  fixes f :: "process \<Rightarrow> ('b \<times> process) result"
  assumes keeps: "f p = Ok (x, p') \<Longrightarrow> proc_ok kroot p \<Longrightarrow>
      pid p' = pid p \<and> pstate p' = pstate p \<and> proc_ok kroot p'"
begin

lemma with_current_inv:
  assumes "sched_inv s" and "with_current f s = Ok (r, s')"
  shows "sched_inv s'" and "current s' = current s" and "kernel_root s' = kernel_root s" and "ram s' = ram s"
proof -
  have "irq_idle s" and tab: "tab_inv (kernel_root s) (next_pid s) (current s) (ptab (procs s))"
    using assms(1) by (simp_all add: sched_inv_def tinv_def)
  from this(1) assms(2) show "sched_inv s'"
  proof (cases rule: with_current_cases)
    case none
    then show ?thesis using assms(1) by (simp add: sched_inv_def tinv_def irq_idle_def irq_ok_def)
  next
    case (some i p x p')
    have "proc_ok (kernel_root s) p" using tab_invD(1) [OF tab some(2)] .
    from keeps [OF some(3) this] have k: "pid p' = pid p" "pstate p' = pstate p" "proc_ok (kernel_root s) p'"
      by simp_all
    have "pstate p' = Running \<longleftrightarrow> current s = Some i" using k(2) tab_invD(4) [OF tab some(2)] by simp
    from tab_inv_set [OF tab some(2) k(1,3) this] some assms(1) show ?thesis
      by (simp add: sched_inv_def tinv_def irq_idle_def irq_ok_def set_proc_def ptab_update)
  qed
  from \<open>irq_idle s\<close> assms(2) show "current s' = current s" "kernel_root s' = kernel_root s" "ram s' = ram s"
    by (cases rule: with_current_cases; simp add: set_proc_def)+
qed

end


interpretation install_op: self_op "fd_install_body idx" for idx
  by unfold_locales (auto simp: fd_install_body_def proc_ok_def split: option.splits)

interpretation advance_op: self_op "fd_advance_body fd delta" for fd delta
  by unfold_locales (auto simp: fd_advance_body_def proc_ok_def result_simps split: option.splits)

interpretation close_op: self_op "fd_close_body fd" for fd
  by unfold_locales (auto simp: fd_close_body_def proc_ok_def split: option.splits)

interpretation sbrk_op: self_op "sbrk_body delta" for delta
  by unfold_locales (auto simp: sbrk_body_def Let_def proc_ok_def result_simps split: option.splits if_splits)

interpretation read_op: self_op "\<lambda>p. Ok (g p, p)" for g
  by unfold_locales auto

definition exec_image :: "usize \<Rightarrow> process \<Rightarrow> process" where
  "exec_image t p = p\<lparr>page_table := t, user_table := Some t, user_entry := USER_TEXT,
     user_sp := USER_STACK_TOP, heap_base := USER_HEAP_BASE, heap_brk := USER_HEAP_BASE, fork_frame := None\<rparr>"

interpretation exec_op: self_op "\<lambda>p. Ok ((user_table p, kstack_top p), exec_image t p)" for t
  by unfold_locales (auto simp: proc_ok_def exec_image_def USER_HEAP_BASE_def USER_HEAP_MAX_def)

section \<open>Handing the hart over\<close>

definition held :: "'a irq_scheme \<Rightarrow> bool" where
  "held s \<longleftrightarrow> irq_ok s \<and> noff s = 1"

lemma held_push: "irq_idle s \<Longrightarrow> held (push_off s)"
  using push_off_ok(1,3) [of s] by (simp add: held_def irq_idle_def usize_max_eq)

lemma held_pop:
  assumes "held t" and "pop_off t = Ok t'"
  obtains c where "t' = t\<lparr>noff := 0, csr := c\<rparr>" "irq_idle t'"
proof (rule that)
  let ?c = "if intena t then intr_on (csr t) else csr t"
  show eq: "t' = t\<lparr>noff := 0, csr := ?c\<rparr>" using assms pop_off_eq [of t 0] by (simp add: held_def)
  show "irq_idle t'" using assms(1) intr_on_le [of "csr t"] unfolding eq by (simp add: held_def irq_idle_def irq_ok_def)
qed

lemma sched_out_eq:
  assumes "sched_out t = Ok t1"
  obtains i p where "current t = Some i" "ptab (procs t) i = Some p" "pstate p \<noteq> Running" "noff t = 1"
    "t1 = (set_proc i (p\<lparr>sched_intena := intena t, pcontext := hart t\<rparr>) t)\<lparr>hart := scheduler_ctx t\<rparr>"
  using assms by (auto simp: sched_out_def result_simps holding_one_def saved_intena_def)

lemma sched_out_inv:
  assumes "tinv None t" and "held t" and "sched_out t = Ok t1"
  shows "tinv None t1" "held t1"
proof -
  from assms(3) obtain i p where ip: "current t = Some i" "ptab (procs t) i = Some p" "pstate p \<noteq> Running"
    "t1 = (set_proc i (p\<lparr>sched_intena := intena t, pcontext := hart t\<rparr>) t)\<lparr>hart := scheduler_ctx t\<rparr>"
    by (rule sched_out_eq)
  have tab: "tab_inv (kernel_root t) (next_pid t) None (ptab (procs t))" using assms(1) by (simp add: tinv_def)
  have "proc_ok (kernel_root t) (p\<lparr>sched_intena := intena t, pcontext := hart t\<rparr>)"
    using tab_invD(1) [OF tab ip(2)] by (simp add: proc_ok_def)
  from tab_inv_set [OF tab ip(2) _ this, of None] ip(2,3) assms(1) show "tinv None t1"
    by (simp add: ip(4) tinv_def set_proc_def ptab_update)
  show "held t1" using assms(2) by (simp add: ip(4) held_def irq_ok_def set_proc_def)
qed

lemma set_current_state_inv:
  assumes "tinv (Some i) t" and "set_current_state st i t = Ok t1" and "st \<noteq> Running"
  shows "tinv None t1" "held t1 = held t" "current t1 = current t"
proof -
  from assms(2) obtain p where ip: "ptab (procs t) i = Some p" "t1 = set_proc i (p\<lparr>pstate := st\<rparr>) t"
    by (auto simp: set_current_state_def result_simps)
  have tab: "tab_inv (kernel_root t) (next_pid t) (Some i) (ptab (procs t))" using assms(1) by (simp add: tinv_def)
  have "proc_ok (kernel_root t) (p\<lparr>pstate := st\<rparr>)" using tab_invD(1) [OF tab ip(1)] by (simp add: proc_ok_def)
  from tab_inv_set [OF tab ip(1) _ this, of None] ip(1) assms(1,3) show "tinv None t1"
    by (simp add: ip(2) tinv_def set_proc_def ptab_update)
  show "held t1 = held t" "current t1 = current t" by (simp_all add: ip(2) held_def irq_ok_def set_proc_def)
qed

lemma scheduler_back_inv:
  assumes "tinv None t" and "held t" and "scheduler_back t = Ok s'"
  shows "sched_inv s'" "current s' = None"
proof -
  from assms(3) obtain c where c: "switch_to (kernel_root t) (csr t) = Ok c"
    "pop_off (t\<lparr>csr := c, current := None\<rparr>) = Ok s'"
    by (auto simp: scheduler_back_def Let_def result_simps)
  then have "sstatus c = sstatus (csr t)" by (auto simp: switch_to_def result_simps)
  then have "held (t\<lparr>csr := c, current := None\<rparr>)" using assms(2) by (simp add: held_def irq_ok_def intr_get_def)
  then obtain c' where s': "s' = t\<lparr>csr := c, current := None, noff := 0, csr := c'\<rparr>" "irq_idle s'"
    using c(2) by (rule held_pop) auto
  show "sched_inv s'" "current s' = None" using s' assms(1) by (simp_all add: sched_inv_def tinv_def)
qed

text \<open>A thread that changes its state and switches: the whole of yielding, sleeping and exiting.\<close>

lemma release_inv:
  assumes "sched_inv s" and "current s = Some i" and "set_current_state st i (push_off s) = Ok t" and "st \<noteq> Running"
  shows "tinv None t" "held t"
proof -
  have "tinv (Some i) (push_off s)" using assms(1,2) by (simp add: sched_inv_def tinv_def)
  from set_current_state_inv [OF this assms(3,4)] held_push [of s] assms(1) show "tinv None t" "held t"
    by (simp_all add: sched_inv_def)
qed

lemma sleep_inv:
  assumes "sched_inv s" and "sleep chan (push_off s) = Ok t" and "scheduler_back t = Ok s'"
  shows "sched_inv s'"
proof -
  from assms(2) obtain i t1 where t1: "current s = Some i" "set_current_state (Sleeping chan) i (push_off s) = Ok t1"
    "sched_out t1 = Ok t" by (auto simp: sleep_def result_simps)
  from release_inv [OF assms(1) t1(1,2)] have "tinv None t1" "held t1" by simp_all
  from sched_out_inv [OF this t1(3)] show ?thesis using assms(3) by (intro scheduler_back_inv)
qed

lemma yield_inv:
  assumes "sched_inv s" and "yield_now s = Ok (Switch k, t)" and "scheduler_back t = Ok s'"
  shows "sched_inv s'"
proof -
  from assms(2) obtain i t1 where t1: "current s = Some i" "set_current_state Runnable i (push_off s) = Ok t1"
    "sched_out t1 = Ok t" by (auto simp: yield_now_def Let_def result_simps split: option.splits)
  from release_inv [OF assms(1) t1(1,2)] have "tinv None t1" "held t1" by simp_all
  from sched_out_inv [OF this t1(3)] show ?thesis using assms(3) by (intro scheduler_back_inv)
qed

lemma wakeup_eq:
  assumes "irq_ok s" and "Suc (noff s) < usize_max" and "wakeup chan s = Ok s'"
  shows "s' = s\<lparr>procs := map (map_option (wake chan)) (procs s),
                intena := (if noff s = 0 then intr_get (csr s) else intena s)\<rparr>"
  using assms(3) pop_pushed [OF assms(1,2), of "(push_off s)\<lparr>procs := map (map_option (wake chan)) (procs s)\<rparr>"]
  by (simp add: wakeup_def Let_def result_simps push_off_eq [OF assms(1)])

lemma wakeup_inv:
  assumes "sched_inv s" and "wakeup chan s = Ok s'"
  shows "sched_inv s'" "current s' = current s"
  using assms(1) wakeup_eq [OF irq_idleD(1) irq_idleD(2) assms(2)]
  by (auto simp: sched_inv_def tinv_def irq_idle_def irq_ok_def ptab_map intro: tab_inv_wake)

lemma exit_inv:
  assumes "sched_inv s" and "exit s = Ok (r, t)" and "scheduler_back t = Ok s'"
  shows "sched_inv s'"
proof -
  from assms(2) obtain i t1 t2 where t1: "current s = Some i" "set_current_state Zombie i (push_off s) = Ok t1"
    "wakeup EXIT_CHAN t1 = Ok t2" "sched_out t2 = Ok t" by (auto simp: exit_def Let_def result_simps)
  from release_inv [OF assms(1) t1(1,2)] have t: "tinv None t1" "held t1" by simp_all
  from wakeup_eq [OF _ _ t1(3)] t(2) have "t2 = t1\<lparr>procs := map (map_option (wake EXIT_CHAN)) (procs t1)\<rparr>"
    by (simp add: held_def usize_max_eq)
  then have "tinv None t2" "held t2"
    using t by (auto simp: tinv_def ptab_map held_def irq_ok_def intro: tab_inv_wake)
  from sched_out_inv [OF this t1(4)] show ?thesis using assms(3) by (intro scheduler_back_inv)
qed


section \<open>Creating a process\<close>

lemma spawn_with_eq:
  assumes "irq_idle s" and "spawn_with stk name e cfg s = Ok (n, s')"
  obtains p top where "n = next_pid s"
    "p = (cfg (new_process n name e stk top (kernel_root s)))
       \<lparr>pcontext := (pcontext (cfg (new_process n name e stk top (kernel_root s))))\<lparr>ctx_ra := thread_entry_at s, ctx_sp := top\<rparr>\<rparr>"
    "s' = s\<lparr>next_pid := wrapping_add n 1, procs := publish p (procs s), intena := intr_get (csr s)\<rparr>"
proof -
  let ?s = "s\<lparr>next_pid := wrapping_add (next_pid s) 1\<rparr>"
  have ok: "irq_ok ?s" "Suc (noff ?s) < usize_max" and n0: "noff s = 0"
    using assms(1) by (simp_all add: irq_idle_def irq_ok_def usize_max_eq)
  from assms(2) obtain top p where p: "n = next_pid s"
    "p = (cfg (new_process n name e stk top (kernel_root s)))
       \<lparr>pcontext := (pcontext (cfg (new_process n name e stk top (kernel_root s))))\<lparr>ctx_ra := thread_entry_at s, ctx_sp := top\<rparr>\<rparr>"
    "pop_off ((push_off ?s)\<lparr>procs := publish p (procs s)\<rparr>) = Ok s'"
    by (auto simp: spawn_with_def Let_def result_simps)
  from p(3) have "s' = (push_off ?s)\<lparr>procs := publish p (procs s), csr := csr s, noff := noff s\<rparr>"
    by (subst (asm) pop_pushed [OF ok]) simp_all
  also have "\<dots> = s\<lparr>next_pid := wrapping_add n 1, procs := publish p (procs s), intena := intr_get (csr s)\<rparr>"
    unfolding push_off_eq [OF ok(1)] by (simp add: p(1) n0)
  finally have "s' = s\<lparr>next_pid := wrapping_add n 1, procs := publish p (procs s), intena := intr_get (csr s)\<rparr>" .
  with p(1,2) show ?thesis by (rule that)
qed

text \<open>What a configuration must leave alone, and the well-formedness it must establish.\<close>

definition cfg_ok :: "usize \<Rightarrow> (process \<Rightarrow> process) \<Rightarrow> bool" where
  "cfg_ok kroot cfg \<longleftrightarrow> (\<forall>n name e stk top.
     let p = cfg (new_process n name e stk top kroot) in pid p = n \<and> pstate p = Runnable \<and> proc_ok kroot p)"

lemma spawn_with_inv:
  assumes "sched_inv s" and "spawn_with stk name e cfg s = Ok (n, s')" and "next_pid s < usize_max"
    and "cfg_ok (kernel_root s) cfg"
  shows "sched_inv s'" "current s' = current s"
proof -
  have "irq_idle s" using assms(1) by (simp add: sched_inv_def)
  from this assms(2) obtain p top where s': "n = next_pid s"
    "p = (cfg (new_process n name e stk top (kernel_root s)))
       \<lparr>pcontext := (pcontext (cfg (new_process n name e stk top (kernel_root s))))\<lparr>ctx_ra := thread_entry_at s, ctx_sp := top\<rparr>\<rparr>"
    "s' = s\<lparr>next_pid := wrapping_add n 1, procs := publish p (procs s), intena := intr_get (csr s)\<rparr>"
    by (rule spawn_with_eq)
  have p: "pid p = next_pid s" "pstate p = Runnable" "proc_ok (kernel_root s) p"
    using assms(4) by (simp_all add: s'(1,2) cfg_ok_def Let_def proc_ok_def)
  obtain k where k: "ptab (procs s) k = None" "ptab (publish p (procs s)) = (ptab (procs s))(k \<mapsto> p)"
    using ptab_publish by blast
  have w: "wrapping_add (next_pid s) 1 = Suc (next_pid s)"
    using assms(3) by (simp add: wrapping_add_def usize_max_eq)
  have "tab_inv (kernel_root s) (Suc (next_pid s)) (current s) (ptab (publish p (procs s)))"
    unfolding k(2) using assms(1) k(1) p by (intro tab_inv_add) (simp_all add: sched_inv_def tinv_def)
  then show "sched_inv s'" "current s' = current s"
    unfolding s'(3) using assms(1,3) w
    by (simp_all add: s'(1) sched_inv_def tinv_def irq_idle_def irq_ok_def del: One_nat_def)
qed

lemma cfg_ok_id: "cfg_ok kroot (\<lambda>p. p)"
  by (simp add: cfg_ok_def Let_def new_process_def proc_ok_def)

lemma cfg_ok_attach: "cfg_ok kroot (attach_user_space t e sp)"
  by (simp add: cfg_ok_def Let_def new_process_def proc_ok_def attach_user_space_def USER_HEAP_BASE_def
      USER_HEAP_MAX_def)

section \<open>A turn of the scheduler\<close>

lemma scan_Some:
  "scan ps start is = Ok (Some idx) \<Longrightarrow> idx < length ps \<and> is_runnable (ps ! idx)"
  by (induction "is") (auto simp: result_simps Let_def ptab_def split: if_splits)

lemma turn_start:
  assumes "irq_idle s"
  shows "irq_idle (s\<lparr>csr := intr_on (csr s)\<rparr>)" "held (push_off (s\<lparr>csr := intr_on (csr s)\<rparr>))"
proof -
  show "irq_idle (s\<lparr>csr := intr_on (csr s)\<rparr>)"
    using assms intr_on_le [of "csr s"] by (simp add: irq_idle_def irq_ok_def)
  then show "held (push_off (s\<lparr>csr := intr_on (csr s)\<rparr>))" by (rule held_push)
qed

lemma scheduler_turn_eq:
  assumes "scheduler_turn L s = Ok (r, s')"
  obtains t m where "t = (push_off (s\<lparr>csr := intr_on (csr s)\<rparr>))\<lparr>procs := map drop_zombie (procs s), ram := m\<rparr>"
    "reap L (procs s) (ram s) = Ok (map drop_zombie (procs s), m)"
    "scan (procs t) (next_slot t) [0..<length (procs t)] = Ok r"
    "case r of None \<Rightarrow> \<exists>u. pop_off t = Ok u \<and> s' = u\<lparr>csr := intr_on (csr u)\<rparr>
     | Some i \<Rightarrow> \<exists>p c. ptab (procs t) i = Some p \<and> switch_to (page_table p) (csr t) = Ok c \<and>
         s' = t\<lparr>next_slot := Suc i, current := Some i, procs := (procs t)[i := Some (p\<lparr>pstate := Running\<rparr>)],
                csr := c, scheduler_ctx := hart t, hart := pcontext p\<rparr>"
proof -
  let ?s = "push_off (s\<lparr>csr := intr_on (csr s)\<rparr>)"
  from assms obtain ps m where r: "reap L (procs s) (ram s) = Ok (ps, m)"
    and sc: "scan ps (next_slot s) [0..<length ps] = Ok r"
    and rest: "case r of None \<Rightarrow> bindR (pop_off (?s\<lparr>procs := ps, ram := m\<rparr>)) (\<lambda>s. Ok (None, s\<lparr>csr := intr_on (csr s)\<rparr>)) = Ok (r, s')
      | Some idx \<Rightarrow>
          bindR (uadd idx 1) (\<lambda>nxt.
          let s = ?s\<lparr>procs := ps, ram := m\<rparr>\<lparr>next_slot := nxt, current := Some idx\<rparr> in
          bindR (set_current_state Running idx s) (\<lambda>s.
          bindR (slot_at (procs s) idx) (\<lambda>slot.
          bindR (expectR slot ''called `Option::unwrap()` on a `None` value'') (\<lambda>p.
          bindR (switch_to (page_table p) (csr s)) (\<lambda>c.
          Ok (Some idx, s\<lparr>csr := c, scheduler_ctx := hart s, hart := pcontext p\<rparr>)))))) = Ok (r, s')"
    by (cases r) (auto simp: scheduler_turn_def Let_def result_simps split: option.splits)
  have ps: "ps = map drop_zombie (procs s)" using reap_procs [OF r] .
  let ?t = "?s\<lparr>procs := map drop_zombie (procs s), ram := m\<rparr>"
  show ?thesis
  proof (rule that [of ?t m])
    show "case r of None \<Rightarrow> \<exists>u. pop_off ?t = Ok u \<and> s' = u\<lparr>csr := intr_on (csr u)\<rparr>
     | Some i \<Rightarrow> \<exists>p c. ptab (procs ?t) i = Some p \<and> switch_to (page_table p) (csr ?t) = Ok c \<and>
         s' = ?t\<lparr>next_slot := Suc i, current := Some i, procs := (procs ?t)[i := Some (p\<lparr>pstate := Running\<rparr>)],
                csr := c, scheduler_ctx := hart ?t, hart := pcontext p\<rparr>"
      using rest by (cases r) (auto simp: ps result_simps Let_def set_current_state_def set_proc_def ptab_update)
  qed (use r sc ps in simp_all)
qed

lemma scheduler_turn_inv:
  assumes "sched_inv s" and "current s = None" and "scheduler_turn L s = Ok (r, s')"
  shows "case r of None \<Rightarrow> sched_inv s' \<and> current s' = None
    | Some i \<Rightarrow> tinv (Some i) s' \<and> held s' \<and> current s' = Some i"
proof -
  from assms(3) obtain t m where t: "t = (push_off (s\<lparr>csr := intr_on (csr s)\<rparr>))\<lparr>procs := map drop_zombie (procs s), ram := m\<rparr>"
    and sc: "scan (procs t) (next_slot t) [0..<length (procs t)] = Ok r"
    and s': "case r of None \<Rightarrow> \<exists>u. pop_off t = Ok u \<and> s' = u\<lparr>csr := intr_on (csr u)\<rparr>
     | Some i \<Rightarrow> \<exists>p c. ptab (procs t) i = Some p \<and> switch_to (page_table p) (csr t) = Ok c \<and>
         s' = t\<lparr>next_slot := Suc i, current := Some i, procs := (procs t)[i := Some (p\<lparr>pstate := Running\<rparr>)],
                csr := c, scheduler_ctx := hart t, hart := pcontext p\<rparr>"
    by (rule scheduler_turn_eq)
  have idle: "irq_idle s" using assms(1) by (simp add: sched_inv_def)
  have h: "held t" using turn_start(2) [OF idle] by (simp add: t held_def irq_ok_def)
  have tab: "tab_inv (kernel_root t) (next_pid t) None (ptab (procs t))" and np: "0 < next_pid t" "next_pid t \<le> usize_max"
    using assms(1,2) tab_inv_drop_zombie by (auto simp: t sched_inv_def tinv_def ptab_drop_zombie)
  show ?thesis
  proof (cases r)
    case None
    with s' obtain u where u: "pop_off t = Ok u" "s' = u\<lparr>csr := intr_on (csr u)\<rparr>" by auto
    from h u(1) obtain c where "u = t\<lparr>noff := 0, csr := c\<rparr>" "irq_idle u" by (rule held_pop)
    then show ?thesis using None u(2) tab np turn_start(1) [OF \<open>irq_idle u\<close>] assms(2)
      by (simp add: sched_inv_def tinv_def t)
  next
    case (Some i)
    with s' obtain p c where p: "ptab (procs t) i = Some p" "switch_to (page_table p) (csr t) = Ok c"
      "s' = t\<lparr>next_slot := Suc i, current := Some i, procs := (procs t)[i := Some (p\<lparr>pstate := Running\<rparr>)],
              csr := c, scheduler_ctx := hart t, hart := pcontext p\<rparr>" by auto
    have "sstatus c = sstatus (csr t)" using p(2) by (auto simp: switch_to_def result_simps)
    then have "held s'" using h by (simp add: p(3) held_def irq_ok_def intr_get_def)
    have "proc_ok (kernel_root t) (p\<lparr>pstate := Running\<rparr>)" using tab_invD(1) [OF tab p(1)] by (simp add: proc_ok_def)
    from tab_inv_set [OF tab p(1) _ this, of "Some i"] p(1) np have "tinv (Some i) s'"
      by (simp add: p(3) tinv_def ptab_update)
    with \<open>held s'\<close> Some p(3) show ?thesis by simp
  qed
qed

lemma resume_inv:
  assumes "tinv (Some i) t" and "held t" and "current t = Some i" and "pop_off (sched_back ie t) = Ok s'"
  shows "sched_inv s'"
proof -
  have "held (sched_back ie t)" using assms(2) by (simp add: sched_back_def set_intena_def held_def irq_ok_def)
  from this assms(4) obtain c where "s' = (sched_back ie t)\<lparr>noff := 0, csr := c\<rparr>" "irq_idle s'" by (rule held_pop)
  then show ?thesis using assms(1,3) by (simp add: sched_inv_def tinv_def sched_back_def set_intena_def)
qed

lemma thread_entry_inv:
  assumes "tinv (Some i) t" and "held t" and "current t = Some i" and "thread_entry t = Ok (e, s')"
  shows "sched_inv s'"
proof -
  from assms(4) obtain u where u: "pop_off t = Ok u" "pop_off (push_off (u\<lparr>csr := intr_on (csr u)\<rparr>)) = Ok s'"
    by (auto simp: thread_entry_def Let_def result_simps)
  from assms(2) u(1) obtain c where c: "u = t\<lparr>noff := 0, csr := c\<rparr>" "irq_idle u" by (rule held_pop)
  note on = turn_start(1) [OF c(2)]
  from u(2) have "s' = u\<lparr>csr := intr_on (csr u), intena := True\<rparr>"
    by (subst (asm) pop_pushed [OF irq_idleD [OF on]]) (use on in \<open>auto simp: push_off_eq irq_idle_def\<close>)
  then show ?thesis using on assms(1,3) c(1)
    by (simp add: sched_inv_def tinv_def irq_idle_def irq_ok_def)
qed


section \<open>The remaining operations\<close>

lemma csr_set_le: "x \<le> usize_max \<Longrightarrow> n < 64 \<Longrightarrow> csr_set x (2 ^ n) \<le> usize_max"
  by (rule usize_boundI) (auto simp: bit_csr_set dest: usize_bit_bound)

lemma sstatus_set_le:
  assumes "x \<le> usize_max"
  shows "csr_set x SSTATUS_SIE \<le> usize_max" "csr_set x SSTATUS_SPIE \<le> usize_max"
  unfolding sstatus_pow using assms by (intro csr_set_le; simp)+

lemma csr_clear_bound: "x \<le> usize_max \<Longrightarrow> csr_clear x m \<le> usize_max"
  using csr_clear_le [of x m] by linarith

lemma sret_le: "sstatus c \<le> usize_max \<Longrightarrow> sret c = (pc, u, c') \<Longrightarrow> sstatus c' \<le> usize_max"
  by (auto simp: sret_def Let_def sstatus_set_le csr_clear_bound)

lemma enter_user_eq:
  assumes "sstatus (csr s) \<le> usize_max" and "enter_user e sp ktop s = (u, s')"
  obtains c where "s' = s\<lparr>csr := c\<rparr>" "sstatus c \<le> usize_max"
proof -
  let ?c = "(intr_off (csr s))\<lparr>sscratch := ktop, sepc_csr := e,
     sstatus := csr_set (csr_clear (sstatus (intr_off (csr s))) SSTATUS_SPP) SSTATUS_SPIE\<rparr>"
  obtain pc m c where r: "sret ?c = (pc, m, c)" by (cases "sret ?c")
  have "sstatus ?c \<le> usize_max"
    using assms(1) order_trans [OF sstatus_intr_off_le, of "csr s" usize_max] by (simp add: sstatus_set_le csr_clear_bound)
  from sret_le [OF this r] show ?thesis using assms(2) r by (intro that [of c]) (simp_all add: enter_user_def Let_def)
qed

lemma sched_inv_ram [simp]: "sched_inv (s\<lparr>ram := m\<rparr>) = sched_inv s"
  by (simp add: sched_inv_def tinv_def irq_idle_def irq_ok_def)

lemma exec_eq:
  assumes "exec L prog s = Ok (u, s')"
  obtains t m r s1 ktop c m' where
    "with_current (\<lambda>p. Ok ((user_table p, kstack_top p), exec_image t p)) (s\<lparr>ram := m\<rparr>) = Ok (r, s1)"
    "switch_to t (intr_off (csr s1)) = Ok c"
    "enter_user USER_TEXT USER_STACK_TOP ktop (s1\<lparr>csr := c, ram := m'\<rparr>) = (u, s')"
proof -
  from assms obtain t m r s1 old ktop c s2 where
    w: "with_current (\<lambda>p. Ok ((user_table p, kstack_top p), exec_image t p)) (s\<lparr>ram := m\<rparr>) = Ok (r, s1)"
    and c: "switch_to t (intr_off (csr s1)) = Ok c"
    and f: "(case old of Some x \<Rightarrow> bindR (free_user_table L x (ram (s1\<lparr>csr := c\<rparr>))) (\<lambda>m. Ok (s1\<lparr>csr := c, ram := m\<rparr>))
             | None \<Rightarrow> Ok (s1\<lparr>csr := c\<rparr>)) = Ok s2"
    and e: "enter_user USER_TEXT USER_STACK_TOP ktop s2 = (u, s')"
    unfolding exec_def exec_image_def by (simp add: result_simps Let_def split_paired_Ex) blast
  from f have "s2 = s1\<lparr>csr := c, ram := ram s2\<rparr>" by (cases old) (auto simp: result_simps)
  with e have "enter_user USER_TEXT USER_STACK_TOP ktop (s1\<lparr>csr := c, ram := ram s2\<rparr>) = (u, s')" by metis
  with w c show ?thesis by (rule that)
qed

lemma exec_inv:
  assumes "sched_inv s" and "exec L prog s = Ok (u, s')"
  shows "sched_inv s'"
proof -
  from assms(2) obtain t m r s1 ktop c m' where
    w: "with_current (\<lambda>p. Ok ((user_table p, kstack_top p), exec_image t p)) (s\<lparr>ram := m\<rparr>) = Ok (r, s1)"
    and c: "switch_to t (intr_off (csr s1)) = Ok c"
    and e: "enter_user USER_TEXT USER_STACK_TOP ktop (s1\<lparr>csr := c, ram := m'\<rparr>) = (u, s')" by (rule exec_eq)
  from exec_op.with_current_inv [OF _ w] assms(1) have "sched_inv s1" by simp
  then have i: "irq_idle s1" "tinv (current s1) s1" by (simp_all add: sched_inv_def)
  have "sstatus (csr (s1\<lparr>csr := c, ram := m'\<rparr>)) \<le> usize_max"
    using c order_trans [OF sstatus_intr_off_le, of "csr s1" usize_max] i(1)
    by (auto simp: switch_to_def result_simps irq_idle_def irq_ok_def)
  from this e obtain c' where "s' = s1\<lparr>csr := c, ram := m', csr := c'\<rparr>" "sstatus c' \<le> usize_max" by (rule enter_user_eq)
  then show ?thesis using i by (simp add: sched_inv_def tinv_def irq_idle_def irq_ok_def)
qed

definition fork_cfg :: "usize \<Rightarrow> trap_frame \<Rightarrow> process \<Rightarrow> process \<Rightarrow> process" where
  "fork_cfg t frame parent p = (attach_user_space t (tf_sepc frame) (tf_sp frame) p)
     \<lparr>heap_base := heap_base parent, heap_brk := heap_brk parent, fds := fds parent,
      fork_frame := Some (frame\<lparr>tf_a0 := 0\<rparr>)\<rparr>"

lemma fork_eq:
  assumes "irq_idle s" and "fork stk frame s = Ok (n, s')" and "current s = Some i" and "ptab (procs s) i = Some p"
  obtains ct m where "clone_user_table (kernel_root s) (page_table p) (ram s) = Ok (ct, m)"
    "spawn_with stk ''u-fork-child'' Forkret_body (fork_cfg ct frame p)
       (set_proc i p (s\<lparr>intena := intr_get (csr s)\<rparr>)\<lparr>ram := m\<rparr>) = Ok (n, s')"
proof -
  let ?g = "\<lambda>p. (page_table p, heap_base p, heap_brk p, fds p)"
  from assms(2) obtain r s1 where w: "with_current (\<lambda>p. Ok (?g p, p)) s = Ok (r, s1)"
    and rest: "(case r of None \<Rightarrow> Ok (usize_max, s1) | Some (ptable, pbase, pbrk, pfds) \<Rightarrow>
         bindR (clone_user_table (kernel_root s1) ptable (ram s1)) (\<lambda>(child_table, m).
         spawn_with stk ''u-fork-child'' Forkret_body
           (\<lambda>p. (attach_user_space child_table (tf_sepc frame) (tf_sp frame) p)
                  \<lparr>heap_base := pbase, heap_brk := pbrk, fds := pfds, fork_frame := Some (frame\<lparr>tf_a0 := 0\<rparr>)\<rparr>)
           (s1\<lparr>ram := m\<rparr>))) = Ok (n, s')"
    unfolding fork_def Let_def by (rule bindR_Ok_pairE) (rule that, simp_all)
  from assms(1) w have "r = Some (?g p) \<and> s1 = set_proc i p (s\<lparr>intena := intr_get (csr s)\<rparr>)"
    by (cases rule: with_current_cases) (use assms(3,4) in \<open>auto simp: set_proc_def\<close>)
  with rest show ?thesis
    by (auto simp: result_simps set_proc_def fork_cfg_def [abs_def] intro!: that)
qed

lemma set_proc_same: "ptab (procs s) i = Some p \<Longrightarrow> set_proc i p s = s"
  by (simp add: set_proc_def ptab_def list_update_same_conv split: if_splits)

lemma fork_inv:
  assumes "sched_inv s" and "fork stk frame s = Ok (n, s')" and "next_pid s < usize_max"
    and "current s = Some i" and "ptab (procs s) i = Some p" and "user_table p \<noteq> None"
  shows "sched_inv s'"
proof -
  have "irq_idle s" using assms(1) by (simp add: sched_inv_def)
  from this assms(2,4,5) obtain ct m where sp: "spawn_with stk ''u-fork-child'' Forkret_body (fork_cfg ct frame p)
       (set_proc i p (s\<lparr>intena := intr_get (csr s)\<rparr>)\<lparr>ram := m\<rparr>) = Ok (n, s')" by (rule fork_eq)
  have same: "set_proc i p (s\<lparr>intena := intr_get (csr s)\<rparr>) = s\<lparr>intena := intr_get (csr s)\<rparr>"
    using assms(5) by (intro set_proc_same) simp
  have "proc_ok (kernel_root s) p" using assms(1,5) by (auto simp: sched_inv_def tinv_def dest: tab_invD(1))
  then have "cfg_ok (kernel_root (s\<lparr>intena := intr_get (csr s), ram := m\<rparr>)) (fork_cfg ct frame p)"
    using assms(6) by (auto simp: cfg_ok_def Let_def new_process_def proc_ok_def attach_user_space_def fork_cfg_def)
  moreover have "sched_inv (s\<lparr>intena := intr_get (csr s), ram := m\<rparr>)"
    using assms(1) by (simp add: sched_inv_def tinv_def irq_idle_def irq_ok_def)
  ultimately show ?thesis using spawn_with_inv(1) sp assms(3) unfolding same by fastforce
qed

lemma join_inv:
  assumes "sched_inv s" and "join i s = Ok (r, t)"
  shows "case r of Return _ \<Rightarrow> sched_inv t | Switch _ \<Rightarrow> (\<forall>s'. scheduler_back t = Ok s' \<longrightarrow> sched_inv s')"
proof -
  have idle: "irq_idle s" using assms(1) by (simp add: sched_inv_def)
  consider "r = Return ()" "pop_off (push_off s) = Ok t" | "r = Switch (K_join i)" "sleep EXIT_CHAN (push_off s) = Ok t"
    using assms(2) by (auto simp: join_def Let_def result_simps split: if_splits)
  then show ?thesis
  proof cases
    case 1
    from 1(2) have "t = s\<lparr>intena := intr_get (csr s)\<rparr>"
      by (subst (asm) pop_pushed [OF irq_idleD [OF idle]]) (use idle in \<open>auto simp: push_off_eq irq_idle_def\<close>)
    then show ?thesis using assms(1) 1(1) by (simp add: sched_inv_def tinv_def irq_idle_def irq_ok_def)
  next
    case 2
    then show ?thesis using sleep_inv [OF assms(1) 2(2)] by simp
  qed
qed

lemma preempt_eq:
  assumes "irq_idle s" and "on_tick_preempt s = Ok (r, t)"
  shows "r = Return () \<and> t = s\<lparr>intena := intr_get (csr s)\<rparr> \<or> yield_now (s\<lparr>intena := intr_get (csr s)\<rparr>) = Ok (r, t)"
proof -
  have "pop_off (push_off s) = Ok (s\<lparr>intena := intr_get (csr s)\<rparr>)"
    by (subst pop_pushed [OF irq_idleD [OF assms(1)]]) (use assms(1) in \<open>auto simp: push_off_eq irq_idle_def\<close>)
  then show ?thesis using assms(2) by (auto simp: on_tick_preempt_def Let_def result_simps split: if_splits)
qed

lemma service_page_fault_eq:
  assumes "service_page_fault addr s = Ok (r, s')"
  obtains x s1 m where "with_current (\<lambda>p. Ok ((heap_base p, heap_brk p, page_table p), p)) s = Ok (x, s1)"
    "s' = s1\<lparr>ram := m\<rparr>"
proof -
  from assms obtain x s1 where w: "with_current (\<lambda>p. Ok ((heap_base p, heap_brk p, page_table p), p)) s = Ok (x, s1)"
    and "s' = s1\<lparr>ram := ram s'\<rparr>" unfolding service_page_fault_def
    by (rule bindR_Ok_pairE) (auto simp: Let_def result_simps split: option.splits if_splits)
  then show ?thesis by (rule that)
qed

lemma service_page_fault_inv:
  assumes "sched_inv s" and "service_page_fault addr s = Ok (r, s')"
  shows "sched_inv s'"
  using assms(2) by (rule service_page_fault_eq) (simp add: read_op.with_current_inv(1) [OF assms(1)])

section \<open>The state machine\<close>

inductive sstep :: "layout \<Rightarrow> 'a sched_scheme \<Rightarrow> 'a sched_scheme \<Rightarrow> bool" for L where
  Idle: "current s = None \<Longrightarrow> scheduler_turn L s = Ok (None, s') \<Longrightarrow> sstep L s s'"
| Start: "current s = None \<Longrightarrow> scheduler_turn L s = Ok (Some i, t) \<Longrightarrow> thread_entry t = Ok (e, s') \<Longrightarrow> sstep L s s'"
| Resume: "current s = None \<Longrightarrow> scheduler_turn L s = Ok (Some i, t) \<Longrightarrow> ptab (procs t) i = Some p \<Longrightarrow>
    pop_off (sched_back (sched_intena p) t) = Ok s' \<Longrightarrow> sstep L s s'"
| Wakeup: "wakeup chan s = Ok s' \<Longrightarrow> sstep L s s'"
| Spawn: "spawn stk name e s = Ok (n, s') \<Longrightarrow> next_pid s < usize_max \<Longrightarrow> sstep L s s'"
| Spawn_user: "spawn_user stk name prog s = Ok (n, s') \<Longrightarrow> next_pid s < usize_max \<Longrightarrow> sstep L s s'"
| Fork: "fork stk frame s = Ok (n, s') \<Longrightarrow> next_pid s < usize_max \<Longrightarrow> current s = Some i \<Longrightarrow>
    ptab (procs s) i = Some p \<Longrightarrow> user_table p \<noteq> None \<Longrightarrow> sstep L s s'"
| Exec: "exec L prog s = Ok (u, s') \<Longrightarrow> sstep L s s'"
| Yield: "yield_now s = Ok (Switch k, t) \<Longrightarrow> scheduler_back t = Ok s' \<Longrightarrow> sstep L s s'"
| Preempt: "on_tick_preempt s = Ok (Switch k, t) \<Longrightarrow> scheduler_back t = Ok s' \<Longrightarrow> sstep L s s'"
| Tick: "on_tick_preempt s = Ok (Return (), s') \<Longrightarrow> sstep L s s'"
| Sleep: "sleep chan (push_off s) = Ok t \<Longrightarrow> scheduler_back t = Ok s' \<Longrightarrow> sstep L s s'"
| Exit: "exit s = Ok (Switch k, t) \<Longrightarrow> scheduler_back t = Ok s' \<Longrightarrow> sstep L s s'"
| Join_wait: "join i s = Ok (Switch k, t) \<Longrightarrow> scheduler_back t = Ok s' \<Longrightarrow> sstep L s s'"
| Join_done: "join i s = Ok (Return (), s') \<Longrightarrow> sstep L s s'"
| Fd_install: "fd_install idx s = Ok (r, s') \<Longrightarrow> sstep L s s'"
| Fd_advance: "fd_advance fd delta s = Ok s' \<Longrightarrow> sstep L s s'"
| Fd_close: "fd_close fd s = Ok (b, s') \<Longrightarrow> sstep L s s'"
| Sbrk: "sbrk delta s = Ok (v, s') \<Longrightarrow> sstep L s s'"
| Page_fault: "service_page_fault addr s = Ok (b, s') \<Longrightarrow> sstep L s s'"

lemma yield_settled_inv:
  assumes "sched_inv s" and "yield_now (s\<lparr>intena := intr_get (csr s)\<rparr>) = Ok (Switch k, t)" and "scheduler_back t = Ok s'"
  shows "sched_inv s'"
proof (rule yield_inv [OF _ assms(2,3)])
  show "sched_inv (s\<lparr>intena := intr_get (csr s)\<rparr>)" using assms(1) by (simp add: sched_inv_def tinv_def irq_idle_def irq_ok_def)
qed

lemma yield_settled_return:
  assumes "sched_inv s" and "yield_now (s\<lparr>intena := intr_get (csr s)\<rparr>) = Ok (Return (), s')"
  shows "sched_inv s'"
proof -
  let ?s = "s\<lparr>intena := intr_get (csr s)\<rparr>"
  have inv: "sched_inv ?s" using assms(1) by (simp add: sched_inv_def tinv_def irq_idle_def irq_ok_def)
  then have idle: "irq_idle ?s" by (simp add: sched_inv_def)
  from assms(2) have "pop_off (push_off ?s) = Ok s'"
    by (auto simp: yield_now_def Let_def result_simps split: option.splits)
  then have "s' = ?s"
    by (subst (asm) pop_pushed [OF irq_idleD [OF idle]]) (use idle in \<open>auto simp: push_off_eq irq_idle_def\<close>)
  with inv show ?thesis by simp
qed

lemma sstep_inv: "sstep L s s' \<Longrightarrow> sched_inv s \<Longrightarrow> sched_inv s'"
proof (induction rule: sstep.induct)
  case (Idle s s') then show ?case using scheduler_turn_inv [of s L None s'] by simp
next
  case (Start s i t e s') then show ?case using scheduler_turn_inv [of s L "Some i" t] thread_entry_inv [of i t e s'] by simp
next
  case (Resume s i t p s') then show ?case using scheduler_turn_inv [of s L "Some i" t] resume_inv [of i t] by simp
next
  case (Wakeup chan s s') then show ?case by (auto intro: wakeup_inv(1))
next
  case (Spawn stk name e s n s') then show ?case by (auto simp: spawn_def intro: spawn_with_inv(1) cfg_ok_id)
next
  case (Spawn_user stk name prog s n s')
  from Spawn_user(1) obtain t m where
    "spawn_with stk name User_thread_body (attach_user_space t USER_TEXT USER_STACK_TOP) (s\<lparr>ram := m\<rparr>) = Ok (n, s')"
    by (auto simp: spawn_user_def result_simps)
  from spawn_with_inv(1) [OF _ this _ cfg_ok_attach] Spawn_user show ?case by simp
next
  case (Fork stk frame s n s' i p) show ?case by (rule fork_inv [OF Fork.prems Fork.hyps])
next
  case (Exec prog s u s') show ?case by (rule exec_inv [OF Exec.prems Exec.hyps])
next
  case (Yield s k t s') show ?case by (rule yield_inv [OF Yield.prems Yield.hyps])
next
  case (Preempt s k t s')
  then show ?case using preempt_eq [of s "Switch k" t] yield_settled_inv [of s k t s'] by (simp add: sched_inv_def)
next
  case (Tick s s')
  then show ?case using preempt_eq [of s "Return ()" s'] yield_settled_return [of s s']
    by (auto simp: sched_inv_def tinv_def irq_idle_def irq_ok_def)
next
  case (Sleep chan s t s') show ?case by (rule sleep_inv [OF Sleep.prems Sleep.hyps])
next
  case (Exit s k t s') show ?case by (rule exit_inv [OF Exit.prems Exit.hyps])
next
  case (Join_wait i s k t s') then show ?case using join_inv [of s i "Switch k" t] by simp
next
  case (Join_done i s s') then show ?case using join_inv [of s i "Return ()" s'] by simp
next
  case (Fd_install idx s r s') then show ?case by (auto simp: fd_install_def result_simps intro: install_op.with_current_inv(1))
next
  case (Fd_advance fd delta s s') then show ?case by (auto simp: fd_advance_def result_simps intro: advance_op.with_current_inv(1))
next
  case (Fd_close fd s b s') then show ?case by (auto simp: fd_close_def result_simps intro: close_op.with_current_inv(1))
next
  case (Sbrk delta s v s') then show ?case by (auto simp: sbrk_def result_simps intro: sbrk_op.with_current_inv(1))
next
  case (Page_fault addr s b s') show ?case by (rule service_page_fault_inv [OF Page_fault.prems Page_fault.hyps])
qed

end
