(* ===== verification/Image.thy ===== *)
theory Image
  imports Clone Sched
begin

text \<open>
  Loading a program (\<open>load_user_image\<close> of \<open>src/src/proc.rs\<close>): the fresh address space holds the bytes of
  the image at \<open>USER_TEXT\<close>, padded with zeroes to whole pages and executable, one zeroed stack page
  below \<open>USER_STACK_TOP\<close>, and nothing else.
\<close>

lemma user_perms:
  "PTE_R OR PTE_X OR PTE_U < 32" "user_pte (PTE_R OR PTE_X OR PTE_U)" "PTE_R OR PTE_W OR PTE_U < 32"
  "user_pte (PTE_R OR PTE_W OR PTE_U)" "(PTE_R OR PTE_X OR PTE_U) AND PERM_MASK = PTE_R OR PTE_X OR PTE_U"
  "(PTE_R OR PTE_W OR PTE_U) AND PERM_MASK = PTE_R OR PTE_W OR PTE_U"
  unfolding PERM_MASK_def user_pte_def pte_pow by simp_all

text \<open>What a process is meant to see of its memory when it starts.\<close>

definition image_view :: "memory \<Rightarrow> usize \<Rightarrow> usize \<Rightarrow> usize \<Rightarrow> (usize \<times> u8) option" where
  "image_view m src len va =
     (if USER_TEXT \<le> va \<and> va < USER_TEXT + div_ceil len PAGE_SIZE * PAGE_SIZE
      then Some (PTE_R OR PTE_X OR PTE_U, if va - USER_TEXT < len then m (src + (va - USER_TEXT)) else 0)
      else if USER_STACK_TOP - PAGE_SIZE \<le> va \<and> va < USER_STACK_TOP then Some (PTE_R OR PTE_W OR PTE_U, 0)
      else None)"

text \<open>The program fits below the stack, and its bytes are not in pages the allocator may hand out.\<close>

definition image_ok :: "usize \<Rightarrow> usize \<Rightarrow> phys \<Rightarrow> bool" where
  "image_ok src len s \<longleftrightarrow> 0 < len \<and> len \<le> USER_STACK_TOP - PAGE_SIZE - USER_TEXT \<and> src + len \<le> usize_max \<and>
     (\<forall>a. src \<le> a \<and> a < src + len \<longrightarrow> \<not> in_pages a (set (free_list s)))"

definition text_view :: "memory \<Rightarrow> usize \<Rightarrow> usize \<Rightarrow> nat \<Rightarrow> usize \<Rightarrow> (usize \<times> u8) option" where
  "text_view m src len k va =
     (if USER_TEXT \<le> va \<and> va < USER_TEXT + k * PAGE_SIZE
      then Some (PTE_R OR PTE_X OR PTE_U, if va - USER_TEXT < len then m (src + (va - USER_TEXT)) else 0)
      else None)"

lemma page_number_iff: "w div PAGE_SIZE = c \<longleftrightarrow> c * PAGE_SIZE \<le> w \<and> w < c * PAGE_SIZE + PAGE_SIZE"
proof
  assume "w div PAGE_SIZE = c"
  then show "c * PAGE_SIZE \<le> w \<and> w < c * PAGE_SIZE + PAGE_SIZE"
    using div_mult_mod_eq [of w PAGE_SIZE] mod_less_divisor [of PAGE_SIZE w] by (simp add: PAGE_SIZE_def)
next
  assume "c * PAGE_SIZE \<le> w \<and> w < c * PAGE_SIZE + PAGE_SIZE"
  then show "w div PAGE_SIZE = c" by (intro div_nat_eqI) (simp_all add: mult.commute)
qed

lemma user_text_page:
  assumes "k < 0x1000"
  shows "user_va (USER_TEXT + k * PAGE_SIZE)" "page_aligned (USER_TEXT + k * PAGE_SIZE)"
    "w div PAGE_SIZE = (USER_TEXT + k * PAGE_SIZE) div PAGE_SIZE \<longleftrightarrow>
       USER_TEXT + k * PAGE_SIZE \<le> w \<and> w < USER_TEXT + Suc k * PAGE_SIZE"
    "USER_TEXT + k * PAGE_SIZE \<le> w \<Longrightarrow> w < USER_TEXT + Suc k * PAGE_SIZE \<Longrightarrow> w mod PAGE_SIZE = w - (USER_TEXT + k * PAGE_SIZE)"
proof -
  show "user_va (USER_TEXT + k * PAGE_SIZE)" using assms by (simp add: user_va_def USER_TEXT_def PAGE_SIZE_def)
  have c: "USER_TEXT + k * PAGE_SIZE = (0x40000 + k) * PAGE_SIZE" by (simp add: USER_TEXT_def PAGE_SIZE_def)
  show "page_aligned (USER_TEXT + k * PAGE_SIZE)" unfolding c by (simp add: page_aligned_def)
  have p: "0 < PAGE_SIZE" by (simp add: PAGE_SIZE_def)
  have s: "USER_TEXT + Suc k * PAGE_SIZE = (0x40000 + k) * PAGE_SIZE + PAGE_SIZE" using c by simp
  show "w div PAGE_SIZE = (USER_TEXT + k * PAGE_SIZE) div PAGE_SIZE \<longleftrightarrow>
       USER_TEXT + k * PAGE_SIZE \<le> w \<and> w < USER_TEXT + Suc k * PAGE_SIZE"
    unfolding s unfolding c page_number_iff using p by simp
  show "w mod PAGE_SIZE = w - (USER_TEXT + k * PAGE_SIZE)" if "USER_TEXT + k * PAGE_SIZE \<le> w" "w < USER_TEXT + Suc k * PAGE_SIZE"
  proof -
    from that obtain d where "w = (0x40000 + k) * PAGE_SIZE + d" "d < PAGE_SIZE"
      unfolding s c using le_Suc_ex by fastforce
    then show ?thesis unfolding c by simp
  qed
qed

section \<open>The page loop\<close>

lemma page_of_length:
  assumes "k < div_ceil len PAGE_SIZE"
  shows "k * PAGE_SIZE < len"
proof (cases "len mod PAGE_SIZE = 0")
  case True
  then have "Suc k * PAGE_SIZE \<le> len div PAGE_SIZE * PAGE_SIZE" using assms by (intro mult_le_mono1) (simp add: div_ceil_def)
  then show ?thesis using div_mult_mod_eq [of len PAGE_SIZE] True by (simp add: PAGE_SIZE_def)
next
  case False
  then have "k * PAGE_SIZE \<le> len div PAGE_SIZE * PAGE_SIZE" using assms by (intro mult_le_mono1) (simp add: div_ceil_def)
  then show ?thesis using div_mult_mod_eq [of len PAGE_SIZE] False by linarith
qed

lemma text_view_Suc:
  assumes "k < 0x1000"
  shows "text_view m src len (Suc k) w = (if w div PAGE_SIZE = (USER_TEXT + k * PAGE_SIZE) div PAGE_SIZE
    then Some (PTE_R OR PTE_X OR PTE_U, if w - USER_TEXT < len then m (src + (w - USER_TEXT)) else 0)
    else text_view m src len k w)"
  unfolding user_text_page(3) [OF assms] text_view_def by auto

lemma load_text_run:
  assumes I: "image_ok src len s0" and n: "n = div_ceil len PAGE_SIZE"
    and "grown L kr r s0 used s" and "\<And>w. uview (mem s) r w = text_view (mem s0) src len k w" and "k \<le> n"
    and "3 * (n - k) \<le> length (free_list s)"
  shows "\<exists>s' new. load_text r src len [k..<n] s = Ok s' \<and> grown L kr r s0 (used @ new) s' \<and> length new \<le> 3 * (n - k) \<and>
    (\<forall>w. uview (mem s') r w = text_view (mem s0) src len n w)"
  using assms(3-)
proof (induction "n - k" arbitrary: k used s)
  case 0
  then have "k = n" by simp
  with 0 show ?case by (intro exI [of _ s] exI [of _ "[]"]) simp
next
  case (Suc d)
  then have k: "k < n" by simp
  have len: "0 < len" "len \<le> 0xfff000" "src + len \<le> usize_max" and nin: "\<And>a. src \<le> a \<Longrightarrow> a < src + len \<Longrightarrow> \<not> in_pages a (set (free_list s0))"
    using I by (auto simp: image_ok_def USER_STACK_TOP_def USER_TEXT_def PAGE_SIZE_def)
  have nk: "k * PAGE_SIZE < len" "k < 0x1000" using page_of_length [of k len] k len(2) unfolding n by (simp_all add: PAGE_SIZE_def)
  note T = user_text_page [OF nk(2)]
  note D = grownD [OF Suc.prems(1)]
  obtain f ps where fl: "free_list s = f # ps" using Suc.prems(4) k by (cases "free_list s") auto
  from kalloc_alloc_pop [OF kspaceD(2) [OF D(2)] fl] obtain s1 where s1: "kalloc_alloc s = Ok (Some f, s1)" by blast
  let ?va = "USER_TEXT + k * PAGE_SIZE" and ?c = "min (len - k * PAGE_SIZE) PAGE_SIZE"
  let ?m = "copy_nonoverlapping (mem s1) (src + k * PAGE_SIZE) f ?c"
  have ch1: "in_pages a {f}" if "?m a \<noteq> mem s1 a" for a
    using that by (auto simp: copy_nonoverlapping_def in_pages_def split: if_splits)
  have un: "uview (mem s) r ?va = None" using Suc.prems(2) by (simp add: text_view_def)
  have room: "missing (mem s) r ?va \<le> length ps" using missing_le [of "mem s" r ?va] Suc.prems(4) k fl by simp
  obtain new s2 where s2: "map_pages r ?va f PAGE_SIZE (PTE_R OR PTE_X OR PTE_U) (s1\<lparr>mem := ?m\<rparr>) = Ok s2"
    "grown L kr r s0 (used @ f # new) s2" "length new = missing (mem s) r ?va" "ps = new @ free_list s2"
    and v: "\<And>w. uview (mem s2) r w = (if w div PAGE_SIZE = ?va div PAGE_SIZE
      then Some ((PTE_R OR PTE_X OR PTE_U) AND PERM_MASK, ?m (f + w mod PAGE_SIZE)) else uview (mem s) r w)"
    and z: "mem s1 = write_bytes (mem s) f 0 PAGE_SIZE"
    by (rule grown_map [OF Suc.prems(1) fl s1 ch1 T(1,2) un room user_perms(1,2)]) (assumption, rule that)
  have same: "mem s1 a = mem s0 a" if "src \<le> a" "a < src + len" for a
  proof -
    have "\<not> in_pages a (set used)" "\<not> in_pages a {f}" using nin [OF that] D(3) fl by (auto simp: in_pages_def)
    then show ?thesis using D(6) [of a] z write_bytes_outside [of a f "mem s" 0] by auto
  qed
  have data: "?m (f + j) = (if k * PAGE_SIZE + j < len then mem s0 (src + (k * PAGE_SIZE + j)) else 0)" if "j < PAGE_SIZE" for j
    using that same [of "src + (k * PAGE_SIZE + j)"] z by (auto simp: copy_nonoverlapping_def write_bytes_def add.assoc)
  have v2: "uview (mem s2) r w = text_view (mem s0) src len (Suc k) w" for w
  proof (cases "w div PAGE_SIZE = ?va div PAGE_SIZE")
    case True
    then have w: "?va \<le> w" "w < USER_TEXT + Suc k * PAGE_SIZE" unfolding T(3) by simp_all
    have "w mod PAGE_SIZE = w - ?va" "w mod PAGE_SIZE < PAGE_SIZE" using T(4) [OF w] by (simp_all add: PAGE_SIZE_def)
    then have "?m (f + w mod PAGE_SIZE) = (if w - USER_TEXT < len then mem s0 (src + (w - USER_TEXT)) else 0)"
      using data [of "w mod PAGE_SIZE"] w(1) by simp
    then show ?thesis using True v [of w] user_perms(5) text_view_Suc [OF nk(2)] by simp
  next
    case False
    then show ?thesis using v [of w] Suc.prems(2) text_view_Suc [OF nk(2)] by simp
  qed
  have room2: "3 * (n - Suc k) \<le> length (free_list s2)"
    using Suc.prems(4) fl s2(3,4) missing_le [of "mem s" r ?va] k by simp
  have d: "d = n - Suc k" using Suc.hyps(2) by simp
  from Suc.hyps(1) [OF d s2(2) v2 _ room2] k obtain s' new' where s': "load_text r src len [Suc k..<n] s2 = Ok s'"
    "grown L kr r s0 ((used @ f # new) @ new') s'" "length new' \<le> 3 * (n - Suc k)"
    "\<forall>w. uview (mem s') r w = text_view (mem s0) src len n w" by auto
  have a: "umul k PAGE_SIZE = Ok (k * PAGE_SIZE)" "usub len (k * PAGE_SIZE) = Ok (len - k * PAGE_SIZE)"
    "uadd src (k * PAGE_SIZE) = Ok (src + k * PAGE_SIZE)" "uadd USER_TEXT (k * PAGE_SIZE) = Ok ?va"
    using nk len by (simp_all add: umul_def usub_def uadd_def USER_TEXT_def usize_max_eq PAGE_SIZE_def)
  have "load_text r src len [k..<n] s = Ok s'"
    using k s1 a s2(1) s'(1) by (simp add: upt_conv_Cons)
  then show ?case using s'(2-4) s2(3) missing_le [of "mem s" r ?va] k
    by (intro exI [of _ s'] exI [of _ "f # new @ new'"]) simp
qed

section \<open>The image\<close>

lemma load_user_image_run:
  assumes I: "image_ok src len s" and K: "kspace L kr s" and room: "3 * div_ceil len PAGE_SIZE + 4 \<le> length (free_list s)"
  obtains r used s' where "load_user_image kr (src, len) s = Ok (r, s')" and "grown L kr r s used s'"
    and "length used \<le> 3 * div_ceil len PAGE_SIZE + 4" and "\<And>w. uview (mem s') r w = image_view (mem s) src len w"
proof -
  let ?n = "div_ceil len PAGE_SIZE" and ?st = "USER_STACK_TOP - PAGE_SIZE"
  obtain r ps where fl: "free_list s = r # ps" using room by (cases "free_list s") auto
  obtain s1 where s1: "make_user_table kr s = Ok (r, s1)" "grown L kr r s [r] s1" "\<And>w. uview (mem s1) r w = None"
    by (rule grown_make [OF K fl]) (rule that)
  have v0: "uview (mem s1) r w = text_view (mem s) src len 0 w" for w using s1(3) by (simp add: text_view_def)
  have "3 * (?n - 0) \<le> length (free_list s1)" using room grownD(3) [OF s1(2)] by simp
  from load_text_run [OF I refl s1(2) v0 le0 this] obtain s2 new where s2: "load_text r src len [0..<?n] s1 = Ok s2"
    "grown L kr r s ([r] @ new) s2" "length new \<le> 3 * ?n" and v2: "\<And>w. uview (mem s2) r w = text_view (mem s) src len ?n w" by auto
  note D = grownD [OF s2(2)]
  have fl2: "3 \<le> length (free_list s2)" using room D(3) s2(3) by simp
  then obtain f qs where f: "free_list s2 = f # qs" by (cases "free_list s2") auto
  from kalloc_alloc_pop [OF kspaceD(2) [OF D(2)] f] obtain s3 where s3: "kalloc_alloc s2 = Ok (Some f, s3)" by blast
  have st: "user_va ?st" "page_aligned ?st"
    by (simp_all add: user_va_def USER_STACK_TOP_def PAGE_SIZE_def page_aligned_def)
  have below: "USER_TEXT + ?n * PAGE_SIZE \<le> ?st"
  proof -
    have "len \<le> 0xfff * PAGE_SIZE" "0 < len" using I by (simp_all add: image_ok_def USER_STACK_TOP_def USER_TEXT_def PAGE_SIZE_def)
    then have "\<not> 0xfff < ?n" using page_of_length [of "0xfff" len] by auto
    then have "?n * PAGE_SIZE \<le> 0xfff * PAGE_SIZE" by (intro mult_le_mono1) simp
    then show ?thesis by (simp add: USER_STACK_TOP_def USER_TEXT_def PAGE_SIZE_def)
  qed
  have un: "uview (mem s2) r ?st = None" using v2 below by (simp add: text_view_def)
  have room2: "missing (mem s2) r ?st \<le> length qs" using missing_le [of "mem s2" r ?st] fl2 f by simp
  obtain new' s4 where s4: "map_pages r ?st f PAGE_SIZE (PTE_R OR PTE_W OR PTE_U) (s3\<lparr>mem := mem s3\<rparr>) = Ok s4"
    "grown L kr r s (([r] @ new) @ f # new') s4" "length new' = missing (mem s2) r ?st"
    and v4: "\<And>w. uview (mem s4) r w = (if w div PAGE_SIZE = ?st div PAGE_SIZE
      then Some ((PTE_R OR PTE_W OR PTE_U) AND PERM_MASK, mem s3 (f + w mod PAGE_SIZE)) else uview (mem s2) r w)"
    and z: "mem s3 = write_bytes (mem s2) f 0 PAGE_SIZE"
    by (rule grown_map [where m = "mem s3", OF s2(2) f s3 _ st un room2 user_perms(3,4)]) (simp, rule that)
  have view: "uview (mem s4) r w = image_view (mem s) src len w" for w
  proof -
    have "w div PAGE_SIZE = ?st div PAGE_SIZE \<longleftrightarrow> ?st \<le> w \<and> w < USER_STACK_TOP"
      unfolding page_number_iff by (simp add: USER_STACK_TOP_def PAGE_SIZE_def)
    moreover have "mem s3 (f + w mod PAGE_SIZE) = 0" unfolding z by (simp add: write_bytes_def PAGE_SIZE_def)
    ultimately show ?thesis using v4 [of w] v2 [of w] below user_perms(6) by (auto simp: image_view_def text_view_def)
  qed
  have "0 < len" using I by (simp add: image_ok_def)
  then have "load_user_image kr (src, len) s = Ok (r, s4)"
    using s1(1) s2(1) s3 s4(1) by (simp add: load_user_image_def)
  then show thesis using s4(2,3) s2(3) missing_le [of "mem s2" r ?st] view by (intro that [of r s4 "([r] @ new) @ f # new'"]) simp_all
qed

end
