(* ===== verification/Isolation.thy ===== *)
theory Isolation
  imports Image
begin

text \<open>
  Address spaces as a whole: what the kernel's table gives every process, what a process can reach in
  user mode, and the correctness of \<open>clone_user_table\<close> and \<open>free_user_table\<close>.  The example of the
  witnesses is the machine as it boots: the page allocator seeded by \<open>kalloc::init\<close> and the kernel's
  table built by \<open>kvmmake\<close>.
\<close>

section \<open>The kernel's table\<close>

text \<open>No page the kernel maps for itself is open to user mode.\<close>

definition kernel_private :: "memory \<Rightarrow> usize \<Rightarrow> bool" where
  "kernel_private m kr \<longleftrightarrow> (\<forall>va<VA_MAX. \<forall>e. pte_of m kr va = Some e \<longrightarrow> e AND PTE_U = 0)"

lemma kernel_perm_user: "layout_ok L \<Longrightarrow> user_va w \<Longrightarrow> kernel_perm L w = None"
  unfolding kernel_perm_def user_va_def layout_ok_def by (auto simp: memlayout_consts)

lemma kernel_perm_no_U: "kernel_perm L w = Some p \<Longrightarrow> \<not> bit p 4"
  by (auto simp: kernel_perm_def bit_or_iff bit_pte_flag split: if_splits)

lemma identity_kspace:
  assumes "layout_ok L" and "identity_map L r (kernel_perm L) s"
  shows "kspace L r s" and "kernel_private (mem s) r"
proof -
  have "kernel_perm L w = None" if "w < VA_MAX" "vpn w 2 = 1" for w
    using kernel_perm_user [OF assms(1) vpn_user_va [OF that(2,1)]] .
  then have "sub (mem s) r 1 = None" using assms(2) unfolding identity_map_def by (simp del: One_nat_def)
  then show "kspace L r s" using assms(2) by (simp add: kspace_def identity_map_def)
  show "kernel_private (mem s) r" unfolding kernel_private_def
  proof (intro allI impI)
    fix va e assume "va < VA_MAX" "pte_of (mem s) r va = Some e"
    then obtain p where "kernel_perm L va = Some p" "e = leaf_pte (va - va mod PAGE_SIZE) p"
      using assms(2) by (auto simp: identity_map_def)
    then show "e AND PTE_U = 0"
      using kernel_perm_no_U [of L va p] kernel_perm_less [of L va p] leaf_pte_flags(2) [of p 4] by (auto simp: pte_test)
  qed
qed

text \<open>The machine after boot: the kernel's table, and at least 1000 free pages.\<close>

lemma booted:
  obtains s0 kr s where "kalloc_init boot_layout None (kmem_new (\<lambda>_. 0)) = Ok s0" and "kvmmake boot_layout s0 = Ok (kr, s)"
    and "kspace boot_layout kr s" and "kernel_private (mem s) kr" and "1000 \<le> length (free_list s)"
proof -
  obtain s0 where s0: "kalloc_init boot_layout None (kmem_new (\<lambda>_. 0)) = Ok s0" "kalloc_inv boot_layout s0"
    "1151 \<le> length (free_list s0)"
    using kalloc_boot [OF boot_layout_ok, of 1151 "\<lambda>_. 0"] by (auto simp: alloc_start_boot_layout memlayout_consts)
  then have r: "151 \<le> length (free_list s0)" by simp
  obtain kr s where "kvmmake boot_layout s0 = Ok (kr, s)" "identity_map boot_layout kr (kernel_perm boot_layout) s"
    "length (free_list s0) \<le> length (free_list s) + 151"
    by (rule kvmmake_identity [OF boot_layout_ok s0(2) r]) (rule that)
  then show thesis using s0 identity_kspace [OF boot_layout_ok] by (intro that [of s0 kr s]) simp_all
qed

text \<open>A first address space on it, with a program of 100 bytes.\<close>

lemma grown_private:
  assumes "kspace L kr s0" and "grown L kr r s0 used s" and "kernel_private (mem s0) kr"
  shows "kernel_private (mem s) kr"
proof -
  note D = grownD [OF assms(2)]
  have d: "\<forall>p\<in>set used. page_aligned p" "set used \<inter> tabs (mem s0) kr = {}" "set (free_list s) \<inter> tabs (mem s0) kr = {}"
    using kspaceD(2,4) [OF assms(1)] D(3) free_aligned [OF kspaceD(2) [OF assms(1)]] by auto
  have "pte_of (mem s) kr va = pte_of (mem s0) kr va" for va
    using kspace_frame(3) [OF assms(1) kspaceD(2) [OF D(2)] D(6) d] by blast
  then show ?thesis using assms(3) by (simp add: kernel_private_def)
qed

lemma booted_space:
  obtains s0 kr s1 r used s where "kalloc_init boot_layout None (kmem_new (\<lambda>_. 0)) = Ok s0" and "kvmmake boot_layout s0 = Ok (kr, s1)"
    and "load_user_image kr (0x80200000, 100) s1 = Ok (r, s)" and "grown boot_layout kr r s1 used s"
    and "kspace boot_layout kr s1" and "kernel_private (mem s) kr" and "image_ok 0x80200000 100 s1"
    and "\<And>w. uview (mem s) r w = image_view (mem s1) 0x80200000 100 w" and "900 \<le> length (free_list s)"
    and "card (owned (mem s) r) \<le> 7" and "1000 \<le> length (free_list s1)"
proof -
  obtain s0 kr s1 where b: "kalloc_init boot_layout None (kmem_new (\<lambda>_. 0)) = Ok s0" "kvmmake boot_layout s0 = Ok (kr, s1)"
    and k1: "kspace boot_layout kr s1" and p1: "kernel_private (mem s1) kr" and n1: "1000 \<le> length (free_list s1)"
    by (rule booted) (rule that)
  have "\<not> in_pages a (set (free_list s1))" if "a < 0x80200000 + 100" for a
    using kspaceD(2) [OF k1] that by (auto simp: in_pages_def kalloc_inv_def alloc_page_def alloc_start_boot_layout)
  then have I: "image_ok 0x80200000 100 s1" by (simp add: image_ok_def USER_STACK_TOP_def USER_TEXT_def PAGE_SIZE_def usize_max_eq)
  have one: "div_ceil 100 PAGE_SIZE = 1" by (simp add: div_ceil_def PAGE_SIZE_def)
  have room: "3 * div_ceil 100 PAGE_SIZE + 4 \<le> length (free_list s1)" using n1 one by simp
  obtain r used s where s: "load_user_image kr (0x80200000, 100) s1 = Ok (r, s)" "grown boot_layout kr r s1 used s"
    "length used \<le> 7" and v: "\<And>w. uview (mem s) r w = image_view (mem s1) 0x80200000 100 w"
    by (rule load_user_image_run [OF I k1 room]) (use one in \<open>auto intro: that\<close>)
  have "card (owned (mem s) r) \<le> 7" using grownD(4) [OF s(2)] s(3) card_length [of used] by simp
  moreover have "900 \<le> length (free_list s)" using n1 grownD(3) [OF s(2)] s(3) by simp
  ultimately show thesis using b s(1,2) k1 grown_private [OF k1 s(2) p1] I v n1 by (intro that [of s0 kr s1 r s used])
qed

lemma booted_text:
  assumes "\<And>w. uview m r w = image_view m1 src 100 w"
  shows "uview m r USER_TEXT = Some (PTE_R OR PTE_X OR PTE_U, m1 src)" and "uview m r USER_HEAP_BASE = None"
  using assms by (simp_all add: image_view_def div_ceil_def USER_TEXT_def USER_STACK_TOP_def USER_HEAP_BASE_def PAGE_SIZE_def)

section \<open>Properties\<close>

text \<open>
  C8. Loading a program.  For an image that fits below the stack and does not lie in free pages, with
  three free pages per page of text and four more, \<open>load_user_image\<close> does not panic.  The new process
  sees the bytes of the image at \<open>USER_TEXT\<close>, padded with zeroes and executable but not writable, one zeroed
  stack page, and nothing else; the space lies in pages that were free, and no other memory changed.
\<close>

theorem load_user_image_correct:
  assumes "kspace L kr s" and "image_ok src len s" and "3 * div_ceil len PAGE_SIZE + 4 \<le> length (free_list s)"
  shows "\<exists>r used s'. load_user_image kr (src, len) s = Ok (r, s') \<and> aspace L kr r s' \<and> kspace L kr s' \<and>
     uview (mem s') r = image_view (mem s) src len \<and> free_list s = used @ free_list s' \<and> owned (mem s') r = set used \<and>
     (\<forall>a. mem s' a \<noteq> mem s a \<longrightarrow> in_pages a (set used))"
proof -
  obtain r used s' where "load_user_image kr (src, len) s = Ok (r, s')" "grown L kr r s used s'"
    "\<And>w. uview (mem s') r w = image_view (mem s) src len w" by (rule load_user_image_run [OF assms(2,1,3)]) (rule that)
  then show ?thesis using grownD [of L kr r s used s'] by (intro exI [of _ r] exI [of _ used] exI [of _ s'] conjI) (simp_all add: fun_eq_iff)
qed

theorem load_user_image_correct_witness:
  "\<exists>s0 kr s r s'. kalloc_init boot_layout None (kmem_new (\<lambda>_. 0)) = Ok s0 \<and> kvmmake boot_layout s0 = Ok (kr, s) \<and>
     load_user_image kr (0x80200000, 100) s = Ok (r, s') \<and>
     uview (mem s') r USER_TEXT = Some (PTE_R OR PTE_X OR PTE_U, mem s 0x80200000)"
proof -
  obtain s0 kr s1 where b: "kalloc_init boot_layout None (kmem_new (\<lambda>_. 0)) = Ok s0" "kvmmake boot_layout s0 = Ok (kr, s1)"
    and k: "kspace boot_layout kr s1" "image_ok 0x80200000 100 s1" and n: "1000 \<le> length (free_list s1)"
    by (rule booted_space) (rule that)
  have "3 * div_ceil 100 PAGE_SIZE + 4 \<le> length (free_list s1)" using n by (simp add: div_ceil_def PAGE_SIZE_def)
  from load_user_image_correct [OF k this] obtain r s' where "load_user_image kr (0x80200000, 100) s1 = Ok (r, s')"
    "uview (mem s') r = image_view (mem s1) 0x80200000 100" by blast
  with b booted_text(1) show ?thesis by metis
qed

text \<open>
  C6. Fork's copy of an address space.  With as many free pages as the parent owns, \<open>clone_user_table\<close>
  does not panic, and takes no more.  The child sees at every user address the same byte with the same
  permissions as the parent, in pages that were free before and that the parent does not own; the
  parent's memory and every byte outside the new pages are unchanged.
\<close>

theorem clone_user_table_correct:
  assumes "aspace L kr p s" and "kspace L kr s" and "card (owned (mem s) p) \<le> length (free_list s)"
  shows "\<exists>c used s'. clone_user_table kr p s = Ok (c, s') \<and> aspace L kr c s' \<and> aspace L kr p s' \<and> kspace L kr s' \<and>
     uview (mem s') c = uview (mem s) p \<and> uview (mem s') p = uview (mem s) p \<and>
     free_list s = used @ free_list s' \<and> length used \<le> card (owned (mem s) p) \<and> owned (mem s') c = set used \<and>
     owned (mem s') c \<inter> owned (mem s') p = {} \<and> (\<forall>a. mem s' a \<noteq> mem s a \<longrightarrow> in_pages a (set used))"
proof -
  obtain c used s' where c: "clone_user_table kr p s = Ok (c, s')" "cloning L kr p c s UNIV used s'"
    "length used \<le> card (owned (mem s) p)" by (rule clone_user_table_run [OF assms])
  note D = cloningD [OF c(2)] and P = cloning_parent [OF c(2) assms(1,2)]
  show ?thesis using c(1,3) D P(1-4) by (intro exI [of _ c] exI [of _ used] exI [of _ s'] conjI) (auto simp: fun_eq_iff)
qed

theorem clone_user_table_correct_witness:
  "\<exists>kr r s c s'. clone_user_table kr r s = Ok (c, s') \<and> uview (mem s') c = uview (mem s) r \<and>
     fst (the (uview (mem s') c USER_TEXT)) = PTE_R OR PTE_X OR PTE_U"
proof -
  obtain kr s1 r used s where g: "grown boot_layout kr r s1 used s" and n: "900 \<le> length (free_list s)"
    "card (owned (mem s) r) \<le> 7" and v: "\<And>w. uview (mem s) r w = image_view (mem s1) 0x80200000 100 w"
    by (rule booted_space) (rule that)
  have "card (owned (mem s) r) \<le> length (free_list s)" using n by simp
  from clone_user_table_correct [OF grownD(1,2) [OF g] this] obtain c s' where
    "clone_user_table kr r s = Ok (c, s')" "uview (mem s') c = uview (mem s) r" by blast
  with booted_text(1) [OF v] show ?thesis by (metis fst_conv option.sel)
qed

text \<open>
  C7. Freeing an address space.  \<open>free_user_table\<close> does not panic, and gives back to the allocator exactly the
  pages the space owns, each once: its tables below the user slot, its frames and its root.  The
  kernel's tables are kept, and so is every address space that shares no page with it, down to the bytes it sees.
\<close>

theorem free_user_table_correct:
  assumes "aspace L kr r s" and "kspace L kr s"
  shows "\<exists>s' ps. free_user_table L r s = Ok s' \<and> kspace L kr s' \<and> free_list s' = ps @ free_list s \<and> distinct ps \<and>
     set ps = owned (mem s) r \<and>
     (\<forall>q. aspace L kr q s \<longrightarrow> owned (mem s) q \<inter> owned (mem s) r = {} \<longrightarrow>
        aspace L kr q s' \<and> owned (mem s') q = owned (mem s) q \<and> uview (mem s') q = uview (mem s) q)"
proof -
  obtain s' ps where s': "free_user_table L r s = Ok s'" "freed L ps s s'" "set ps = owned (mem s) r"
    by (rule free_user_table_run [OF assms])
  have k: "kalloc_inv L s'" "free_list s' = ps @ free_list s" and ch: "\<And>a. mem s' a \<noteq> mem s a \<Longrightarrow> in_pages a (set ps)"
    using s'(2) by (auto simp: freed_def)
  note O = owned_free [OF assms] and al = freed_aligned [OF s'(2)]
  have d: "set ps \<inter> tabs (mem s) kr = {}" "set (free_list s') \<inter> tabs (mem s) kr = {}" using O(1,2) s'(3) k(2) by auto
  have "kspace L kr s'" using kspace_frame(1) [OF assms(2) k(1) ch al d] by blast
  moreover have "distinct ps" using k by (simp add: kalloc_inv_def)
  moreover have "aspace L kr q s' \<and> owned (mem s') q = owned (mem s) q \<and> uview (mem s') q = uview (mem s) q"
    if q: "aspace L kr q s" "owned (mem s) q \<inter> owned (mem s) r = {}" for q
  proof -
    have e: "set ps \<inter> (owned (mem s) q \<union> tabs (mem s) kr) = {}" "set (free_list s') \<inter> (owned (mem s) q \<union> tabs (mem s) kr) = {}"
      using d q(2) s'(3) k(2) owned_free(1) [OF q(1) assms(2)] by auto
    show ?thesis using aspace_other(1,3,6) [OF q(1) assms(2) k(1) ch al e] by (auto simp: fun_eq_iff)
  qed
  ultimately show ?thesis using s'(1,3) k(2) by blast
qed

theorem free_user_table_correct_witness:
  "\<exists>kr r s s' ps. free_user_table boot_layout r s = Ok s' \<and> free_list s' = ps @ free_list s \<and> kspace boot_layout kr s' \<and>
     set ps = owned (mem s) r \<and> r \<in> set ps \<and> uview (mem s) r USER_TEXT \<noteq> None"
proof -
  obtain kr s1 r used s where g: "grown boot_layout kr r s1 used s"
    and v: "\<And>w. uview (mem s) r w = image_view (mem s1) 0x80200000 100 w" by (rule booted_space) (rule that)
  from free_user_table_correct [OF grownD(1,2) [OF g]] owned_free(5) [OF grownD(1,2) [OF g]] booted_text(1) [OF v]
  show ?thesis by fastforce
qed



end
