(* ===== verification/Bytes.thy ===== *)
theory Bytes
  imports Prelude
begin

text \<open>
  Byte strings: the bytes of an ASCII literal, and \<open>core::str::from_utf8\<close>, the validation of the
  standard library that the syscalls and the shell apply before they treat bytes as text.
\<close>

definition bytes_of :: "string \<Rightarrow> u8 list" where
  "bytes_of cs = map (\<lambda>c. word_of_nat (of_char c)) cs"

definition NL :: u8 where "NL = 10"
definition CR :: u8 where "CR = 13"

definition in_range :: "nat \<Rightarrow> nat \<Rightarrow> u8 \<Rightarrow> bool" where
  "in_range lo hi b \<longleftrightarrow> lo \<le> unat b \<and> unat b \<le> hi"

definition cont :: "u8 \<Rightarrow> bool" where
  "cont b \<longleftrightarrow> in_range 0x80 0xbf b"

text \<open>The well-formed byte sequences of the Unicode standard: one to four bytes, no overlong forms, no
  surrogates, nothing above U+10FFFF.\<close>

fun utf8_valid :: "u8 list \<Rightarrow> bool" where
  "utf8_valid [] \<longleftrightarrow> True"
| "utf8_valid [a] \<longleftrightarrow> in_range 0 0x7f a"
| "utf8_valid [a, b] \<longleftrightarrow>
     (if in_range 0 0x7f a then in_range 0 0x7f b else in_range 0xc2 0xdf a \<and> cont b)"
| "utf8_valid [a, b, c] \<longleftrightarrow>
     (if in_range 0 0x7f a then utf8_valid [b, c]
      else if in_range 0xc2 0xdf a then cont b \<and> utf8_valid [c]
      else if unat a = 0xe0 then in_range 0xa0 0xbf b \<and> cont c
      else if unat a = 0xed then in_range 0x80 0x9f b \<and> cont c
      else in_range 0xe1 0xef a \<and> cont b \<and> cont c)"
| "utf8_valid (a # b # c # d # bs) \<longleftrightarrow>
     (if in_range 0 0x7f a then utf8_valid (b # c # d # bs)
      else if in_range 0xc2 0xdf a then cont b \<and> utf8_valid (c # d # bs)
      else if unat a = 0xe0 then in_range 0xa0 0xbf b \<and> cont c \<and> utf8_valid (d # bs)
      else if unat a = 0xed then in_range 0x80 0x9f b \<and> cont c \<and> utf8_valid (d # bs)
      else if in_range 0xe1 0xef a then cont b \<and> cont c \<and> utf8_valid (d # bs)
      else if unat a = 0xf0 then in_range 0x90 0xbf b \<and> cont c \<and> cont d \<and> utf8_valid bs
      else if unat a = 0xf4 then in_range 0x80 0x8f b \<and> cont c \<and> cont d \<and> utf8_valid bs
      else in_range 0xf1 0xf3 a \<and> cont b \<and> cont c \<and> cont d \<and> utf8_valid bs)"

definition from_utf8 :: "u8 list \<Rightarrow> u8 list option" where
  "from_utf8 bs = (if utf8_valid bs then Some bs else None)"

definition ascii :: "u8 list \<Rightarrow> bool" where
  "ascii bs \<longleftrightarrow> list_all (in_range 0 0x7f) bs"

lemma utf8_ascii: "ascii bs \<Longrightarrow> utf8_valid bs"
  by (induction bs rule: utf8_valid.induct) (auto simp: ascii_def)

lemma ascii_append [simp]: "ascii (xs @ ys) \<longleftrightarrow> ascii xs \<and> ascii ys"
  by (simp add: ascii_def)

lemma ascii_take: "ascii bs \<Longrightarrow> ascii (take n bs)"
  by (auto simp: ascii_def list_all_iff dest: in_set_takeD)

lemma ascii_drop: "ascii bs \<Longrightarrow> ascii (drop n bs)"
  by (auto simp: ascii_def list_all_iff dest: in_set_dropD)

lemma length_bytes_of [simp]: "length (bytes_of cs) = length cs"
  by (simp add: bytes_of_def)

lemma unat_of_char: "unat (word_of_nat (of_char c) :: u8) = of_char c"
  using nat_of_char_less_256 [of c] by (simp add: unat_of_nat)

lemma bytes_of_inject [simp]: "bytes_of xs = bytes_of ys \<longleftrightarrow> xs = ys"
proof -
  have "inj (\<lambda>c. word_of_nat (of_char c) :: u8)"
    by (rule injI) (metis unat_of_char of_char_eq_iff)
  then show ?thesis unfolding bytes_of_def by (metis inj_map_eq_map)
qed

end
