(* ===== verification/Console.thy ===== *)
theory Console
  imports Bytes
begin

text \<open>
  \<open>src/src/console.rs\<close>: the input ring between the UART interrupt and the readers, and the newline
  translation of the output.  The ring's indices grow without bound and select a slot modulo the
  capacity; the model keeps them and the array, with the index arithmetic checked as in a debug
  build, and shows that the ring is a bounded queue.  The calls into the scheduler (\<open>wakeup\<close>, \<open>sleep\<close>) and
  into the UART are in \<open>Kernel\<close>, where the state has them.
\<close>

definition INPUT_CAP :: usize where "INPUT_CAP = 256"

record input =
  in_buf :: "u8 list"
  in_r :: usize
  in_w :: usize

definition input_new :: input where
  "input_new = \<lparr>in_buf = replicate INPUT_CAP 0, in_r = 0, in_w = 0\<rparr>"

text \<open>The block under the lock in \<open>on_input\<close>, and the normalisation before it.\<close>

definition normalize_input :: "u8 \<Rightarrow> u8" where
  "normalize_input byte = (if byte = CR then NL else byte)"

definition ring_put :: "u8 \<Rightarrow> input \<Rightarrow> input result" where
  "ring_put byte q =
     bindR (usub (in_w q) (in_r q)) (\<lambda>fill.
     if fill < INPUT_CAP
     then let slot = in_w q mod INPUT_CAP in
          bindR (uadd (in_w q) 1) (\<lambda>w. Ok (q\<lparr>in_buf := (in_buf q)[slot := byte], in_w := w\<rparr>))
     else Ok q)"

definition ring_get :: "input \<Rightarrow> (u8 option \<times> input) result" where
  "ring_get q =
     (if in_r q = in_w q then Ok (None, q)
      else let byte = in_buf q ! (in_r q mod INPUT_CAP) in
           bindR (uadd (in_r q) 1) (\<lambda>r. Ok (Some byte, q\<lparr>in_r := r\<rparr>)))"

text \<open>The bytes \<open>Console::write_str\<close> sends for a string.\<close>

fun crlf :: "u8 list \<Rightarrow> u8 list" where
  "crlf [] = []"
| "crlf (b # bs) = (if b = NL then CR # b # crlf bs else b # crlf bs)"

section \<open>The interface of a bounded queue\<close>

locale bounded_queue =
  fixes put :: "'x \<Rightarrow> 'q \<Rightarrow> 'q result" and get :: "'q \<Rightarrow> ('x option \<times> 'q) result"
    and content :: "'q \<Rightarrow> 'x list" and left :: "'q \<Rightarrow> nat" and inv :: "'q \<Rightarrow> bool" and cap :: nat
  assumes put_ok: "inv q \<Longrightarrow> 0 < left q \<Longrightarrow>
      \<exists>q'. put x q = Ok q' \<and> inv q' \<and> left q \<le> Suc (left q') \<and>
           content q' = (if length (content q) < cap then content q @ [x] else content q)"
    and get_ok: "inv q \<Longrightarrow>
      \<exists>q'. get q = Ok (case content q of [] \<Rightarrow> None | x # xs \<Rightarrow> Some x, q') \<and> inv q' \<and> left q' = left q \<and>
           content q' = tl (content q)"
    and content_cap: "inv q \<Longrightarrow> length (content q) \<le> cap"
begin

fun put_all :: "'x list \<Rightarrow> 'q \<Rightarrow> 'q result" where
  "put_all [] q = Ok q"
| "put_all (x # xs) q = bindR (put x q) (put_all xs)"

fun get_n :: "nat \<Rightarrow> 'q \<Rightarrow> ('x list \<times> 'q) result" where
  "get_n 0 q = Ok ([], q)"
| "get_n (Suc n) q = bindR (get q) (\<lambda>(b, q). case b of None \<Rightarrow> Ok ([], q) | Some x \<Rightarrow>
     bindR (get_n n q) (\<lambda>(xs, q). Ok (x # xs, q)))"

lemma put_all_ok:
  "inv q \<Longrightarrow> length xs \<le> left q \<Longrightarrow>
   \<exists>q'. put_all xs q = Ok q' \<and> inv q' \<and> content q' = take cap (content q @ xs)"
proof (induction xs arbitrary: q)
  case Nil
  then show ?case using content_cap by simp
next
  case (Cons x xs)
  then obtain q1 where q1: "put x q = Ok q1" "inv q1" "left q \<le> Suc (left q1)"
    "content q1 = (if length (content q) < cap then content q @ [x] else content q)"
    using put_ok [of q x] by auto
  moreover have "length xs \<le> left q1" using Cons.prems(2) q1(3) by simp
  ultimately obtain q2 where "put_all xs q1 = Ok q2" "inv q2" "content q2 = take cap (content q1 @ xs)"
    using Cons.IH by blast
  moreover have "take cap (content q1 @ xs) = take cap (content q @ x # xs)"
  proof (cases "length (content q) < cap")
    case True
    then have "content q1 @ xs = content q @ x # xs" using q1(4) by simp
    then show ?thesis by (simp only:)
  qed (use q1(4) in simp)
  ultimately show ?case using q1(1) by simp
qed

lemma get_n_ok:
  "inv q \<Longrightarrow> \<exists>q'. get_n n q = Ok (take n (content q), q') \<and> inv q' \<and> content q' = drop n (content q)"
proof (induction n arbitrary: q)
  case (Suc n)
  obtain q1 where q1: "get q = Ok (case content q of [] \<Rightarrow> None | x # xs \<Rightarrow> Some x, q1)" "inv q1"
    "content q1 = tl (content q)" using get_ok [OF Suc.prems] by blast
  with Suc.IH [OF q1(2)] show ?case by (cases "content q") auto
qed simp

end

section \<open>The ring is a bounded queue\<close>

definition ring_inv :: "input \<Rightarrow> bool" where
  "ring_inv q \<longleftrightarrow> length (in_buf q) = INPUT_CAP \<and> in_r q \<le> in_w q \<and> in_w q - in_r q \<le> INPUT_CAP \<and> in_w q \<le> usize_max"

definition ring_content :: "input \<Rightarrow> u8 list" where
  "ring_content q = map (\<lambda>i. in_buf q ! (i mod INPUT_CAP)) [in_r q..<in_w q]"

lemma length_ring_content [simp]: "length (ring_content q) = in_w q - in_r q"
  by (simp add: ring_content_def)

text \<open>Indices less than a lap apart select different slots.\<close>

lemma slot_neq:
  assumes "i < w" and "w - i < (n::nat)"
  shows "i mod n \<noteq> w mod n"
proof
  assume "i mod n = w mod n"
  then have "n dvd (w - i)" using assms(1) by (metis mod_eq_dvd_iff_nat less_imp_le)
  with assms show False by (auto dest: dvd_imp_le)
qed

interpretation ring: bounded_queue ring_put ring_get ring_content "\<lambda>q. usize_max - in_w q" ring_inv INPUT_CAP
proof unfold_locales
  fix q and x :: u8
  assume inv: "ring_inv q" and left: "0 < usize_max - in_w q"
  have le: "in_r q \<le> in_w q" "in_w q + 1 \<le> usize_max" using inv left by (simp_all add: ring_inv_def)
  show "\<exists>q'. ring_put x q = Ok q' \<and> ring_inv q' \<and> usize_max - in_w q \<le> Suc (usize_max - in_w q') \<and>
       ring_content q' = (if length (ring_content q) < INPUT_CAP then ring_content q @ [x] else ring_content q)"
  proof (cases "in_w q - in_r q < INPUT_CAP")
    case True
    let ?q = "q\<lparr>in_buf := (in_buf q)[in_w q mod INPUT_CAP := x], in_w := in_w q + 1\<rparr>"
    have "ring_put x q = Ok ?q" using le True by (simp add: ring_put_def Let_def)
    moreover have "ring_inv ?q" using inv le True by (simp add: ring_inv_def)
    moreover have "ring_content ?q = ring_content q @ [x]"
    proof -
      have len: "in_w q mod INPUT_CAP < length (in_buf q)" using inv by (simp add: ring_inv_def INPUT_CAP_def)
      have "(in_buf q)[in_w q mod INPUT_CAP := x] ! (i mod INPUT_CAP) = in_buf q ! (i mod INPUT_CAP)"
        if "i \<in> set [in_r q..<in_w q]" for i
      proof -
        have "i < in_w q" "in_w q - i < INPUT_CAP" using that True by auto
        from slot_neq [OF this] show ?thesis by simp
      qed
      then show ?thesis using len le by (simp add: ring_content_def)
    qed
    ultimately show ?thesis using True by simp
  next
    case False
    then show ?thesis using inv le by (simp add: ring_put_def)
  qed
next
  fix q assume inv: "ring_inv q"
  show "\<exists>q'. ring_get q = Ok (case ring_content q of [] \<Rightarrow> None | x # xs \<Rightarrow> Some x, q') \<and> ring_inv q' \<and>
      usize_max - in_w q' = usize_max - in_w q \<and> ring_content q' = tl (ring_content q)"
  proof (cases "in_r q = in_w q")
    case True
    then show ?thesis using inv by (simp add: ring_get_def ring_content_def)
  next
    case False
    then have "in_r q < in_w q" "in_r q + 1 \<le> usize_max" using inv by (simp_all add: ring_inv_def)
    then show ?thesis using inv False
      by (auto simp: ring_get_def Let_def ring_content_def upt_conv_Cons ring_inv_def)
  qed
next
  show "length (ring_content q) \<le> INPUT_CAP" if "ring_inv q" for q using that by (simp add: ring_inv_def)
qed

section \<open>Properties\<close>

text \<open>
  The input ring is a bounded queue: for a ring whose write index has not reached the end of
  \<open>usize\<close>, a byte put into it goes to the end of the queue when there is room and is dropped when the
  ring is full, and nothing panics.
\<close>

theorem ring_put_correct:
  assumes "ring_inv q" and "in_w q < usize_max"
  shows "\<exists>q'. ring_put b q = Ok q' \<and> ring_inv q' \<and>
     ring_content q' = (if length (ring_content q) < INPUT_CAP then ring_content q @ [b] else ring_content q)"
proof -
  have "0 < usize_max - in_w q" using assms(2) by simp
  from ring.put_ok [OF assms(1) this, of b] show ?thesis by blast
qed

theorem ring_put_correct_witness:
  "\<exists>q'. ring_put 65 input_new = Ok q' \<and> ring_content q' = [65]"
proof -
  have "ring_inv input_new" by (simp add: ring_inv_def input_new_def)
  moreover have "in_w input_new < usize_max" "ring_content input_new = []"
    by (simp_all add: input_new_def usize_max_eq ring_content_def)
  ultimately show ?thesis using ring_put_correct [of input_new 65] by (auto simp: INPUT_CAP_def)
qed

text \<open>
  First in, first out.  From an empty ring, the bytes of any burst of input that fits the ring
  are read back by as many \<open>getchar\<close>s, in order; of a longer burst exactly the first \<open>INPUT_CAP\<close> bytes
  survive.
\<close>

theorem ring_fifo:
  assumes "ring_inv q" and "ring_content q = []" and "length bs \<le> usize_max - in_w q"
  shows "\<exists>q1 q2. ring.put_all bs q = Ok q1 \<and> ring.get_n n q1 = Ok (take n (take INPUT_CAP bs), q2) \<and>
     ring_content q2 = drop n (take INPUT_CAP bs)"
proof -
  from ring.put_all_ok [OF assms(1,3)] obtain q1 where q1: "ring.put_all bs q = Ok q1" "ring_inv q1"
    "ring_content q1 = take INPUT_CAP bs" using assms(2) by auto
  with ring.get_n_ok [OF q1(2), of n] show ?thesis by auto
qed

theorem ring_fifo_witness:
  "\<exists>q1 q2. ring.put_all [104, 105] input_new = Ok q1 \<and> ring.get_n 2 q1 = Ok ([104, 105], q2)"
proof -
  have "ring_inv input_new" "ring_content input_new = []" "length [104, 105 :: u8] \<le> usize_max - in_w input_new"
    by (simp_all add: ring_inv_def input_new_def ring_content_def usize_max_eq)
  from ring_fifo [OF this, of 2] show ?thesis by (auto simp: INPUT_CAP_def)
qed

end
