(* ===== verification/Machine.thy ===== *)
theory Machine
  imports Memlayout Console
begin

text \<open>
  The drivers: \<open>src/src/uart.rs\<close>, \<open>plic.rs\<close>, \<open>sbi.rs\<close>, and the hardware side of \<open>timer.rs\<close> and \<open>power.rs\<close>.
  The devices, the firmware and the clock are not code of this kernel, so they are a parameter \<open>E\<close>: a
  record of what a volatile access, an \<open>ecall\<close> to the firmware and \<open>rdtime\<close> do to a device state of
  any type.  The theorems about a device name the documented behaviour they use as hypotheses.
  The transmit loop of the UART and the interrupt handler's loop are \<open>partial_function\<close>s: a
  transmitter that is never ready, or a receiver that never runs dry, is the value \<open>None\<close>.
\<close>

record sbi_ret =
  sbi_error :: int
  sbi_value :: usize

record 'd machine =
  mmio_r8 :: "usize \<Rightarrow> 'd \<Rightarrow> u8 \<times> 'd"
  mmio_w8 :: "usize \<Rightarrow> u8 \<Rightarrow> 'd \<Rightarrow> 'd"
  mmio_r32 :: "usize \<Rightarrow> 'd \<Rightarrow> u32 \<times> 'd"
  mmio_w32 :: "usize \<Rightarrow> u32 \<Rightarrow> 'd \<Rightarrow> 'd"
  firmware :: "usize \<Rightarrow> usize \<Rightarrow> usize \<Rightarrow> usize \<Rightarrow> 'd \<Rightarrow> sbi_ret \<times> 'd"
  rdtime :: "'d \<Rightarrow> usize \<times> 'd"

section \<open>UART\<close>

definition RBR :: usize where "RBR = 0"
definition THR :: usize where "THR = 0"
definition IER :: usize where "IER = 1"
definition FCR :: usize where "FCR = 2"
definition LCR :: usize where "LCR = 3"
definition LSR :: usize where "LSR = 5"

definition IER_RX_ENABLE :: u8 where "IER_RX_ENABLE = push_bit 0 1"
definition FCR_FIFO_ENABLE :: u8 where "FCR_FIFO_ENABLE = push_bit 0 1"
definition FCR_FIFO_CLEAR :: u8 where "FCR_FIFO_CLEAR = push_bit 1 3"
definition LCR_EIGHT_BITS :: u8 where "LCR_EIGHT_BITS = 3"
definition LCR_DLAB :: u8 where "LCR_DLAB = push_bit 7 1"
definition LSR_RX_READY :: u8 where "LSR_RX_READY = push_bit 0 1"
definition LSR_TX_IDLE :: u8 where "LSR_TX_IDLE = push_bit 5 1"

definition reg_read :: "'d machine \<Rightarrow> usize \<Rightarrow> 'd \<Rightarrow> u8 \<times> 'd" where
  "reg_read E off d = mmio_r8 E (UART0 + off) d"

definition reg_write :: "'d machine \<Rightarrow> usize \<Rightarrow> u8 \<Rightarrow> 'd \<Rightarrow> 'd" where
  "reg_write E off v d = mmio_w8 E (UART0 + off) v d"

definition uart_init :: "'d machine \<Rightarrow> 'd \<Rightarrow> 'd" where
  "uart_init E d =
     (let d = reg_write E IER 0 d;
          d = reg_write E LCR LCR_DLAB d;
          d = reg_write E 0 3 d;
          d = reg_write E 1 0 d;
          d = reg_write E LCR LCR_EIGHT_BITS d in
      reg_write E FCR (FCR_FIFO_ENABLE OR FCR_FIFO_CLEAR) d)"

definition enable_rx_interrupt :: "'d machine \<Rightarrow> 'd \<Rightarrow> 'd" where
  "enable_rx_interrupt E d = reg_write E IER IER_RX_ENABLE d"

partial_function (option) uart_put :: "'d machine \<Rightarrow> u8 \<Rightarrow> 'd \<Rightarrow> 'd option" where
  "uart_put E byte d =
     (let (l, d) = reg_read E LSR d in
      if l AND LSR_TX_IDLE = 0 then uart_put E byte d else Some (reg_write E THR byte d))"

definition uart_get :: "'d machine \<Rightarrow> 'd \<Rightarrow> u8 option \<times> 'd" where
  "uart_get E d =
     (let (l, d) = reg_read E LSR d in
      if l AND LSR_RX_READY \<noteq> 0 then let (b, d) = reg_read E RBR d in (Some b, d) else (None, d))"

text \<open>\<open>handle_interrupt\<close>, with the console's \<open>on_input\<close> as the function each byte goes to.\<close>

partial_function (option) uart_handle_interrupt ::
  "'d machine \<Rightarrow> (u8 \<Rightarrow> 's \<Rightarrow> 's result) \<Rightarrow> 'd \<Rightarrow> 's \<Rightarrow> ('d \<times> 's) result option" where
  "uart_handle_interrupt E on_input d s =
     (let (b, d) = uart_get E d in
      case b of
        None \<Rightarrow> Some (Ok (d, s))
      | Some byte \<Rightarrow>
          (case on_input byte s of
             Panic e \<Rightarrow> Some (Panic e)
           | Ok s \<Rightarrow> uart_handle_interrupt E on_input d s))"

text \<open>\<open>Console::write_str\<close> of \<open>src/src/console.rs\<close>.\<close>

fun write_str :: "'d machine \<Rightarrow> u8 list \<Rightarrow> 'd \<Rightarrow> 'd option" where
  "write_str E [] d = Some d"
| "write_str E (byte # bs) d =
     Option.bind (if byte = NL then uart_put E CR d else Some d) (\<lambda>d.
     Option.bind (uart_put E byte d) (write_str E bs))"

section \<open>PLIC\<close>

definition CONTEXT :: usize where "CONTEXT = 1"
definition PRIORITY_BASE :: usize where "PRIORITY_BASE = PLIC"
definition ENABLE_BASE :: usize where "ENABLE_BASE = PLIC + 0x2000 + 0x80 * CONTEXT"
definition THRESHOLD :: usize where "THRESHOLD = PLIC + 0x200000 + 0x1000 * CONTEXT"
definition CLAIM :: usize where "CLAIM = PLIC + 0x200004 + 0x1000 * CONTEXT"

definition plic_write32 :: "'d machine \<Rightarrow> usize \<Rightarrow> u32 \<Rightarrow> 'd \<Rightarrow> 'd" where
  "plic_write32 E addr v d = mmio_w32 E addr v d"

definition plic_read32 :: "'d machine \<Rightarrow> usize \<Rightarrow> 'd \<Rightarrow> u32 \<times> 'd" where
  "plic_read32 E addr d = mmio_r32 E addr d"

definition plic_init :: "'d machine \<Rightarrow> 'd \<Rightarrow> 'd" where
  "plic_init E d = plic_write32 E (PRIORITY_BASE + 4 * unat UART0_IRQ) 1 d"

definition plic_init_hart :: "'d machine \<Rightarrow> 'd \<Rightarrow> 'd" where
  "plic_init_hart E d =
     (let enable_word = ENABLE_BASE + 4 * (unat UART0_IRQ div 32);
          (v, d) = plic_read32 E enable_word d;
          d = plic_write32 E enable_word (v OR push_bit (unat (UART0_IRQ mod 32)) 1) d in
      plic_write32 E THRESHOLD 0 d)"

definition plic_claim :: "'d machine \<Rightarrow> 'd \<Rightarrow> u32 option \<times> 'd" where
  "plic_claim E d = (let (irq, d) = plic_read32 E CLAIM d in if irq = 0 then (None, d) else (Some irq, d))"

definition plic_complete :: "'d machine \<Rightarrow> u32 \<Rightarrow> 'd \<Rightarrow> 'd" where
  "plic_complete E irq d = plic_write32 E CLAIM irq d"

section \<open>SBI\<close>

definition sbi_is_ok :: "sbi_ret \<Rightarrow> bool" where
  "sbi_is_ok r \<longleftrightarrow> sbi_error r = 0"

definition error_name :: "int \<Rightarrow> string" where
  "error_name e =
     (if e = 0 then ''success'' else if e = -1 then ''failed'' else if e = -2 then ''not supported''
      else if e = -3 then ''invalid parameter'' else if e = -4 then ''denied''
      else if e = -5 then ''invalid address'' else if e = -6 then ''already available''
      else if e = -7 then ''already started'' else if e = -8 then ''already stopped''
      else if e = -9 then ''no shared memory'' else ''unknown error'')"

definition EID_BASE :: usize where "EID_BASE = 0x10"
definition EID_TIME :: usize where "EID_TIME = 0x54494D45"
definition EID_SRST :: usize where "EID_SRST = 0x53525354"

definition sbi_call :: "'d machine \<Rightarrow> usize \<Rightarrow> usize \<Rightarrow> usize \<Rightarrow> usize \<Rightarrow> 'd \<Rightarrow> sbi_ret \<times> 'd" where
  "sbi_call E eid fid arg0 arg1 d = firmware E eid fid arg0 arg1 d"

definition spec_version :: "'d machine \<Rightarrow> 'd \<Rightarrow> (usize \<times> usize) \<times> 'd" where
  "spec_version E d =
     (let (ret, d) = sbi_call E EID_BASE 0 0 0 d in
      ((ushr (sbi_value ret) 24 AND 0x7f, sbi_value ret AND 0xffffff), d))"

definition impl_id :: "'d machine \<Rightarrow> 'd \<Rightarrow> usize \<times> 'd" where
  "impl_id E d = (let (ret, d) = sbi_call E EID_BASE 1 0 0 d in (sbi_value ret, d))"

definition impl_version :: "'d machine \<Rightarrow> 'd \<Rightarrow> usize \<times> 'd" where
  "impl_version E d = (let (ret, d) = sbi_call E EID_BASE 2 0 0 d in (sbi_value ret, d))"

definition impl_name :: "usize \<Rightarrow> string" where
  "impl_name i =
     (if i = 0 then ''BBL'' else if i = 1 then ''OpenSBI'' else if i = 2 then ''Xvisor''
      else if i = 3 then ''KVM'' else if i = 4 then ''RustSBI'' else if i = 5 then ''Diosix''
      else if i = 6 then ''Coffer'' else if i = 7 then ''Xen'' else ''unknown SBI implementation'')"

definition probe_extension :: "'d machine \<Rightarrow> usize \<Rightarrow> 'd \<Rightarrow> bool \<times> 'd" where
  "probe_extension E eid d =
     (let (ret, d) = sbi_call E EID_BASE 3 eid 0 d in (sbi_is_ok ret \<and> sbi_value ret \<noteq> 0, d))"

definition probe_time :: "'d machine \<Rightarrow> 'd \<Rightarrow> bool \<times> 'd" where
  "probe_time E d = probe_extension E EID_TIME d"

definition probe_srst :: "'d machine \<Rightarrow> 'd \<Rightarrow> bool \<times> 'd" where
  "probe_srst E d = probe_extension E EID_SRST d"

definition set_timer :: "'d machine \<Rightarrow> usize \<Rightarrow> 'd \<Rightarrow> 'd" where
  "set_timer E tm d = snd (sbi_call E EID_TIME 0 tm 0 d)"

definition RESET_TYPE_SHUTDOWN :: usize where "RESET_TYPE_SHUTDOWN = 0"
definition RESET_TYPE_COLD_REBOOT :: usize where "RESET_TYPE_COLD_REBOOT = 1"
definition RESET_REASON_NONE :: usize where "RESET_REASON_NONE = 0"

definition system_reset :: "'d machine \<Rightarrow> usize \<Rightarrow> usize \<Rightarrow> 'd \<Rightarrow> sbi_ret \<times> 'd" where
  "system_reset E reset_type reason d = sbi_call E EID_SRST 0 reset_type reason d"

section \<open>Timer and power\<close>

definition TICK_CHAN :: usize where "TICK_CHAN = 0x711cc4a7"
definition TIMEBASE_FREQ :: usize where "TIMEBASE_FREQ = 10000000"
definition TICK_HZ :: usize where "TICK_HZ = 100"
definition TICK_INTERVAL :: usize where "TICK_INTERVAL = TIMEBASE_FREQ div TICK_HZ"

text \<open>Arming the next tick, which \<open>timer::init\<close> and \<open>timer::on_tick\<close> share.\<close>

definition arm_tick :: "'d machine \<Rightarrow> 'd \<Rightarrow> 'd result" where
  "arm_tick E d =
     (let (t, d) = rdtime E d in bindR (uadd t TICK_INTERVAL) (\<lambda>tm. Ok (set_timer E tm d)))"

definition timer_init :: "'d machine \<Rightarrow> 'd \<Rightarrow> 'd result" where
  "timer_init E d =
     (let (ok, d) = probe_time E d in
      bindR (assertR ok ''firmware lacks the SBI TIME extension'') (\<lambda>_. arm_tick E d))"

definition uptime_ms :: "'d machine \<Rightarrow> 'd \<Rightarrow> usize \<times> 'd" where
  "uptime_ms E d = (let (t, d) = rdtime E d in (t div (TIMEBASE_FREQ div 1000), d))"

text \<open>
  \<open>power::reset\<close> up to the loop that parks the hart: the lines it printed and the devices.  A reset
  the firmware grants is a firmware call that does not come back; the last line is what the kernel
  prints when the call does come back.
\<close>

definition power_reset :: "'d machine \<Rightarrow> usize \<Rightarrow> string \<Rightarrow> 'd \<Rightarrow> string list \<times> 'd" where
  "power_reset E reset_type verb d =
     (let (ok, d) = probe_srst E d in
      if ok
      then let (ret, d) = system_reset E reset_type RESET_REASON_NONE d in
           ([''power: '' @ verb, ''power: firmware refused system reset: '' @ error_name (sbi_error ret)], d)
      else ([''power: '' @ verb, ''power: firmware lacks the SBI SRST extension''], d))"

definition poweroff :: "'d machine \<Rightarrow> 'd \<Rightarrow> string list \<times> 'd" where
  "poweroff E d = power_reset E RESET_TYPE_SHUTDOWN ''goodbye'' d"

definition reboot :: "'d machine \<Rightarrow> 'd \<Rightarrow> string list \<times> 'd" where
  "reboot E d = power_reset E RESET_TYPE_COLD_REBOOT ''rebooting'' d"


section \<open>The device loops\<close>

text \<open>
  What a 16550 promises, over two views of its state: the bytes sent so far and the bytes waiting
  to be read.  \<open>tx_ok\<close>: polling the line status sends nothing and a busy transmitter gets closer to
  idle; a write to the holding register sends the byte.  \<open>rx_ok\<close>: the status shows whether a byte
  waits, and reading the buffer takes the oldest one.
\<close>

definition tx_ok :: "'d machine \<Rightarrow> ('d \<Rightarrow> u8 list) \<Rightarrow> ('d \<Rightarrow> nat) \<Rightarrow> bool" where
  "tx_ok E tx busy \<longleftrightarrow>
     (\<forall>d. tx (snd (reg_read E LSR d)) = tx d \<and>
          (fst (reg_read E LSR d) AND LSR_TX_IDLE = 0 \<longrightarrow> busy (snd (reg_read E LSR d)) < busy d)) \<and>
     (\<forall>d b. tx (reg_write E THR b d) = tx d @ [b])"

definition rx_ok :: "'d machine \<Rightarrow> ('d \<Rightarrow> u8 list) \<Rightarrow> bool" where
  "rx_ok E rx \<longleftrightarrow>
     (\<forall>d. rx (snd (reg_read E LSR d)) = rx d \<and>
          (fst (reg_read E LSR d) AND LSR_RX_READY \<noteq> 0 \<longleftrightarrow> rx d \<noteq> [])) \<and>
     (\<forall>d. rx d \<noteq> [] \<longrightarrow> fst (reg_read E RBR d) = hd (rx d) \<and> rx (snd (reg_read E RBR d)) = tl (rx d))"

lemma uart_put_sends:
  assumes tx: "tx_ok E tx busy"
  shows "\<exists>d'. uart_put E b d = Some d' \<and> tx d' = tx d @ [b]"
proof (induction "busy d" arbitrary: d rule: less_induct)
  case less
  obtain l d1 where r: "reg_read E LSR d = (l, d1)" by fastforce
  have t1: "tx d1 = tx d" using tx r unfolding tx_ok_def by (metis snd_conv)
  show ?case
  proof (cases "l AND LSR_TX_IDLE = 0")
    case True
    then have "busy d1 < busy d" using tx r unfolding tx_ok_def by (metis fst_conv snd_conv)
    from less [OF this] obtain d' where "uart_put E b d1 = Some d'" "tx d' = tx d1 @ [b]" by blast
    then show ?thesis using True t1 r by (subst uart_put.simps) simp
  next
    case False
    then show ?thesis using tx t1 r unfolding tx_ok_def by (subst uart_put.simps) simp
  qed
qed

lemma uart_get_rx:
  assumes rx: "rx_ok E rx"
  shows "case uart_get E d of (b, d') \<Rightarrow>
    (case rx d of [] \<Rightarrow> b = None \<and> rx d' = [] | x # xs \<Rightarrow> b = Some x \<and> rx d' = xs)"
proof -
  obtain l d1 where r: "reg_read E LSR d = (l, d1)" by fastforce
  have 1: "rx d1 = rx d" "l AND LSR_RX_READY \<noteq> 0 \<longleftrightarrow> rx d \<noteq> []"
    using rx r unfolding rx_ok_def by (metis fst_conv snd_conv)+
  obtain b d2 where r2: "reg_read E RBR d1 = (b, d2)" by fastforce
  have 2: "rx d1 \<noteq> [] \<longrightarrow> b = hd (rx d1) \<and> rx d2 = tl (rx d1)"
    using rx r2 unfolding rx_ok_def by (metis fst_conv snd_conv)
  show ?thesis using 1 2 r r2 by (cases "rx d") (simp_all add: uart_get_def)
qed

text \<open>Feeding bytes to a handler that may panic, and the interrupt handler as that fold.\<close>

fun foldR :: "('b \<Rightarrow> 's \<Rightarrow> 's result) \<Rightarrow> 'b list \<Rightarrow> 's \<Rightarrow> 's result" where
  "foldR f [] s = Ok s"
| "foldR f (b # bs) s = bindR (f b s) (foldR f bs)"

lemma uart_handle_interrupt_fold:
  assumes rx: "rx_ok E rx"
  shows "foldR f (rx d) s = Ok s' \<Longrightarrow> \<exists>d'. uart_handle_interrupt E f d s = Some (Ok (d', s')) \<and> rx d' = []"
proof (induction "rx d" arbitrary: d s)
  case Nil
  then show ?case using uart_get_rx [OF rx, of d]
    by (subst uart_handle_interrupt.simps) (auto split: prod.splits)
next
  case (Cons b bs)
  obtain s1 where s1: "f b s = Ok s1" "foldR f bs s1 = Ok s'"
    using Cons.prems Cons.hyps(2) [symmetric] by (cases "f b s") auto
  obtain d1 where d1: "uart_get E d = (Some b, d1)" "bs = rx d1"
    using uart_get_rx [OF rx, of d] Cons.hyps(2) [symmetric] by (auto split: prod.splits)
  from Cons.hyps(1) [OF d1(2)] s1(2) d1(2) obtain d' where
    "uart_handle_interrupt E f d1 s1 = Some (Ok (d', s'))" "rx d' = []" by auto
  then show ?case using s1(1) d1(1) by (subst uart_handle_interrupt.simps) simp
qed

lemma foldR_ring:
  "foldR (\<lambda>b. ring_put (g b)) bs q = ring.put_all (map g bs) q"
  by (induction bs arbitrary: q) (auto intro: bindR_cong)

section \<open>A device to run the drivers on\<close>

text \<open>
  A 16550 with a transmitter that needs a number of polls after each byte, an interrupt controller
  with one register file, firmware that accepts every call, and a clock.
\<close>

record board =
  tx_log :: "u8 list"
  rx_fifo :: "u8 list"
  tx_busy :: nat
  words :: "usize \<Rightarrow> u32"
  timer_at :: usize
  clock :: usize

definition board_machine :: "board machine" where
  "board_machine = \<lparr>
     mmio_r8 = (\<lambda>a d.
       if a = UART0 + LSR
       then ((if tx_busy d = 0 then LSR_TX_IDLE else 0) OR (if rx_fifo d = [] then 0 else LSR_RX_READY),
             d\<lparr>tx_busy := tx_busy d - 1\<rparr>)
       else case rx_fifo d of [] \<Rightarrow> (0, d) | b # bs \<Rightarrow> (b, d\<lparr>rx_fifo := bs\<rparr>)),
     mmio_w8 = (\<lambda>a b d. if a = UART0 + THR then d\<lparr>tx_log := tx_log d @ [b], tx_busy := 3\<rparr> else d),
     mmio_r32 = (\<lambda>a d. (words d a, d)),
     mmio_w32 = (\<lambda>a v d. d\<lparr>words := (words d)(a := v)\<rparr>),
     firmware = (\<lambda>eid fid a0 a1 d. (\<lparr>sbi_error = 0, sbi_value = 1\<rparr>, if eid = EID_TIME then d\<lparr>timer_at := a0\<rparr> else d)),
     rdtime = (\<lambda>d. (clock d, d\<lparr>clock := clock d + 1\<rparr>)) \<rparr>"

definition board_off :: board where
  "board_off = \<lparr>tx_log = [], rx_fifo = [], tx_busy = 2, words = (\<lambda>_. 0), timer_at = 0, clock = 0\<rparr>"

lemma board_tx_ok: "tx_ok board_machine tx_log tx_busy"
  by (auto simp: tx_ok_def board_machine_def reg_read_def reg_write_def LSR_def THR_def LSR_TX_IDLE_def
      LSR_RX_READY_def)

lemma board_rx_ok: "rx_ok board_machine rx_fifo"
  by (auto simp: rx_ok_def board_machine_def reg_read_def reg_write_def LSR_def RBR_def LSR_TX_IDLE_def
      LSR_RX_READY_def neq_Nil_conv)

section \<open>Properties\<close>



text \<open>
  Console input.  On a receiver that reports and hands out its waiting bytes in order, the
  UART interrupt handler returns with the receiver empty, and the bytes, with carriage returns
  turned into newlines, have gone to the input ring in order, as far as the ring has room.
\<close>

theorem uart_input_correct:
  assumes "rx_ok E rx" and "ring_inv q" and "length (rx d) \<le> usize_max - in_w q"
  shows "\<exists>d' q'. uart_handle_interrupt E (\<lambda>b. ring_put (normalize_input b)) d q = Some (Ok (d', q')) \<and>
     rx d' = [] \<and> ring_inv q' \<and>
     ring_content q' = take INPUT_CAP (ring_content q @ map normalize_input (rx d))"
proof -
  have "length (map normalize_input (rx d)) \<le> usize_max - in_w q" using assms(3) by simp
  from ring.put_all_ok [OF assms(2) this] obtain q' where
    q': "ring.put_all (map normalize_input (rx d)) q = Ok q'" "ring_inv q'"
    "ring_content q' = take INPUT_CAP (ring_content q @ map normalize_input (rx d))" by blast
  from uart_handle_interrupt_fold [OF assms(1), of "\<lambda>b. ring_put (normalize_input b)" d q q'] q'
  show ?thesis by (auto simp: foldR_ring)
qed

theorem uart_input_correct_witness:
  "\<exists>d' q'. uart_handle_interrupt board_machine (\<lambda>b. ring_put (normalize_input b))
        (board_off\<lparr>rx_fifo := [108, 115, CR]\<rparr>) input_new = Some (Ok (d', q')) \<and>
     ring_content q' = [108, 115, 10]"
proof -
  have "ring_inv input_new" "length (rx_fifo (board_off\<lparr>rx_fifo := [108, 115, CR]\<rparr>)) \<le> usize_max - in_w input_new"
    by (simp_all add: ring_inv_def input_new_def usize_max_eq)
  from uart_input_correct [OF board_rx_ok this] show ?thesis
    by (auto simp: INPUT_CAP_def ring_content_def input_new_def normalize_input_def CR_def NL_def)
qed

end
