(* ===== verification/Fs.thy ===== *)
theory Fs
  imports Bytes
begin

text \<open>
  \<open>src/src/fs.rs\<close>: the read-only in-memory filesystem.  The state is the vector of files; the spin
  lock around it only brackets the operations.
\<close>

record fs_file =
  file_name :: "u8 list"
  file_data :: "u8 list"

type_synonym fs = "fs_file list"

definition fs_new :: fs where "fs_new = []"

definition fs_init :: "fs \<Rightarrow> fs" where
  "fs_init fs =
     (let fs = fs @ [\<lparr>file_name = bytes_of ''motd'',
                      file_data = bytes_of ''welcome to osmium -- a RISC-V kernel in Rust'' @ [NL]\<rparr>];
          fs = fs @ [\<lparr>file_name = bytes_of ''readme'',
                      file_data = bytes_of ''osmium ramfs'' @ [NL] @ bytes_of ''------------'' @ [NL] @
                        bytes_of ''a flat, read-only, in-memory filesystem.'' @ [NL] @
                        bytes_of ''try: ls, cat motd, cat readme'' @ [NL]\<rparr>] in
      fs @ [\<lparr>file_name = bytes_of ''cpuinfo'',
             file_data = bytes_of ''isa: rv64gc'' @ [NL] @ bytes_of ''harts: 1'' @ [NL] @
               bytes_of ''machine: qemu-virt'' @ [NL]\<rparr>])"

definition fs_list :: "fs \<Rightarrow> (u8 list \<times> usize) list" where
  "fs_list fs = map (\<lambda>f. (file_name f, length (file_data f))) fs"

definition fs_lookup :: "u8 list \<Rightarrow> fs \<Rightarrow> nat option" where
  "fs_lookup name fs = position (\<lambda>f. file_name f = name) fs"

text \<open>The buffer after the copy, and the number of bytes copied.\<close>

definition read_at :: "nat \<Rightarrow> usize \<Rightarrow> u8 list \<Rightarrow> fs \<Rightarrow> u8 list \<times> usize" where
  "read_at idx off buf fs =
     (case get_at fs idx of
        None \<Rightarrow> (buf, 0)
      | Some file \<Rightarrow>
          if length (file_data file) \<le> off then (buf, 0)
          else let n = min (length buf) (length (file_data file) - off) in
            (take n (drop off (file_data file)) @ drop n buf, n))"

lemma read_at_file:
  assumes "get_at fs idx = Some file"
  shows "snd (read_at idx off buf fs) = min (length buf) (length (file_data file) - off)"
    and "take (snd (read_at idx off buf fs)) (fst (read_at idx off buf fs)) =
         take (length buf) (drop off (file_data file))"
    and "drop (snd (read_at idx off buf fs)) (fst (read_at idx off buf fs)) =
         drop (snd (read_at idx off buf fs)) buf"
    and "length (fst (read_at idx off buf fs)) = length buf"
  using assms by (auto simp: read_at_def Let_def min_def)

section \<open>Properties\<close>


text \<open>
  The files of the booted system: each of the three names is found, its index leads to its
  contents, no other name is found.
\<close>

theorem fs_init_lookup:
  "fs_lookup name (fs_init fs_new) =
     (if name = bytes_of ''motd'' then Some 0 else if name = bytes_of ''readme'' then Some 1
      else if name = bytes_of ''cpuinfo'' then Some 2 else None) \<and>
   list_all (\<lambda>f. ascii (file_data f)) (fs_init fs_new) \<and>
   take 8 (file_data (fs_init fs_new ! 0)) = bytes_of ''welcome ''"
  by (auto simp: fs_lookup_def fs_init_def fs_new_def Let_def ascii_def bytes_of_def in_range_def NL_def)

end
