(* ===== verification/Kernel.thy ===== *)
theory Kernel
  imports Proc Machine Fs
begin

text \<open>
  The state of the whole kernel: the scheduler's (\<open>Proc\<close>) extended with the console, the file
  system, the tick counter and the devices, and the operations that need more than one component:
  the blocking parts of \<open>console.rs\<close> and \<open>timer.rs\<close>, and \<open>user.rs\<close>' table of programs.  The console's
  output is the list of bytes handed to the transmitter (\<open>write_str_correct\<close> says the UART sends
  exactly these).  The clock and the devices go through the parameter \<open>E\<close> of \<open>Machine\<close>.
\<close>

record 'd kernel = sched +
  input :: input
  input_at :: usize
  files :: fs
  ticks :: usize
  console :: "u8 list"
  dev :: 'd

section \<open>Console\<close>

definition kprint :: "u8 list \<Rightarrow> ('d, 'z) kernel_scheme \<Rightarrow> ('d, 'z) kernel_scheme" where
  "kprint bs s = s\<lparr>console := console s @ crlf bs\<rparr>"

definition kprintln :: "string \<Rightarrow> ('d, 'z) kernel_scheme \<Rightarrow> ('d, 'z) kernel_scheme" where
  "kprintln msg s = kprint (bytes_of msg @ [NL]) s"

text \<open>Formatting of a \<open>usize\<close> by \<open>{}\<close> and \<open>{:#x}\<close>.\<close>

definition digit :: "nat \<Rightarrow> char" where
  "digit n = char_of (if n < 10 then n + 48 else n + 87)"

fun radix :: "nat \<Rightarrow> nat \<Rightarrow> string" where
  "radix b n = (if b < 2 \<or> n < b then [digit n] else radix b (n div b) @ [digit (n mod b)])"

declare radix.simps [simp del]

definition dec :: "nat \<Rightarrow> string" where "dec n = radix 10 n"
definition hex :: "nat \<Rightarrow> string" where "hex n = ''0x'' @ radix 16 n"

definition on_input :: "u8 \<Rightarrow> ('d, 'z) kernel_scheme \<Rightarrow> ('d, 'z) kernel_scheme result" where
  "on_input byte s =
     bindR (ring_put (normalize_input byte) (input s)) (\<lambda>q.
     wakeup (input_at s) (s\<lparr>input := q\<rparr>))"

definition getchar :: "('d, 'z) kernel_scheme \<Rightarrow> (u8 option \<times> ('d, 'z) kernel_scheme) result" where
  "getchar s = bindR (ring_get (input s)) (\<lambda>(b, q). Ok (b, s\<lparr>input := q\<rparr>))"

definition input_chan :: "('d, 'z) kernel_scheme \<Rightarrow> usize" where
  "input_chan s = input_at s"

text \<open>One turn of the loop of \<open>getchar_blocking\<close>, and what the thread does when it is resumed in it.\<close>

definition getchar_blocking :: "('d, 'z) kernel_scheme \<Rightarrow> ((u8, kont) outcome \<times> ('d, 'z) kernel_scheme) result" where
  "getchar_blocking s =
     (let s = push_off s in
      bindR (getchar s) (\<lambda>(b, s).
      case b of
        Some byte \<Rightarrow> bindR (pop_off s) (\<lambda>s. Ok (Return byte, s))
      | None \<Rightarrow> bindR (sleep (input_chan s) s) (\<lambda>s. Ok (Switch K_getchar, s))))"

definition getchar_back :: "bool \<Rightarrow> ('d, 'z) kernel_scheme \<Rightarrow> ((u8, kont) outcome \<times> ('d, 'z) kernel_scheme) result" where
  "getchar_back ie s = bindR (pop_off (sched_back ie s)) getchar_blocking"

section \<open>Timer\<close>

definition on_tick :: "'d machine \<Rightarrow> ('d, 'z) kernel_scheme \<Rightarrow> ('d, 'z) kernel_scheme result" where
  "on_tick E s =
     (let s = s\<lparr>ticks := wrapping_add (ticks s) 1\<rparr> in
      bindR (arm_tick E (dev s)) (\<lambda>d. Ok (s\<lparr>dev := d\<rparr>)))"

text \<open>
  One turn of the loop of \<open>sleep_ticks\<close>.  The loop tests the deadline before and after \<open>push_off\<close>;
  nothing runs between the two tests here, so the second one is the first.
\<close>

definition sleep_turn :: "usize \<Rightarrow> ('d, 'z) kernel_scheme \<Rightarrow> ((unit, kont) outcome \<times> ('d, 'z) kernel_scheme) result" where
  "sleep_turn target s =
     (if ticks s < target
      then bindR (sleep TICK_CHAN (push_off s)) (\<lambda>s. Ok (Switch (K_ticks target), s))
      else Ok (Return (), s))"

definition sleep_ticks :: "usize \<Rightarrow> ('d, 'z) kernel_scheme \<Rightarrow> ((unit, kont) outcome \<times> ('d, 'z) kernel_scheme) result" where
  "sleep_ticks n s = bindR (uadd (ticks s) n) (\<lambda>target. sleep_turn target s)"

definition sleep_back :: "usize \<Rightarrow> bool \<Rightarrow> ('d, 'z) kernel_scheme \<Rightarrow> ((unit, kont) outcome \<times> ('d, 'z) kernel_scheme) result" where
  "sleep_back target ie s = bindR (pop_off (sched_back ie s)) (sleep_turn target)"

section \<open>Programs\<close>

text \<open>The linked programs of \<open>src/src/user.rs\<close>, with the addresses of their first byte and end as a
  parameter, and the names \<open>exec\<close> knows.\<close>

datatype program = Greeter | Trespasser | Badsys | Uname | Echoline | Catfile | Heapgrow | Forker | Forkexec | Ush

type_synonym images = "program \<Rightarrow> usize \<times> usize"

definition image :: "images \<Rightarrow> program \<Rightarrow> (usize \<times> usize) result" where
  "image P x = (let (s, e) = P x in bindR (usub e s) (\<lambda>n. Ok (s, n)))"

definition program_of :: "u8 list \<Rightarrow> program option" where
  "program_of name =
     (if name = bytes_of ''greeter'' then Some Greeter
      else if name = bytes_of ''uname'' then Some Uname
      else if name = bytes_of ''heapgrow'' then Some Heapgrow
      else if name = bytes_of ''forker'' then Some Forker
      else if name = bytes_of ''catfile'' then Some Catfile
      else None)"

definition lookup :: "images \<Rightarrow> u8 list \<Rightarrow> (usize \<times> usize) option result" where
  "lookup P name =
     (case program_of name of
        Some x \<Rightarrow> bindR (image P x) (\<lambda>prog. Ok (Some prog))
      | None \<Rightarrow> Ok None)"

end
