(* ===== verification/Syscall.thy ===== *)
theory Syscall
  imports Kernel
begin

text \<open>
  \<open>src/src/syscall.rs\<close>: the kernel side of \<open>ecall\<close>.  Loads and stores at user addresses go through the
  hart's translation (\<open>mmu_load\<close>, \<open>mmu_store\<close>: the table in \<open>satp\<close>, the entry's permissions and
  \<open>sstatus.SUM\<close>); a fault in S-mode is the panic of \<open>kerneltrap\<close>.  A syscall that blocks returns
  \<open>Blocked k frame\<close> and is continued by \<open>resume\<close> when the scheduler switches back to the process.
\<close>

definition SYS_WRITE :: usize where "SYS_WRITE = 1"
definition SYS_EXIT :: usize where "SYS_EXIT = 2"
definition SYS_YIELD :: usize where "SYS_YIELD = 3"
definition SYS_GETPID :: usize where "SYS_GETPID = 4"
definition SYS_SLEEP_MS :: usize where "SYS_SLEEP_MS = 5"
definition SYS_READ :: usize where "SYS_READ = 6"
definition SYS_UNAME :: usize where "SYS_UNAME = 7"
definition SYS_OPEN :: usize where "SYS_OPEN = 8"
definition SYS_FREAD :: usize where "SYS_FREAD = 9"
definition SYS_CLOSE :: usize where "SYS_CLOSE = 10"
definition SYS_SBRK :: usize where "SYS_SBRK = 11"
definition SYS_FORK :: usize where "SYS_FORK = 12"
definition SYS_WAIT :: usize where "SYS_WAIT = 13"
definition SYS_EXEC :: usize where "SYS_EXEC = 14"

definition PATH_MAX :: usize where "PATH_MAX = 64"
definition WRITE_MAX :: usize where "WRITE_MAX = 1024"
definition UNAME :: "u8 list" where "UNAME = bytes_of ''osmium 0.1.0 riscv64'' @ [NL]"
definition ERR :: usize where "ERR = usize_max"

section \<open>Access to user memory\<close>

definition satp_root :: "csrs \<Rightarrow> usize" where
  "satp_root c = ushl (satp c AND (2 ^ 44 - 1)) 12"

text \<open>The physical address an S-mode access with the given permission bit reaches, if it does not fault.
  Before paging is on, \<open>satp\<close> is 0 and the address is the physical one.\<close>

definition mmu :: "usize \<Rightarrow> csrs \<Rightarrow> phys \<Rightarrow> usize \<Rightarrow> usize option" where
  "mmu need c m va =
     (if satp c = 0 then Some va
      else case translate (satp_root c) va m of
        Ok (Some (pa, pte)) \<Rightarrow>
          if pte AND need \<noteq> 0 \<and> (pte AND PTE_U \<noteq> 0 \<longrightarrow> sstatus c AND SSTATUS_SUM \<noteq> 0)
          then Some pa else None
      | _ \<Rightarrow> None)"

definition mmu_load :: "csrs \<Rightarrow> phys \<Rightarrow> usize \<Rightarrow> u8 result" where
  "mmu_load c m va = bindR (expectR (mmu PTE_R c m va) ''unhandled exception: load page fault'') (\<lambda>pa. Ok (mem m pa))"

definition mmu_store :: "csrs \<Rightarrow> usize \<Rightarrow> u8 \<Rightarrow> phys \<Rightarrow> phys result" where
  "mmu_store c va b m =
     bindR (expectR (mmu PTE_W c m va) ''unhandled exception: store/AMO page fault'') (\<lambda>pa.
     Ok (m\<lparr>mem := (mem m)(pa := b)\<rparr>))"

fun load_bytes :: "usize \<Rightarrow> nat list \<Rightarrow> csrs \<Rightarrow> phys \<Rightarrow> u8 list result" where
  "load_bytes ptr [] c m = Ok []"
| "load_bytes ptr (i # is) c m =
     bindR (uadd ptr i) (\<lambda>va.
     bindR (mmu_load c m va) (\<lambda>b.
     bindR (load_bytes ptr is c m) (\<lambda>bs. Ok (b # bs))))"

fun store_bytes :: "usize \<Rightarrow> nat \<Rightarrow> u8 list \<Rightarrow> csrs \<Rightarrow> phys \<Rightarrow> phys result" where
  "store_bytes ptr i [] c m = Ok m"
| "store_bytes ptr i (b # bs) c m =
     bindR (uadd ptr i) (\<lambda>va.
     bindR (mmu_store c va b m) (\<lambda>m.
     store_bytes ptr (Suc i) bs c m))"

text \<open>The loop over the pages of the range: each is mapped with all the bits of the list.\<close>

function check_pages :: "usize list \<Rightarrow> usize \<Rightarrow> usize \<Rightarrow> usize \<Rightarrow> phys \<Rightarrow> bool result" where
  "check_pages need root page stop m =
     (if page < stop
      then case translate root page m of
             Panic e \<Rightarrow> Panic e
           | Ok None \<Rightarrow> Ok False
           | Ok (Some (_, pte)) \<Rightarrow>
               if list_ex (\<lambda>b. pte AND b = 0) need then Ok False
               else (case uadd page PAGE_SIZE of
                       Panic e \<Rightarrow> Panic e
                     | Ok page \<Rightarrow> check_pages need root page stop m)
      else Ok True)"
  by pat_completeness auto
termination
  by (relation "measure (\<lambda>(need, root, page, stop, m). stop - page)")
     (auto simp: uadd_def PAGE_SIZE_def split: if_splits)

declare check_pages.simps [simp del]

definition copy_from_user :: "usize \<Rightarrow> usize \<Rightarrow> ('d, 'z) kernel_scheme \<Rightarrow>
    (u8 list option \<times> ('d, 'z) kernel_scheme) result" where
  "copy_from_user ptr len s =
     (case checked_add ptr len of
        None \<Rightarrow> Ok (None, s)
      | Some stop \<Rightarrow>
          if stop > VA_MAX then Ok (None, s)
          else
            bindR (current_root s) (\<lambda>(root, s).
            bindR (check_pages [PTE_U] root (ptr AND unot (PAGE_SIZE - 1)) stop (ram s)) (\<lambda>ok.
            if \<not> ok then Ok (None, s)
            else
              bindR (with_sum (\<lambda>c. bindR (load_bytes ptr [0..<len] c (ram s)) (\<lambda>bs. Ok (bs, c))) (csr s))
                (\<lambda>(bs, c). Ok (Some bs, s\<lparr>csr := c\<rparr>)))))"

definition copy_to_user :: "usize \<Rightarrow> u8 list \<Rightarrow> ('d, 'z) kernel_scheme \<Rightarrow>
    (usize option \<times> ('d, 'z) kernel_scheme) result" where
  "copy_to_user ptr src s =
     (case checked_add ptr (length src) of
        None \<Rightarrow> Ok (None, s)
      | Some stop \<Rightarrow>
          if stop > VA_MAX then Ok (None, s)
          else
            bindR (current_root s) (\<lambda>(root, s).
            bindR (check_pages [PTE_U, PTE_W] root (ptr AND unot (PAGE_SIZE - 1)) stop (ram s)) (\<lambda>ok.
            if \<not> ok then Ok (None, s)
            else
              bindR (with_sum (\<lambda>c. bindR (store_bytes ptr 0 src c (ram s)) (\<lambda>m. Ok (m, c))) (csr s))
                (\<lambda>(m, c). Ok (Some (length src), s\<lparr>csr := c, ram := m\<rparr>)))))"

section \<open>The syscalls\<close>

definition sys_write :: "usize \<Rightarrow> usize \<Rightarrow> ('d, 'z) kernel_scheme \<Rightarrow> (usize \<times> ('d, 'z) kernel_scheme) result" where
  "sys_write ptr len s =
     (if len > WRITE_MAX then Ok (ERR, s)
      else
        bindR (copy_from_user ptr len s) (\<lambda>(bytes, s).
        case bytes of
          None \<Rightarrow> Ok (ERR, s)
        | Some bytes \<Rightarrow>
            (case from_utf8 bytes of
               Some str \<Rightarrow> Ok (len, kprint str s)
             | None \<Rightarrow> Ok (ERR, s))))"

text \<open>The loop of \<open>sys_read\<close> that takes what is already buffered; the first argument is \<open>cap - buf.len()\<close>.\<close>

fun drain :: "nat \<Rightarrow> u8 list \<Rightarrow> ('d, 'z) kernel_scheme \<Rightarrow> (u8 list \<times> ('d, 'z) kernel_scheme) result" where
  "drain 0 buf s = Ok (buf, s)"
| "drain (Suc n) buf s =
     bindR (getchar s) (\<lambda>(b, s).
     case b of
       Some byte \<Rightarrow> drain n (buf @ [byte]) s
     | None \<Rightarrow> Ok (buf, s))"

text \<open>\<open>sys_read\<close> after its blocking \<open>getchar\<close> has returned.\<close>

definition sys_read_rest :: "usize \<Rightarrow> usize \<Rightarrow> u8 \<Rightarrow> ('d, 'z) kernel_scheme \<Rightarrow> (usize \<times> ('d, 'z) kernel_scheme) result" where
  "sys_read_rest ptr len byte s =
     (let cap = min len WRITE_MAX in
      bindR (drain (cap - 1) [byte] s) (\<lambda>(buf, s).
      bindR (copy_to_user ptr buf s) (\<lambda>(r, s).
      Ok (case r of Some n \<Rightarrow> n | None \<Rightarrow> ERR, s))))"

definition sys_read :: "usize \<Rightarrow> usize \<Rightarrow> ('d, 'z) kernel_scheme \<Rightarrow>
    ((usize, kont) outcome \<times> ('d, 'z) kernel_scheme) result" where
  "sys_read ptr len s =
     (if len = 0 then Ok (Return 0, s)
      else
        bindR (getchar_blocking s) (\<lambda>(r, s).
        case r of
          Return byte \<Rightarrow> bindR (sys_read_rest ptr len byte s) (\<lambda>(n, s). Ok (Return n, s))
        | Switch k \<Rightarrow> Ok (Switch k, s)))"

definition sys_uname :: "usize \<Rightarrow> usize \<Rightarrow> ('d, 'z) kernel_scheme \<Rightarrow> (usize \<times> ('d, 'z) kernel_scheme) result" where
  "sys_uname ptr len s =
     (let n = min (length UNAME) len in
      bindR (copy_to_user ptr (take n UNAME) s) (\<lambda>(r, s).
      Ok (case r of Some written \<Rightarrow> written | None \<Rightarrow> ERR, s)))"

text \<open>\<open>sys_exec\<close> returns only an error; a program that is found is launched.\<close>

definition sys_exec :: "layout \<Rightarrow> images \<Rightarrow> usize \<Rightarrow> usize \<Rightarrow> ('d, 'z) kernel_scheme \<Rightarrow>
    ((usize + user_launch) \<times> ('d, 'z) kernel_scheme) result" where
  "sys_exec L P name_ptr name_len s =
     (if name_len = 0 \<or> name_len > PATH_MAX then Ok (Inl ERR, s)
      else
        bindR (copy_from_user name_ptr name_len s) (\<lambda>(bytes, s).
        case Option.bind bytes from_utf8 of
          None \<Rightarrow> Ok (Inl ERR, s)
        | Some name \<Rightarrow>
            bindR (lookup P name) (\<lambda>prog.
            case prog of
              None \<Rightarrow> Ok (Inl ERR, s)
            | Some prog \<Rightarrow> bindR (exec L prog s) (\<lambda>(u, s). Ok (Inr u, s)))))"

definition sys_open :: "usize \<Rightarrow> usize \<Rightarrow> ('d, 'z) kernel_scheme \<Rightarrow> (usize \<times> ('d, 'z) kernel_scheme) result" where
  "sys_open path_ptr path_len s =
     (if path_len = 0 \<or> path_len > PATH_MAX then Ok (ERR, s)
      else
        bindR (copy_from_user path_ptr path_len s) (\<lambda>(bytes, s).
        case Option.bind bytes from_utf8 of
          None \<Rightarrow> Ok (ERR, s)
        | Some name \<Rightarrow>
            (case fs_lookup name (files s) of
               None \<Rightarrow> Ok (ERR, s)
             | Some idx \<Rightarrow>
                 bindR (fd_install idx s) (\<lambda>(r, s).
                 Ok (case r of Some fd \<Rightarrow> fd | None \<Rightarrow> ERR, s)))))"

definition sys_fread :: "usize \<Rightarrow> usize \<Rightarrow> usize \<Rightarrow> ('d, 'z) kernel_scheme \<Rightarrow>
    (usize \<times> ('d, 'z) kernel_scheme) result" where
  "sys_fread fd ptr len s =
     bindR (fd_lookup fd s) (\<lambda>(r, s).
     case r of
       None \<Rightarrow> Ok (ERR, s)
     | Some (idx, off) \<Rightarrow>
         let cap = min len WRITE_MAX in
         if cap = 0 then Ok (0, s)
         else
           let (buf, n) = read_at idx off (replicate cap 0) (files s) in
           bindR (copy_to_user ptr (take n buf) s) (\<lambda>(w, s).
           case w of
             Some written \<Rightarrow> bindR (fd_advance fd written s) (\<lambda>s. Ok (written, s))
           | None \<Rightarrow> Ok (ERR, s)))"

section \<open>Dispatch\<close>

text \<open>How a syscall leaves the kernel: back to the caller with its frame, switched out with the work
  left to do, or into a new program.\<close>

datatype sysout = Sysret trap_frame | Blocked kont trap_frame | Launched user_launch

definition ret0 :: "trap_frame \<Rightarrow> (unit, kont) outcome \<Rightarrow> sysout" where
  "ret0 frame r = (case r of Return _ \<Rightarrow> Sysret (frame\<lparr>tf_a0 := 0\<rparr>) | Switch k \<Rightarrow> Blocked k frame)"

definition retv :: "trap_frame \<Rightarrow> (usize, kont) outcome \<Rightarrow> sysout" where
  "retv frame r = (case r of Return v \<Rightarrow> Sysret (frame\<lparr>tf_a0 := v\<rparr>) | Switch k \<Rightarrow> Blocked k frame)"

abbreviation (input) value_of :: "trap_frame \<Rightarrow> (usize \<times> 's) result \<Rightarrow> (sysout \<times> 's) result" where
  "value_of frame m \<equiv> bindR m (\<lambda>(v, s). Ok (Sysret (frame\<lparr>tf_a0 := v\<rparr>), s))"

definition sleep_ms_ticks :: "usize \<Rightarrow> usize" where
  "sleep_ms_ticks ms = max (div_ceil (saturating_mul ms TICK_HZ) 1000) 1"

definition dispatch :: "layout \<Rightarrow> images \<Rightarrow> usize \<Rightarrow> trap_frame \<Rightarrow> ('d, 'z) kernel_scheme \<Rightarrow>
    (sysout \<times> ('d, 'z) kernel_scheme) result" where
  "dispatch L P stk frame s =
     bindR (uadd (tf_sepc frame) 4) (\<lambda>pc.
     let frame = frame\<lparr>tf_sepc := pc\<rparr>; n = tf_a7 frame in
     if n = SYS_WRITE then value_of frame (sys_write (tf_a0 frame) (tf_a1 frame) s)
     else if n = SYS_EXIT then
       bindR (current_pid s) (\<lambda>(i, s).
       bindR (exit (kprintln (''syscall: pid '' @ dec i @ '' exited with code '' @ dec (tf_a0 frame)) s)) (\<lambda>(r, s).
       Ok (ret0 frame r, s)))
     else if n = SYS_YIELD then bindR (yield_now s) (\<lambda>(r, s). Ok (ret0 frame r, s))
     else if n = SYS_GETPID then value_of frame (current_pid s)
     else if n = SYS_READ then
       bindR (sys_read (tf_a0 frame) (tf_a1 frame) s) (\<lambda>(r, s). Ok (retv frame r, s))
     else if n = SYS_UNAME then value_of frame (sys_uname (tf_a0 frame) (tf_a1 frame) s)
     else if n = SYS_OPEN then value_of frame (sys_open (tf_a0 frame) (tf_a1 frame) s)
     else if n = SYS_FREAD then value_of frame (sys_fread (tf_a0 frame) (tf_a1 frame) (tf_a2 frame) s)
     else if n = SYS_SBRK then value_of frame (sbrk (tf_a0 frame) s)
     else if n = SYS_FORK then value_of frame (fork stk frame s)
     else if n = SYS_WAIT then bindR (join (tf_a0 frame) s) (\<lambda>(r, s). Ok (ret0 frame r, s))
     else if n = SYS_EXEC then
       bindR (sys_exec L P (tf_a0 frame) (tf_a1 frame) s) (\<lambda>(r, s).
       Ok (case r of Inl v \<Rightarrow> Sysret (frame\<lparr>tf_a0 := v\<rparr>) | Inr u \<Rightarrow> Launched u, s))
     else if n = SYS_CLOSE then
       value_of frame (bindR (fd_close (tf_a0 frame) s) (\<lambda>(ok, s). Ok (if ok then 0 else ERR, s)))
     else if n = SYS_SLEEP_MS then
       bindR (sleep_ticks (sleep_ms_ticks (tf_a0 frame)) s) (\<lambda>(r, s). Ok (ret0 frame r, s))
     else
       value_of frame (bindR (current_pid s) (\<lambda>(i, s).
         Ok (ERR, kprintln (''syscall: pid '' @ dec i @ '' made unknown syscall '' @ dec n) s))))"

text \<open>The rest of a blocked syscall, once the scheduler has switched back to the process.  The frame
  is the one on its kernel stack, so its number and arguments are those of the call.\<close>

definition resume :: "kont \<Rightarrow> trap_frame \<Rightarrow> bool \<Rightarrow> ('d, 'z) kernel_scheme \<Rightarrow>
    (sysout \<times> ('d, 'z) kernel_scheme) result" where
  "resume k frame ie s =
     (case k of
        K_yield \<Rightarrow> bindR (yield_back ie s) (\<lambda>s. Ok (ret0 frame (Return ()), s))
      | K_join i \<Rightarrow> bindR (join_back i ie s) (\<lambda>(r, s). Ok (ret0 frame r, s))
      | K_ticks target \<Rightarrow> bindR (sleep_back target ie s) (\<lambda>(r, s). Ok (ret0 frame r, s))
      | K_getchar \<Rightarrow>
          bindR (getchar_back ie s) (\<lambda>(r, s).
          case r of
            Return byte \<Rightarrow> value_of frame (sys_read_rest (tf_a0 frame) (tf_a1 frame) byte s)
          | Switch k \<Rightarrow> Ok (Blocked k frame, s))
      | K_dead \<Rightarrow> bindR (exit_back s) (\<lambda>s. Ok (Blocked K_dead frame, s)))"

end
