(* ===== verification/Round_Robin.thy ===== *)
theory Round_Robin
  imports Sched
begin

text \<open>
  The scheduler's choice: the scan of the slot table in cyclic order, what a turn of the scheduler does,
  the bound on how long a runnable process waits, and the context switch.
\<close>

section \<open>The scan\<close>

lemma scan_eq:
  assumes "0 < length ps" and "\<forall>i\<in>set is. start + i \<le> usize_max"
  shows "scan ps start is = Ok (find (\<lambda>idx. is_runnable (ps ! idx)) (map (\<lambda>i. (start + i) mod length ps) is))"
  using assms(2) by (induction "is") (simp_all add: Let_def slot_at_def mod_less_divisor [OF assms(1)])

lemma find_before:
  assumes "find P (map f [0..<n]) = Some x"
  obtains k where "k < n" "x = f k" "P x" "\<And>i. i < k \<Longrightarrow> \<not> P (f i)"
  using assms by (auto simp: find_Some_iff)

text \<open>How far the scan that starts at \<open>start\<close> is from slot \<open>j\<close> of a table with at most \<open>N\<close> slots.\<close>

definition lag :: "nat \<Rightarrow> nat \<Rightarrow> nat \<Rightarrow> nat" where
  "lag N j start = (if start \<le> j then j - start else j + N - start)"

lemma scan_closer:
  assumes "scan ps start [0..<length ps] = Ok (Some idx)" and "is_runnable (ps ! j)" and "j < length ps"
    and "start \<le> length ps" and "length ps \<le> N" and "idx \<noteq> j" and "length ps + length ps \<le> usize_max"
  shows "lag N j (Suc idx) < lag N j start"
proof -
  let ?n = "length ps"
  have n: "0 < ?n" using assms(3) by linarith
  have "scan ps start [0..<?n] = Ok (find (\<lambda>idx. is_runnable (ps ! idx)) (map (\<lambda>i. (start + i) mod ?n) [0..<?n]))"
    by (rule scan_eq [OF n]) (use assms(4,7) in auto)
  with assms(1) have "find (\<lambda>idx. is_runnable (ps ! idx)) (map (\<lambda>i. (start + i) mod ?n) [0..<?n]) = Some idx" by simp
  then obtain k where k: "k < ?n" "idx = (start + k) mod ?n" "\<And>i. i < k \<Longrightarrow> \<not> is_runnable (ps ! ((start + i) mod ?n))"
    by (rule find_before) blast
  show ?thesis
  proof (cases "start \<le> j")
    case True
    have "k < j - start"
    proof (rule ccontr)
      assume "\<not> k < j - start"
      moreover have "(start + (j - start)) mod ?n = j" using True assms(3) by simp
      ultimately have "k = j - start" using k(3) [of "j - start"] assms(2) by fastforce
      with k(2) assms(6) True assms(3) show False by simp
    qed
    then have "idx = start + k" using k(2) assms(3) by simp
    then show ?thesis using True \<open>k < j - start\<close> unfolding lag_def by auto
  next
    case False
    have "k < ?n - start + j"
    proof (rule ccontr)
      assume "\<not> k < ?n - start + j"
      moreover have "(start + (?n - start + j)) mod ?n = j" using assms(3,4) by simp
      ultimately have "k = ?n - start + j" using k(3) [of "?n - start + j"] assms(2) by fastforce
      with k(2) assms(6) assms(3,4) show False by simp
    qed
    show ?thesis
    proof (cases "start + k < ?n")
      case True
      then show ?thesis using k(2) False assms(4,5) by (auto simp: lag_def)
    next
      case F: False
      then have "idx = start + k - ?n" using k(1,2) assms(4) by (simp add: mod_if)
      then have "idx < j" using \<open>k < ?n - start + j\<close> F assms(4) by linarith
      then show ?thesis using False assms(4,5) n by (auto simp: lag_def)
    qed
  qed
qed

section \<open>Slots that an operation leaves alone\<close>

text \<open>What other threads and the scheduler may do to a process that is neither running nor dead: wake it.\<close>

definition quiet :: "process option \<Rightarrow> process option \<Rightarrow> bool" where
  "quiet x y \<longleftrightarrow> (\<forall>p. x = Some p \<longrightarrow> pstate p \<noteq> Zombie \<longrightarrow>
     (\<exists>st. y = Some (p\<lparr>pstate := st\<rparr>) \<and> (st = pstate p \<or> st = Runnable)))"

lemma quiet_refl [simp]: "quiet x x"
  unfolding quiet_def by (intro allI impI, rule_tac x = "pstate p" in exI) simp

lemma quiet_trans:
  assumes "quiet x y" and "quiet y z"
  shows "quiet x z"
  unfolding quiet_def
proof (intro allI impI)
  fix p assume p: "x = Some p" "pstate p \<noteq> Zombie"
  with assms(1) obtain st where y: "y = Some (p\<lparr>pstate := st\<rparr>)" "st = pstate p \<or> st = Runnable"
    unfolding quiet_def by blast
  moreover have "pstate (p\<lparr>pstate := st\<rparr>) \<noteq> Zombie" using y(2) p(2) by auto
  ultimately obtain st' where "z = Some (p\<lparr>pstate := st, pstate := st'\<rparr>)" "st' = st \<or> st' = Runnable"
    using assms(2) unfolding quiet_def by fastforce
  then show "\<exists>st. z = Some (p\<lparr>pstate := st\<rparr>) \<and> (st = pstate p \<or> st = Runnable)" using y(2) by auto
qed

lemma quiet_wake: "quiet x (map_option (wake chan) x)"
  unfolding quiet_def wake_def
  by (intro allI impI, rule_tac x = "if pstate p = Sleeping chan then Runnable else pstate p" in exI) simp

lemma quiet_drop_zombie: "quiet x (drop_zombie x)"
  unfolding quiet_def drop_zombie_def by (intro allI impI, rule_tac x = "pstate p" in exI) simp

lemma quiet_runnable: "quiet (Some p) y \<Longrightarrow> pstate p = Runnable \<Longrightarrow> y = Some p"
  unfolding quiet_def by (metis process.surjective process.update_convs(3) pstate.distinct(5))

definition calm :: "nat \<Rightarrow> 'a sched_scheme \<Rightarrow> 'a sched_scheme \<Rightarrow> bool" where
  "calm j s s' \<longleftrightarrow> next_slot s' = next_slot s \<and> length (procs s) \<le> length (procs s') \<and>
     quiet (ptab (procs s) j) (ptab (procs s') j)"

lemma calm_trans: "calm j s t \<Longrightarrow> calm j t u \<Longrightarrow> calm j s u"
  unfolding calm_def using quiet_trans by fastforce

lemma calm_refl: "calm j s s"
  by (simp add: calm_def)

lemma calm_pop: "pop_off s = Ok s' \<Longrightarrow> calm j s s'"
  by (auto simp: pop_off_def Let_def result_simps calm_def)

lemma calm_push: "calm j s (push_off s)"
  by (simp add: calm_def)

lemma calm_set: "i \<noteq> j \<Longrightarrow> calm j s (set_proc i p s)"
  by (simp add: calm_def set_proc_def ptab_def)

lemma calm_set_current_state: "set_current_state st i s = Ok s' \<Longrightarrow> i \<noteq> j \<Longrightarrow> calm j s s'"
  by (auto simp: set_current_state_def result_simps intro: calm_set)

lemma calm_sched_out: "sched_out s = Ok s' \<Longrightarrow> current s \<noteq> Some j \<Longrightarrow> calm j s s'"
  by (erule sched_out_eq) (auto simp: calm_def set_proc_def ptab_def)

lemma calm_scheduler_back: "scheduler_back s = Ok s' \<Longrightarrow> calm j s s'"
  using calm_pop [of "s\<lparr>csr := _, current := None\<rparr>" s' j]
  by (auto simp: scheduler_back_def Let_def result_simps calm_def)

lemma calm_wakeup:
  assumes "wakeup chan s = Ok s'"
  shows "calm j s s'"
proof -
  let ?t = "(push_off s)\<lparr>procs := map (map_option (wake chan)) (procs s)\<rparr>"
  from assms have "pop_off ?t = Ok s'" by (simp add: wakeup_def Let_def result_simps)
  from calm_pop [OF this] show ?thesis
    by (rule calm_trans [rotated]) (simp add: calm_def ptab_map quiet_wake)
qed

lemma calm_with_current:
  assumes "irq_idle s" and "with_current f s = Ok (r, s')" and "current s \<noteq> Some j"
  shows "calm j s s'" "current s' = current s"
  using assms(1,2) by (cases rule: with_current_cases; use assms(3) in \<open>auto simp: calm_def set_proc_def ptab_def\<close>)+

lemma calm_spawn:
  assumes "irq_idle s" and "spawn_with stk name e cfg s = Ok (n, s')"
  shows "calm j s s'"
proof -
  from assms(1,2) obtain p where s': "next_slot s' = next_slot s" "procs s' = publish p (procs s)"
    by (rule spawn_with_eq) simp
  obtain k where "ptab (procs s) k = None" "ptab (publish p (procs s)) = (ptab (procs s))(k \<mapsto> p)"
    using ptab_publish by blast
  moreover have "length (procs s) \<le> length (publish p (procs s))" by (simp add: publish_def split: option.splits)
  ultimately show ?thesis using s' by (auto simp: calm_def quiet_def [of None])
qed

lemma calm_sleep:
  assumes "sleep chan (push_off s) = Ok t" and "current s \<noteq> Some j"
  shows "calm j s t"
proof -
  from assms(1) obtain i t1 where t1: "current s = Some i" "set_current_state (Sleeping chan) i (push_off s) = Ok t1"
    "sched_out t1 = Ok t" by (auto simp: sleep_def result_simps)
  then have "current t1 = Some i" by (auto simp: set_current_state_def result_simps set_proc_def)
  with t1 assms(2) show ?thesis
    by (intro calm_trans [OF calm_push calm_trans [OF calm_set_current_state calm_sched_out]]) auto
qed

lemma calm_yield:
  assumes "yield_now s = Ok (Switch k, t)" and "current s \<noteq> Some j"
  shows "calm j s t"
proof -
  from assms(1) obtain i t1 where t1: "current s = Some i" "set_current_state Runnable i (push_off s) = Ok t1"
    "sched_out t1 = Ok t" by (auto simp: yield_now_def Let_def result_simps split: option.splits)
  then have "current t1 = Some i" by (auto simp: set_current_state_def result_simps set_proc_def)
  with t1 assms(2) show ?thesis
    by (intro calm_trans [OF calm_push calm_trans [OF calm_set_current_state calm_sched_out]]) auto
qed

lemma calm_exit:
  assumes "exit s = Ok (r, t)" and "current s \<noteq> Some j"
  shows "calm j s t"
proof -
  from assms(1) obtain i t1 t2 where t: "current s = Some i" "set_current_state Zombie i (push_off s) = Ok t1"
    "wakeup EXIT_CHAN t1 = Ok t2" "sched_out t2 = Ok t" by (auto simp: exit_def Let_def result_simps)
  have 1: "calm j s t1" using t(1) assms(2) by (intro calm_trans [OF calm_push calm_set_current_state [OF t(2)]]) auto
  note 2 = calm_wakeup [OF t(3), of j]
  have "current t1 = Some i" using t(1,2) by (auto simp: set_current_state_def result_simps set_proc_def)
  then have "current t2 = Some i" using t(3) by (auto simp: wakeup_def Let_def result_simps pop_off_def)
  with t(1,4) assms(2) have "calm j t2 t" by (intro calm_sched_out) simp_all
  with 1 2 show ?thesis by (blast intro: calm_trans)
qed


lemma calm_join:
  assumes "join i s = Ok (r, t)" and "current s \<noteq> Some j"
  shows "calm j s t"
  using assms calm_sleep [OF _ assms(2)] calm_trans [OF calm_push calm_pop]
  by (auto simp: join_def Let_def result_simps split: if_splits)

lemma calm_preempt:
  assumes "irq_idle s" and "on_tick_preempt s = Ok (r, t)" and "current s \<noteq> Some j"
  shows "calm j s t"
proof -
  let ?s = "s\<lparr>intena := intr_get (csr s)\<rparr>"
  have "calm j ?s t" if "yield_now ?s = Ok (r, t)"
  proof (cases r)
    case (Switch k)
    then show ?thesis using that assms(3) by (intro calm_yield) simp_all
  next
    case (Return u)
    then show ?thesis using that calm_trans [OF calm_push calm_pop]
      by (auto simp: yield_now_def Let_def result_simps split: option.splits)
  qed
  with preempt_eq [OF assms(1,2)] show ?thesis by (auto simp: calm_def)
qed

lemma calm_page_fault:
  assumes "irq_idle s" and "service_page_fault addr s = Ok (r, s')" and "current s \<noteq> Some j"
  shows "calm j s s'" "current s' = current s"
proof -
  from assms(2) obtain x s1 m where w: "with_current (\<lambda>p. Ok ((heap_base p, heap_brk p, page_table p), p)) s = Ok (x, s1)"
    and "s' = s1\<lparr>ram := m\<rparr>" by (rule service_page_fault_eq)
  with calm_with_current [OF assms(1) w assms(3)] show "calm j s s'" "current s' = current s"
    by (simp_all add: calm_def)
qed


lemma calm_exec:
  assumes "irq_idle s" and "exec L prog s = Ok (u, s')" and "current s \<noteq> Some j"
  shows "calm j s s'" "current s' = current s"
proof -
  from assms(2) obtain t m r s1 ktop c m' where
    w: "with_current (\<lambda>p. Ok ((user_table p, kstack_top p), exec_image t p)) (s\<lparr>ram := m\<rparr>) = Ok (r, s1)"
    and e: "enter_user USER_TEXT USER_STACK_TOP ktop (s1\<lparr>csr := c, ram := m'\<rparr>) = (u, s')" by (rule exec_eq)
  have "irq_idle (s\<lparr>ram := m\<rparr>)" using assms(1) by (simp add: irq_idle_def irq_ok_def)
  note w' = calm_with_current [OF this w, of j]
  from e obtain c' where "s' = s1\<lparr>ram := m', csr := c'\<rparr>" by (auto simp: enter_user_def Let_def split: prod.splits)
  then show "calm j s s'" "current s' = current s" using w' assms(3) by (simp_all add: calm_def)
qed

lemma calm_fork:
  assumes "irq_idle s" and "fork stk frame s = Ok (n, s')" and "current s = Some i" and "ptab (procs s) i = Some p"
  shows "calm j s s'" "current s' = current s"
proof -
  from assms(1-4) obtain ct m where sp: "spawn_with stk ''u-fork-child'' Forkret_body (fork_cfg ct frame p)
       (set_proc i p (s\<lparr>intena := intr_get (csr s)\<rparr>)\<lparr>ram := m\<rparr>) = Ok (n, s')" by (rule fork_eq)
  have same: "set_proc i p (s\<lparr>intena := intr_get (csr s)\<rparr>) = s\<lparr>intena := intr_get (csr s)\<rparr>"
    using assms(4) by (intro set_proc_same) simp
  have i: "irq_idle (s\<lparr>intena := intr_get (csr s), ram := m\<rparr>)" using assms(1) by (simp add: irq_idle_def irq_ok_def)
  from calm_spawn [OF i sp [unfolded same], of j] show "calm j s s'" by (simp add: calm_def)
  from i sp [unfolded same] show "current s' = current s" by (rule spawn_with_eq) simp
qed

lemma thread_entry_calm:
  assumes "thread_entry t = Ok (e, s')"
  shows "calm j t s'" "current s' = current t"
proof -
  from assms obtain u where u: "pop_off t = Ok u" "pop_off (push_off (u\<lparr>csr := intr_on (csr u)\<rparr>)) = Ok s'"
    by (auto simp: thread_entry_def Let_def result_simps)
  have "calm j u (push_off (u\<lparr>csr := intr_on (csr u)\<rparr>))" by (simp add: calm_def)
  then show "calm j t s'" using calm_pop [OF u(1)] calm_pop [OF u(2)] by (blast intro: calm_trans)
  show "current s' = current t" using u by (auto simp: pop_off_def Let_def result_simps)
qed

lemma pop_off_current: "pop_off s = Ok s' \<Longrightarrow> current s' = current s"
  by (auto simp: pop_off_def Let_def result_simps)

lemma scheduler_back_current: "scheduler_back s = Ok s' \<Longrightarrow> current s' = None"
  by (auto simp: scheduler_back_def Let_def result_simps dest: pop_off_current)

lemma turn_idle_calm:
  assumes "scheduler_turn L s = Ok (None, s')"
  shows "calm j s s'"
proof -
  from assms obtain t m where t: "t = (push_off (s\<lparr>csr := intr_on (csr s)\<rparr>))\<lparr>procs := map drop_zombie (procs s), ram := m\<rparr>"
    "\<exists>u. pop_off t = Ok u \<and> s' = u\<lparr>csr := intr_on (csr u)\<rparr>" by (rule scheduler_turn_eq) simp
  then obtain u where u: "pop_off t = Ok u" "s' = u\<lparr>csr := intr_on (csr u)\<rparr>" by blast
  have "calm j s t" by (simp add: t(1) calm_def ptab_drop_zombie quiet_drop_zombie)
  moreover have "calm j u s'" by (simp add: u(2) calm_def)
  ultimately show ?thesis using calm_pop [OF u(1)] by (blast intro: calm_trans)
qed

text \<open>A dispatch of another slot brings the scan closer to a runnable slot; a step that dispatches
  nothing does not move it.\<close>

lemma turn_pick:
  assumes "scheduler_turn L s = Ok (Some i, t)"
  shows "i \<noteq> j \<Longrightarrow> quiet (ptab (procs s) j) (ptab (procs t) j)" and "length (procs t) = length (procs s)"
    and "next_slot t = Suc i" and "i < length (procs s)" and "current t = Some i"
    and "ptab (procs s) i = Some q \<Longrightarrow> ptab (procs t) i = Some (q\<lparr>pstate := Running\<rparr>) \<and> hart t = pcontext q"
    and "ptab (procs s) j = Some p \<Longrightarrow> pstate p = Runnable \<Longrightarrow> i \<noteq> j \<Longrightarrow> next_slot s \<le> length (procs s) \<Longrightarrow>
      length (procs s) \<le> N \<Longrightarrow> N + N \<le> usize_max \<Longrightarrow> lag N j (next_slot t) < lag N j (next_slot s)"
proof -
  from assms obtain u m where u: "u = (push_off (s\<lparr>csr := intr_on (csr s)\<rparr>))\<lparr>procs := map drop_zombie (procs s), ram := m\<rparr>"
    and sc: "scan (procs u) (next_slot u) [0..<length (procs u)] = Ok (Some i)"
    and t: "\<exists>q c. ptab (procs u) i = Some q \<and> switch_to (page_table q) (csr u) = Ok c \<and>
         t = u\<lparr>next_slot := Suc i, current := Some i, procs := (procs u)[i := Some (q\<lparr>pstate := Running\<rparr>)],
                csr := c, scheduler_ctx := hart u, hart := pcontext q\<rparr>"
    by (rule scheduler_turn_eq) simp
  then obtain q' c where q': "ptab (procs u) i = Some q'"
    "t = u\<lparr>next_slot := Suc i, current := Some i, procs := (procs u)[i := Some (q'\<lparr>pstate := Running\<rparr>)],
           csr := c, scheduler_ctx := hart u, hart := pcontext q'\<rparr>" by blast
  have len: "length (procs u) = length (procs s)" by (simp add: u)
  have tab: "ptab (procs u) = drop_zombie \<circ> ptab (procs s)" by (simp add: u ptab_drop_zombie)
  have tab': "ptab (procs t) = (ptab (procs u))(i \<mapsto> q'\<lparr>pstate := Running\<rparr>)"
    using ptab_update [OF q'(1)] by (simp add: q'(2))
  show "quiet (ptab (procs s) j) (ptab (procs t) j)" if "i \<noteq> j" using that by (simp add: tab' tab quiet_drop_zombie)
  show "length (procs t) = length (procs s)" "next_slot t = Suc i" "current t = Some i" "i < length (procs s)"
    using scan_Some [OF sc] by (simp_all add: q'(2) len)
  show "ptab (procs t) i = Some (q\<lparr>pstate := Running\<rparr>) \<and> hart t = pcontext q" if "ptab (procs s) i = Some q"
  proof -
    have "q = q'" using that q'(1) tab by (auto simp: drop_zombie_def split: if_splits)
    then show ?thesis by (intro conjI) (simp add: tab', simp add: q'(2))
  qed
  show "lag N j (next_slot t) < lag N j (next_slot s)"
    if j: "ptab (procs s) j = Some p" "pstate p = Runnable" "i \<noteq> j" "next_slot s \<le> length (procs s)"
      "length (procs s) \<le> N" "N + N \<le> usize_max"
  proof -
    have "ptab (procs u) j = Some p" using j(1,2) by (simp add: tab drop_zombie_def)
    then have "j < length (procs u)" "is_runnable (procs u ! j)"
      using j(2) by (auto simp: ptab_def is_runnable_def split: if_splits)
    from scan_closer [OF sc this(2,1), of N] j(3-6) show ?thesis by (simp add: q'(2) len) (simp add: u)
  qed
qed

lemma sstep_calm_or_dispatch:
  assumes "sstep L s s'" and inv: "sched_inv s" and cur: "current s \<noteq> Some j"
  shows "calm j s s' \<or> (\<exists>i t. current s = None \<and> scheduler_turn L s = Ok (Some i, t) \<and> procs s' = procs t \<and> current s' = Some i)"
proof -
  have idle: "irq_idle s" using inv by (simp add: sched_inv_def)
  from assms(1) show ?thesis
  proof cases
    case Idle then show ?thesis using turn_idle_calm by blast
  next
    case (Start i t e)
    from Start(2) have "current t = Some i" by (rule scheduler_turn_eq) auto
    moreover have "procs s' = procs t" using Start(3) by (auto simp: thread_entry_def Let_def result_simps pop_off_def)
    ultimately show ?thesis using thread_entry_calm(2) [OF Start(3)] Start(1,2) by auto
  next
    case (Resume i t q)
    from Resume(2) have "current t = Some i" by (rule scheduler_turn_eq) auto
    moreover have "procs s' = procs t" using Resume(4) by (auto simp: pop_off_def Let_def result_simps sched_back_def set_intena_def)
    ultimately show ?thesis using pop_off_current [OF Resume(4)] Resume(1,2) by (auto simp: sched_back_def set_intena_def)
  next
    case (Wakeup chan) then show ?thesis using calm_wakeup by blast
  next
    case (Spawn stk name e n) then show ?thesis using calm_spawn [OF idle] by (auto simp: spawn_def)
  next
    case (Spawn_user stk name prog n)
    from Spawn_user(1) obtain t m where sp:
      "spawn_with stk name User_thread_body (attach_user_space t USER_TEXT USER_STACK_TOP) (s\<lparr>ram := m\<rparr>) = Ok (n, s')"
      by (auto simp: spawn_user_def result_simps)
    have "irq_idle (s\<lparr>ram := m\<rparr>)" using idle by (simp add: irq_idle_def irq_ok_def)
    from calm_spawn [OF this sp, of j] show ?thesis by (simp add: calm_def)
  next
    case (Fork stk frame n i q) then show ?thesis using calm_fork(1) [OF idle Fork(1,3,4), of j] by simp
  next
    case (Exec prog u) then show ?thesis using calm_exec(1) [OF idle Exec cur] by simp
  next
    case (Yield k t) then show ?thesis using calm_trans [OF calm_yield [OF Yield(1) cur] calm_scheduler_back [OF Yield(2)]] by simp
  next
    case (Preempt k t)
    then show ?thesis using calm_trans [OF calm_preempt [OF idle Preempt(1) cur] calm_scheduler_back [OF Preempt(2)]] by simp
  next
    case Tick then show ?thesis using calm_preempt [OF idle Tick cur] by simp
  next
    case (Sleep chan t) then show ?thesis using calm_trans [OF calm_sleep [OF Sleep(1) cur] calm_scheduler_back [OF Sleep(2)]] by simp
  next
    case (Exit k t) then show ?thesis using calm_trans [OF calm_exit [OF Exit(1) cur] calm_scheduler_back [OF Exit(2)]] by simp
  next
    case (Join_wait i k t)
    then show ?thesis using calm_trans [OF calm_join [OF Join_wait(1) cur] calm_scheduler_back [OF Join_wait(2)]] by simp
  next
    case (Join_done i) then show ?thesis using calm_join [OF Join_done cur] by simp
  next
    case (Fd_install idx r) then show ?thesis using calm_with_current(1) [OF idle _ cur] by (auto simp: fd_install_def result_simps)
  next
    case (Fd_advance fd delta) then show ?thesis using calm_with_current(1) [OF idle _ cur] by (auto simp: fd_advance_def result_simps)
  next
    case (Fd_close fd b) then show ?thesis using calm_with_current(1) [OF idle _ cur] by (auto simp: fd_close_def result_simps)
  next
    case (Sbrk delta v) then show ?thesis using calm_with_current(1) [OF idle _ cur] by (auto simp: sbrk_def result_simps)
  next
    case (Page_fault addr b) then show ?thesis using calm_page_fault(1) [OF idle Page_fault cur] by simp
  qed
qed

lemma sstep_calm:
  assumes "sstep L s s'" and "sched_inv s" and "current s \<noteq> Some j" and "\<not> (current s = None \<and> current s' \<noteq> None)"
  shows "calm j s s'"
  using sstep_calm_or_dispatch [OF assms(1-3)] assms(4) by auto


section \<open>Waiting for a dispatch\<close>

text \<open>\<open>away L j N s s' k\<close>: the kernel runs from \<open>s\<close> to \<open>s'\<close> with at most \<open>N\<close> slots, dispatching \<open>k\<close> times, never slot \<open>j\<close>.\<close>

inductive away :: "layout \<Rightarrow> nat \<Rightarrow> nat \<Rightarrow> 'a sched_scheme \<Rightarrow> 'a sched_scheme \<Rightarrow> nat \<Rightarrow> bool" for L j N s where
  away_refl: "away L j N s s 0"
| away_step: "away L j N s t k \<Longrightarrow> sstep L t u \<Longrightarrow> length (procs u) \<le> N \<Longrightarrow>
    \<not> (current t = None \<and> current u \<noteq> None) \<Longrightarrow> away L j N s u k"
| away_pick: "away L j N s t k \<Longrightarrow> sstep L t u \<Longrightarrow> length (procs u) \<le> N \<Longrightarrow>
    current t = None \<Longrightarrow> current u = Some i \<Longrightarrow> i \<noteq> j \<Longrightarrow> away L j N s u (Suc k)"

text \<open>A dispatch is a turn of the scheduler followed by a part that leaves the slots alone.\<close>

lemma spawn_current:
  assumes "irq_idle s" and "spawn_with stk name e cfg s = Ok (n, s')"
  shows "current s' = current s"
  using assms by (rule spawn_with_eq) simp

lemma sched_fields_pop:
  "pop_off t = Ok u \<Longrightarrow> next_slot u = next_slot t \<and> procs u = procs t \<and> current u = current t"
  by (auto simp: pop_off_def Let_def result_simps)

lemma sched_fields_entry:
  "thread_entry t = Ok (e, u) \<Longrightarrow> next_slot u = next_slot t \<and> procs u = procs t \<and> current u = current t"
  by (auto simp: thread_entry_def Let_def result_simps dest!: sched_fields_pop)

lemma dispatch_cases:
  assumes "sstep L s s'" and "sched_inv s" and "current s = None" and "current s' = Some i"
  obtains t where "scheduler_turn L s = Ok (Some i, t)" "next_slot s' = next_slot t" "procs s' = procs t"
proof -
  have idle: "irq_idle s" using assms(2) by (simp add: sched_inv_def)
  have cur: "current s \<noteq> Some j" for j using assms(3) by simp
  have ram: "irq_idle (s\<lparr>ram := m\<rparr>)" for m using idle by (simp add: irq_idle_def irq_ok_def)
  note c = that
  have fin: thesis if "scheduler_turn L s = Ok (Some k, t)" "next_slot s' = next_slot t \<and> procs s' = procs t \<and> current s' = current t" for k t
    using that assms(4) turn_pick(5) [OF that(1)] by (intro c [of t]) auto
  from assms(1) show thesis
  proof cases
    case Idle
    then have "current s' = None" using scheduler_turn_inv [OF assms(2,3) Idle(2)] by simp
    with assms(4) show ?thesis by simp
  next
    case (Start k t e) then show ?thesis using fin sched_fields_entry by metis
  next
    case (Resume k t p)
    then show ?thesis using fin sched_fields_pop [OF Resume(4)] by (simp add: sched_back_def set_intena_def)
  next
    case (Wakeup chan) then show ?thesis using wakeup_inv(2) [OF assms(2)] assms(3,4) by simp
  next
    case (Spawn stk name e n) then show ?thesis using spawn_current [OF idle] assms(3,4) by (simp add: spawn_def)
  next
    case (Spawn_user stk name prog n)
    then show ?thesis using spawn_current [OF ram] assms(3,4) by (fastforce simp: spawn_user_def result_simps)
  next
    case (Fork stk frame n i q) then show ?thesis using assms(3) by simp
  next
    case (Exec prog u) then show ?thesis using calm_exec(2) [OF idle Exec cur] assms(3,4) by simp
  next
    case (Tick)
    then show ?thesis using preempt_eq [OF idle Tick] assms(3,4)
      by (auto simp: yield_now_def Let_def result_simps dest: sched_fields_pop)
  next
    case (Join_done k)
    then show ?thesis using assms(3,4) by (auto simp: join_def Let_def result_simps dest: sched_fields_pop split: if_splits)
  next
    case (Fd_install idx r)
    then show ?thesis using calm_with_current(2) [OF idle _ cur] assms(3,4) by (fastforce simp: fd_install_def result_simps)
  next
    case (Fd_advance fd delta)
    then show ?thesis using calm_with_current(2) [OF idle _ cur] assms(3,4) by (fastforce simp: fd_advance_def result_simps)
  next
    case (Fd_close fd b)
    then show ?thesis using calm_with_current(2) [OF idle _ cur] assms(3,4) by (fastforce simp: fd_close_def result_simps)
  next
    case (Sbrk delta v)
    then show ?thesis using calm_with_current(2) [OF idle _ cur] assms(3,4) by (fastforce simp: sbrk_def result_simps)
  next
    case (Page_fault addr b) then show ?thesis using calm_page_fault(2) [OF idle Page_fault cur] assms(3,4) by simp
  qed (use assms(4) in \<open>auto dest: scheduler_back_current\<close>)
qed

lemma away_inv:
  assumes "away L j N s s' k" and "sched_inv s" and "current s \<noteq> Some j" and "ptab (procs s) j = Some p"
    and "pstate p \<noteq> Zombie"
  shows "sched_inv s' \<and> current s' \<noteq> Some j \<and> quiet (Some p) (ptab (procs s') j)"
  using assms(1)
proof induction
  case away_refl
  then show ?case using assms(2-4) by simp
next
  case (away_step t k u)
  then have t: "sched_inv t" "current t \<noteq> Some j" "quiet (Some p) (ptab (procs t) j)" by simp_all
  have u: "sched_inv u" using sstep_inv [OF away_step(2) t(1)] .
  have "quiet (ptab (procs t) j) (ptab (procs u) j)"
    using sstep_calm [OF away_step(2) t(1,2) away_step(4)] by (simp add: calm_def)
  with t(3) have q: "quiet (Some p) (ptab (procs u) j)" by (rule quiet_trans)
  then obtain st where "ptab (procs u) j = Some (p\<lparr>pstate := st\<rparr>)" "st = pstate p \<or> st = Runnable"
    using assms(5) unfolding quiet_def by blast
  moreover have "pstate p \<noteq> Running"
    using assms(2-4) by (auto simp: sched_inv_def tinv_def dest: tab_invD(4))
  ultimately have "current u \<noteq> Some j"
    using u by (auto simp: sched_inv_def tinv_def dest: tab_invD(4))
  with u q show ?case by simp
next
  case (away_pick t k u i)
  then have t: "sched_inv t" "quiet (Some p) (ptab (procs t) j)" by simp_all
  from away_pick(2) t(1) away_pick(4,5) obtain v where v: "scheduler_turn L t = Ok (Some i, v)" "procs u = procs v"
    by (rule dispatch_cases)
  have "quiet (ptab (procs t) j) (ptab (procs u) j)" using turn_pick(1) [OF v(1) away_pick(6)] v(2) by simp
  with t(2) have "quiet (Some p) (ptab (procs u) j)" by (rule quiet_trans)
  then show ?case using sstep_inv [OF away_pick(2) t(1)] away_pick(5,6) by simp
qed


section \<open>Turns that happen\<close>

lemma turn_Some:
  assumes "irq_idle s" and "reap L (procs s) (ram s) = Ok (ps, m)"
    and "scan ps (next_slot s) [0..<length ps] = Ok (Some i)" and "ptab ps i = Some p" and "page_table p \<noteq> 0"
    and "Suc i \<le> usize_max"
  shows "scheduler_turn L s = Ok (Some i, (push_off (s\<lparr>csr := intr_on (csr s)\<rparr>))
     \<lparr>procs := ps[i := Some (p\<lparr>pstate := Running\<rparr>)], ram := m, next_slot := Suc i, current := Some i,
      csr := (csr (push_off (s\<lparr>csr := intr_on (csr s)\<rparr>)))\<lparr>satp := SATP_SV39 OR ushr (page_table p) 12\<rparr>,
      scheduler_ctx := hart s, hart := pcontext p\<rparr>)"
proof -
  have "\<not> intr_get (csr (push_off (s\<lparr>csr := intr_on (csr s)\<rparr>)))"
    using turn_start(1) [OF assms(1)] by (intro push_off_masks) (simp add: irq_idle_def)
  moreover have "ptab (ps[i := Some (p\<lparr>pstate := Running\<rparr>)]) i = Some (p\<lparr>pstate := Running\<rparr>)"
    using ptab_update [OF assms(4)] by simp
  ultimately show ?thesis using assms
    by (simp add: scheduler_turn_def Let_def sched_data_def set_current_state_def ptab_slot_at set_proc_def switch_to_def)
qed

lemma intr_on_twice [simp]: "intr_on (intr_on c) = intr_on c"
  by (simp add: intr_on_def csr_set_def or.assoc)

lemma turn_None:
  assumes "irq_idle s" and "reap L (procs s) (ram s) = Ok (ps, m)"
    and "scan ps (next_slot s) [0..<length ps] = Ok None"
  shows "scheduler_turn L s = Ok (None, s\<lparr>procs := ps, ram := m, intena := True, csr := intr_on (csr s)\<rparr>)"
proof -
  let ?s = "s\<lparr>csr := intr_on (csr s)\<rparr>"
  note i = turn_start(1) [OF assms(1)]
  have "\<not> intr_get (csr (push_off ?s))" using i by (intro push_off_masks) (simp add: irq_idle_def)
  moreover have "pop_off ((push_off ?s)\<lparr>procs := ps, ram := m\<rparr>) = Ok (s\<lparr>procs := ps, ram := m, intena := True, csr := intr_on (csr s)\<rparr>)"
    by (subst pop_pushed [OF irq_idleD [OF i]]) (use i in \<open>simp_all add: push_off_eq irq_idle_def\<close>)
  ultimately show ?thesis using assms
    by (simp add: scheduler_turn_def Let_def sched_data_def)
qed

lemma thread_entry_ok:
  assumes "held t" and "current t = Some i" and "ptab (procs t) i = Some p"
  shows "\<exists>s'. thread_entry t = Ok (entry p, s') \<and> current s' = Some i \<and> procs s' = procs t"
proof -
  obtain u where u: "pop_off t = Ok u" using pop_off_ok [of t 0] assms(1) by (auto simp: held_def)
  from assms(1) u obtain c where c: "u = t\<lparr>noff := 0, csr := c\<rparr>" "irq_idle u" by (rule held_pop)
  let ?u = "u\<lparr>csr := intr_on (csr u)\<rparr>"
  have i: "irq_idle ?u" using turn_start(1) [OF c(2)] .
  then have "\<not> intr_get (csr (push_off ?u))" by (intro push_off_masks) (simp add: irq_idle_def)
  moreover have "pop_off (push_off ?u) = Ok ((push_off ?u)\<lparr>csr := csr ?u, noff := noff ?u\<rparr>)"
    by (rule pop_pushed [OF irq_idleD [OF i]]) simp_all
  moreover have "current ?u = Some i" "procs ?u = procs t" using assms(2) c(1) by simp_all
  ultimately show ?thesis using u ptab_slot_at [OF assms(3)]
    by (simp add: thread_entry_def Let_def sched_data_def)
qed

lemma sched_out_ok:
  assumes "held t" and "current t = Some i" and "ptab (procs t) i = Some p" and "pstate p \<noteq> Running"
  shows "sched_out t = Ok ((set_proc i (p\<lparr>sched_intena := intena t, pcontext := hart t\<rparr>) t)\<lparr>hart := scheduler_ctx t\<rparr>)"
  using assms by (simp add: sched_out_def held_def irq_ok_def holding_one_def saved_intena_def sched_data_def ptab_slot_at)

lemma yield_ok:
  assumes "irq_idle s" and "current s = Some i" and "ptab (procs s) i = Some p"
  shows "\<exists>t. yield_now s = Ok (Switch K_yield, t) \<and> held t \<and> next_slot t = next_slot s \<and> kernel_root t = kernel_root s \<and>
     ram t = ram s \<and>
     procs t = (procs s)[i := Some (p\<lparr>pstate := Runnable, sched_intena := intr_get (csr s), pcontext := hart s\<rparr>)]"
proof -
  let ?t = "set_proc i (p\<lparr>pstate := Runnable\<rparr>) (push_off s)"
  have h: "held ?t" using held_push [OF assms(1)] by (simp add: set_proc_def held_def irq_ok_def)
  have i: "ptab (procs ?t) i = Some (p\<lparr>pstate := Runnable\<rparr>)" "current ?t = Some i"
    using ptab_update [OF assms(3)] assms(2) by (simp_all add: set_proc_def)
  have ie: "intena (push_off s) = intr_get (csr s)" using assms(1) by (simp add: push_off_eq irq_idle_def)
  have "\<not> intr_get (csr (push_off s))" using assms(1) by (intro push_off_masks) (simp add: irq_idle_def)
  then have "yield_now s = bindR (sched_out ?t) (\<lambda>s. Ok (Switch K_yield, s))"
    using assms by (simp add: yield_now_def Let_def sched_data_def set_current_state_def ptab_slot_at)
  then show ?thesis using sched_out_ok [OF h i(2,1)] h ie by (simp add: set_proc_def held_def irq_ok_def)
qed

lemma scheduler_back_ok:
  assumes "held t" and "kernel_root t \<noteq> 0"
  shows "\<exists>s'. scheduler_back t = Ok s' \<and> procs s' = procs t \<and> next_slot s' = next_slot t \<and> ram s' = ram t"
proof -
  let ?t = "t\<lparr>csr := (csr t)\<lparr>satp := SATP_SV39 OR ushr (kernel_root t) 12\<rparr>, current := None\<rparr>"
  have h: "held ?t" using assms(1) by (simp add: held_def irq_ok_def intr_get_def)
  then obtain s' where s': "pop_off ?t = Ok s'" using pop_off_ok [of ?t 0] by (auto simp: held_def)
  then have "scheduler_back t = Ok s'" using assms h
    by (simp add: scheduler_back_def switch_to_def sched_data_def held_def irq_ok_def intr_get_def)
  then show ?thesis using s' by (auto simp: pop_off_def Let_def result_simps)
qed

lemma reap_none: "list_all (\<lambda>x. drop_zombie x = x) ps \<Longrightarrow> reap L ps m = Ok (ps, m)"
  by (induction ps) (auto simp: drop_zombie_def split: option.splits if_splits)

section \<open>A table to run\<close>

definition demo_process :: "usize \<Rightarrow> process" where
  "demo_process i = (new_process i ''demo'' (Kernel_body ''demo'') 0x81000000 0x81004000 0x80400000)
     \<lparr>pcontext := \<lparr>ctx_ra = 0x80001000, ctx_sp = 0x81004000, ctx_s = replicate 12 i\<rparr>\<rparr>"

definition demo_sched :: "nat \<Rightarrow> sched" where
  "demo_sched n = \<lparr>csr = csr idle_irq, noff = 0, intena = False, ram = demo_phys, kernel_root = 0x80400000,
     procs = map (\<lambda>i. Some (demo_process (Suc i))) [0..<n], current = None, next_slot = 0,
     scheduler_ctx = zeroed, next_pid = Suc n, hart = \<lparr>ctx_ra = 1, ctx_sp = 2, ctx_s = replicate 12 7\<rparr>,
     thread_entry_at = 0x80001000\<rparr>"

lemma demo_process_simps: "pstate (demo_process n) = Runnable" "pid (demo_process n) = n"
  "page_table (demo_process n) = 0x80400000" "proc_ok 0x80400000 (demo_process n)"
  by (simp_all add: demo_process_def new_process_def proc_ok_def)

lemma demo_slots: "ptab (procs (demo_sched n)) i = (if i < n then Some (demo_process (Suc i)) else None)"
  by (simp add: demo_sched_def ptab_def)

lemma demo_inv:
  assumes "n < usize_max"
  shows "sched_inv (demo_sched n)"
proof -
  have "tab_inv 0x80400000 (Suc n) None (ptab (procs (demo_sched n)))"
    by (rule tab_invI) (auto simp: demo_slots demo_process_simps split: if_splits)
  then show ?thesis using idle_irq_ok(1) assms
    by (simp add: sched_inv_def tinv_def irq_idle_def irq_ok_def) (simp add: demo_sched_def idle_irq_def)
qed

lemma demo_reap: "reap L (procs (demo_sched n)) (ram (demo_sched n)) = Ok (procs (demo_sched n), demo_phys)"
proof -
  have "ram (demo_sched n) = demo_phys" by (simp add: demo_sched_def)
  moreover have "list_all (\<lambda>x. drop_zombie x = x) (procs (demo_sched n))"
    by (simp add: demo_sched_def list_all_iff drop_zombie_def demo_process_simps)
  ultimately show ?thesis by (simp add: reap_none)
qed

lemma demo_find:
  "0 < n \<Longrightarrow> find (\<lambda>idx. is_runnable (procs (demo_sched n) ! idx))
     (map (\<lambda>i. (next_slot (demo_sched n) + i) mod length (procs (demo_sched n))) [0..<length (procs (demo_sched n))]) = Some 0"
  by (simp add: demo_sched_def is_runnable_def demo_process_simps upt_conv_Cons)

text \<open>The first dispatch: slot 0 starts to run.\<close>

lemma demo_start:
  assumes "0 < n" and "n < usize_max"
  obtains t e s' where "scheduler_turn L (demo_sched n) = Ok (Some 0, t)" "thread_entry t = Ok (e, s')"
    "current s' = Some 0" "sched_inv s'" "procs s' = procs t" "next_slot s' = 1" "kernel_root s' \<noteq> 0"
    "ptab (procs s') 0 = Some ((demo_process 1)\<lparr>pstate := Running\<rparr>)" "length (procs s') = n" "ram s' = demo_phys"
proof -
  let ?s = "demo_sched n"
  have s: "irq_idle ?s" "current ?s = None" "kernel_root ?s \<noteq> 0" "next_slot ?s = 0" "length (procs ?s) = n" "ptab (procs ?s) 0 = Some (demo_process 1)"
    using demo_inv [OF assms(2)] demo_slots assms(1) by (simp_all add: sched_inv_def demo_sched_def)
  have "scan (procs ?s) (next_slot ?s) [0..<length (procs ?s)] = Ok (Some 0)"
    using assms s(4,5) demo_find [OF assms(1)] by (subst scan_eq) auto
  from turn_Some [OF s(1) demo_reap this s(6)] have t0: "\<exists>t. scheduler_turn L ?s = Ok (Some 0, t) \<and> ram t = demo_phys \<and> kernel_root t = kernel_root ?s"
    by (simp add: demo_process_simps usize_max_eq)
  then obtain t where t: "scheduler_turn L ?s = Ok (Some 0, t)" "ram t = demo_phys" "kernel_root t = kernel_root ?s" by blast
  have h: "tinv (Some 0) t" "held t" "current t = Some 0" using scheduler_turn_inv [OF demo_inv [OF assms(2)] s(2) t(1)] by simp_all
  have p: "ptab (procs t) 0 = Some ((demo_process 1)\<lparr>pstate := Running\<rparr>)" using turn_pick(6) [OF t(1) s(6)] by simp
  from thread_entry_ok [OF h(2,3) p] obtain e s' where
    s': "thread_entry t = Ok (e, s')" "current s' = Some 0" "procs s' = procs t" by blast
  have "ram s' = ram t" "kernel_root s' = kernel_root t" "next_slot s' = next_slot t"
    using s'(1) by (auto simp: thread_entry_def Let_def result_simps pop_off_def)
  with t s s' h p turn_pick(2,3) [OF t(1)] show ?thesis
    by (intro that [OF t(1) s'(1,2)]) (auto intro: thread_entry_inv)
qed

lemma demo_away: "\<exists>s'. away L 1 2 (demo_sched 2) s' 1"
proof -
  obtain t e s' where t: "scheduler_turn L (demo_sched 2) = Ok (Some 0, t)" "thread_entry t = Ok (e, s')"
    "current s' = Some 0" "length (procs s') = 2" by (rule demo_start [where n = 2 and L = L]) (simp, simp add: usize_max_eq, rule that)
  have c: "current (demo_sched 2) = None" by (simp add: demo_sched_def)
  have "away L 1 2 (demo_sched 2) s' (Suc 0)"
    by (rule away_pick [OF away_refl sstep.Start [OF c t(1,2)] _ c t(3)]) (simp_all add: t(4))
  then show ?thesis by auto
qed

section \<open>Properties\<close>

text \<open>
  C4. The scheduler's invariant.  Whatever sequence of operations the kernel performs, no interrupt
  level is left held, every process keeps a table of \<open>MAX_FDS\<close> descriptors, a heap between its base and
  \<open>USER_HEAP_MAX\<close> and the page table that belongs to it, pids are positive, below the counter and never
  shared, and a process is Running exactly when it is the current one.
\<close>

theorem sched_reachable_inv:
  assumes "(sstep L)\<^sup>*\<^sup>* s s'" and "sched_inv s"
  shows "sched_inv s'"
  using assms by (induction rule: rtranclp_induct) (auto intro: sstep_inv)

theorem sched_reachable_inv_witness:
  "\<exists>s'. (sstep demo_layout)\<^sup>*\<^sup>* (demo_sched 2) s' \<and> current s' = Some 0 \<and> sched_inv s'"
proof -
  obtain t e s' where t: "scheduler_turn demo_layout (demo_sched 2) = Ok (Some 0, t)" "thread_entry t = Ok (e, s')"
    "current s' = Some 0" by (rule demo_start [where n = 2 and L = demo_layout]) (simp, simp add: usize_max_eq, rule that)
  have "sstep demo_layout (demo_sched 2) s'" by (rule sstep.Start [OF _ t(1,2)]) (simp add: demo_sched_def)
  then have r: "(sstep demo_layout)\<^sup>*\<^sup>* (demo_sched 2) s'" by simp
  have "sched_inv (demo_sched 2)" by (rule demo_inv) (simp add: usize_max_eq)
  from sched_reachable_inv [OF r this] r t(3) show ?thesis by blast
qed

text \<open>
  C29. A turn of the scheduler.  After reaping, it picks the first runnable slot in cyclic order
  from the position after the last dispatch, marks it Running, makes it current, switches to its
  page table and its saved registers with interrupts off, and remembers its own registers; when no
  slot is runnable, nothing is current and interrupts are on for the wait.
\<close>

theorem scheduler_turn_correct:
  assumes "sched_inv s" and "current s = None" and "reap L (procs s) (ram s) = Ok (ps, m)"
    and "next_slot s + length ps \<le> usize_max" and "\<forall>p\<in>set (live ps). page_table p \<noteq> 0"
  shows "case find (\<lambda>idx. is_runnable (ps ! idx)) (map (\<lambda>i. (next_slot s + i) mod length ps) [0..<length ps]) of
      None \<Rightarrow> \<exists>s'. scheduler_turn L s = Ok (None, s') \<and> procs s' = ps \<and> current s' = None \<and> intr_get (csr s')
    | Some i \<Rightarrow> \<exists>s' p. scheduler_turn L s = Ok (Some i, s') \<and> ps ! i = Some p \<and> pstate p = Runnable \<and>
        procs s' = ps[i := Some (p\<lparr>pstate := Running\<rparr>)] \<and> ram s' = m \<and> current s' = Some i \<and> next_slot s' = Suc i \<and>
        satp (csr s') = SATP_SV39 OR ushr (page_table p) 12 \<and> hart s' = pcontext p \<and> scheduler_ctx s' = hart s \<and>
        \<not> intr_get (csr s')" (is "case ?f of None \<Rightarrow> _ | Some i \<Rightarrow> _")
proof -
  have idle: "irq_idle s" using assms(1) by (simp add: sched_inv_def)
  have sc: "scan ps (next_slot s) [0..<length ps] = Ok ?f"
    using assms(4) by (cases "length ps") (simp, subst scan_eq, auto)
  show ?thesis
  proof (cases ?f)
    case None
    from turn_None [OF idle assms(3) sc [unfolded None]] None assms(2) show ?thesis by simp
  next
    case (Some i)
    with sc have sc': "scan ps (next_slot s) [0..<length ps] = Ok (Some i)" by simp
    from scan_Some [OF this] obtain p where p: "i < length ps" "ps ! i = Some p" "pstate p = Runnable"
      by (auto simp: is_runnable_def split: option.splits)
    then have "ptab ps i = Some p" "Suc i \<le> usize_max" using assms(4) by (simp_all add: ptab_def)
    moreover from this have "page_table p \<noteq> 0" using assms(5) live_ptab by metis
    ultimately have t: "scheduler_turn L s = Ok (Some i, (push_off (s\<lparr>csr := intr_on (csr s)\<rparr>))
     \<lparr>procs := ps[i := Some (p\<lparr>pstate := Running\<rparr>)], ram := m, next_slot := Suc i, current := Some i,
      csr := (csr (push_off (s\<lparr>csr := intr_on (csr s)\<rparr>)))\<lparr>satp := SATP_SV39 OR ushr (page_table p) 12\<rparr>,
      scheduler_ctx := hart s, hart := pcontext p\<rparr>)" by (intro turn_Some [OF idle assms(3) sc'])
    have "\<not> intr_get (csr (push_off (s\<lparr>csr := intr_on (csr s)\<rparr>)))"
      using turn_start(1) [OF idle] by (intro push_off_masks) (simp add: irq_idle_def)
    then show ?thesis using p Some t by (simp add: intr_get_def)
  qed
qed

theorem scheduler_turn_correct_witness:
  "\<exists>s'. scheduler_turn demo_layout (demo_sched 2) = Ok (Some 0, s') \<and> current s' = Some 0 \<and>
     hart s' = pcontext (demo_process 1)"
proof -
  have "sched_inv (demo_sched 2)" by (rule demo_inv) (simp add: usize_max_eq)
  moreover have "current (demo_sched 2) = None" "next_slot (demo_sched 2) + length (procs (demo_sched 2)) \<le> usize_max"
    by (simp_all add: demo_sched_def usize_max_eq)
  moreover have "\<forall>p\<in>set (live (procs (demo_sched 2))). page_table p \<noteq> 0"
    by (auto simp: set_live demo_sched_def demo_process_simps)
  ultimately show ?thesis
    using scheduler_turn_correct [OF _ _ demo_reap, of 2 demo_layout] demo_find [of 2] by (auto simp: demo_sched_def)
qed



text \<open>
  C30. The context switch is invisible to the thread.  When a thread yields, or sleeps and is woken,
  then however long it is away, the dispatch that brings it back finds the callee-saved
  registers it had when it left, and returning from the switch puts its interrupt enable back.
\<close>

theorem switch_roundtrip:
  assumes "sched_inv s" and "current s = Some i"
    and "yield_now s = Ok (Switch k, t) \<or> sleep chan (push_off s) = Ok t" and "scheduler_back t = Ok s1"
    and "away L i N s1 s2 n" and "current s2 = None" and "scheduler_turn L s2 = Ok (Some i, u)"
  shows "\<exists>p. ptab (procs u) i = Some p \<and> hart u = hart s \<and> sched_intena p = intr_get (csr s) \<and>
     (\<forall>s'. pop_off (sched_back (sched_intena p) u) = Ok s' \<longrightarrow> intr_get (csr s') = intr_get (csr s))"
proof -
  have idle: "irq_idle s" using assms(1) by (simp add: sched_inv_def)
  from assms(3) obtain st t0 where t0: "st \<noteq> Running" "st \<noteq> Zombie" "set_current_state st i (push_off s) = Ok t0" "sched_out t0 = Ok t"
    using assms(2) by (auto simp: yield_now_def sleep_def Let_def result_simps)
  from t0(3) obtain p0 where p0: "ptab (procs s) i = Some p0" "t0 = set_proc i (p0\<lparr>pstate := st\<rparr>) (push_off s)"
    by (auto simp: set_current_state_def result_simps)
  then have i: "i < length (procs s)" by (simp add: ptab_def split: if_splits)
  define p where "p = p0\<lparr>pstate := st, sched_intena := intr_get (csr s), pcontext := hart s\<rparr>"
  have ie: "intena (push_off s) = intr_get (csr s)" using idle by (simp add: push_off_eq irq_idle_def)
  have "procs t = (procs s)[i := Some p]"
    using t0(4) by (rule sched_out_eq) (use i assms(2) in \<open>auto simp: p0(2) set_proc_def p_def ptab_def ie\<close>)
  then have tp: "ptab (procs t) i = Some p" using i by (simp add: ptab_def)
  have "tinv None t" "held t" using sched_out_inv [OF release_inv [OF assms(1,2) t0(3,1)] t0(4)] by simp_all
  from scheduler_back_inv [OF this assms(4)] have s1: "sched_inv s1" "current s1 \<noteq> Some i" by simp_all
  have "procs s1 = procs t" using assms(4) by (auto simp: scheduler_back_def Let_def result_simps dest: sched_fields_pop)
  with tp have "ptab (procs s1) i = Some p" by simp
  moreover have "pstate p \<noteq> Zombie" using t0(2) by (simp add: p_def)
  ultimately have s2: "sched_inv s2" "quiet (Some p) (ptab (procs s2) i)"
    using away_inv [OF assms(5) s1] by auto
  then obtain st' where "ptab (procs s2) i = Some (p\<lparr>pstate := st'\<rparr>)"
    using \<open>pstate p \<noteq> Zombie\<close> unfolding quiet_def by blast
  from turn_pick(6) [OF assms(7) this] have u: "ptab (procs u) i = Some (p\<lparr>pstate := Running\<rparr>)" "hart u = hart s"
    by (simp_all add: p_def)
  have h: "held u" using scheduler_turn_inv [OF s2(1) assms(6,7)] by simp
  have "intr_get (csr s') = b" if "pop_off (sched_back b u) = Ok s'" for b s'
  proof -
    have "irq_ok (sched_back b u)" "noff (sched_back b u) = Suc 0"
      using h by (simp_all add: held_def irq_ok_def sched_back_def set_intena_def)
    from pop_off_eq [OF this] that h show ?thesis
      by (cases b) (auto simp: sched_back_def set_intena_def held_def irq_ok_def)
  qed
  then show ?thesis using u by (auto simp: p_def)
qed


theorem switch_roundtrip_witness:
  "\<exists>(s :: sched) t s1 u p. yield_now s = Ok (Switch K_yield, t) \<and> scheduler_back t = Ok s1 \<and>
     scheduler_turn demo_layout s1 = Ok (Some 0, u) \<and> ptab (procs u) 0 = Some p \<and> hart u = hart s \<and>
     sched_intena p = intr_get (csr s)"
proof -
  obtain t0 e s where s: "scheduler_turn demo_layout (demo_sched 1) = Ok (Some 0, t0)" "thread_entry t0 = Ok (e, s)"
    "current s = Some 0" "sched_inv s" "procs s = procs t0" "next_slot s = 1" "kernel_root s \<noteq> 0"
    "ptab (procs s) 0 = Some ((demo_process 1)\<lparr>pstate := Running\<rparr>)" "length (procs s) = 1" "ram s = demo_phys"
    by (rule demo_start [where n = 1 and L = demo_layout]) (simp, simp add: usize_max_eq, rule that)
  have "irq_idle s" using s(4) by (simp add: sched_inv_def)
  from yield_ok [OF this s(3,8)] obtain t q where t: "yield_now s = Ok (Switch K_yield, t)" "held t" "next_slot t = 1"
    "kernel_root t \<noteq> 0" "procs t = (procs s)[0 := Some q]" "pstate q = Runnable" "page_table q \<noteq> 0" "ram t = demo_phys"
    using s by (auto simp: demo_process_simps)
  from scheduler_back_ok [OF t(2,4)] obtain s1 where s1: "scheduler_back t = Ok s1" "procs s1 = procs t" "next_slot s1 = 1"
    "ram s1 = demo_phys" using t by auto
  have ps: "procs s1 = [Some q]" using s1(2) t(5) s(9) by (cases "procs s") auto
  have i1: "sched_inv s1" "current s1 = None" using yield_inv [OF s(4) t(1) s1(1)] scheduler_back_current [OF s1(1)] by simp_all
  have idle: "irq_idle s1" using i1(1) by (simp add: sched_inv_def)
  have r: "reap demo_layout (procs s1) (ram s1) = Ok (procs s1, ram s1)"
    using t(6) by (intro reap_none) (simp add: ps drop_zombie_def)
  have sc: "scan (procs s1) (next_slot s1) [0..<length (procs s1)] = Ok (Some 0)"
    using t(6) by (simp add: ps s1(3) slot_at_def is_runnable_def usize_max_eq)
  have "ptab (procs s1) 0 = Some q" by (simp add: ps ptab_def)
  from turn_Some [OF idle r sc this t(7)] obtain u where u: "scheduler_turn demo_layout s1 = Ok (Some 0, u)"
    by (simp add: usize_max_eq)
  have d: "yield_now s = Ok (Switch K_yield, t) \<or> sleep 0 (push_off s) = Ok t" using t(1) by simp
  from switch_roundtrip [OF s(4,3) d s1(1) away_refl i1(2) u] obtain p where
    "ptab (procs u) 0 = Some p" "hart u = hart s" "sched_intena p = intr_get (csr s)" by blast
  with t(1) s1(1) u show ?thesis by (intro exI [of _ s] exI [of _ t] exI [of _ s1] exI [of _ u] exI [of _ p] conjI)
qed

end
