(* ===== verification/Self_Ops.thy ===== *)
theory Self_Ops
  imports Round_Robin
begin

text \<open>
  What a process can do to its own record: the break of its heap and its table of open files.
  \<open>with_current_run\<close> evaluates the bracket; the properties are about the closures inside it.
\<close>

lemma with_current_run:
  assumes "irq_idle s" and "current s = Some i" and "ptab (procs s) i = Some p" and "f p = Ok (x, p')"
  shows "with_current f s = Ok (Some x, set_proc i p' (s\<lparr>intena := intr_get (csr s)\<rparr>))"
proof -
  note irq = irq_idleD [OF assms(1)]
  have "pop_off (set_proc i p' (push_off s)) = Ok (set_proc i p' (s\<lparr>intena := intr_get (csr s)\<rparr>))"
    using assms(1) by (subst pop_pushed [OF irq]) (simp_all add: set_proc_def push_off_eq irq_idle_def)
  then show ?thesis using assms push_off_masks [OF irq(1)]
    by (simp add: with_current_def Let_def sched_data_def ptab_slot_at)
qed

text \<open>The process in the current slot, and that an operation changed that process only.\<close>

definition runs :: "nat \<Rightarrow> process \<Rightarrow> 'a sched_scheme \<Rightarrow> bool" where
  "runs i p s \<longleftrightarrow> irq_idle s \<and> current s = Some i \<and> ptab (procs s) i = Some p"

lemma runs_set:
  assumes "runs i p s"
  shows "runs i p' (set_proc i p' (s\<lparr>intena := b\<rparr>))"
  using assms ptab_update [of "procs s" i p "Some p'"]
  by (simp add: runs_def set_proc_def irq_idle_def irq_ok_def)

lemma runs_with_current:
  assumes "runs i p s" and "f p = Ok (x, p')"
  shows "\<exists>s'. with_current f s = Ok (Some x, s') \<and> runs i p' s' \<and> procs s' = (procs s)[i := Some p'] \<and>
     csr s' = csr s \<and> ram s' = ram s"
  using with_current_run [of s i p f x p'] runs_set [OF assms(1)] assms by (simp add: runs_def set_proc_def)

lemma same_slot: "runs i p s \<Longrightarrow> (procs s)[i := Some p] = procs s"
  by (simp add: runs_def ptab_def list_update_same_conv split: if_splits)

lemma fd_lookup_run:
  assumes "runs i p s"
  shows "\<exists>s'. fd_lookup fd s = Ok (map_option (\<lambda>e. (file_idx e, fd_offset e)) (fd_entry_of fd p), s') \<and>
     runs i p s' \<and> procs s' = procs s \<and> ram s' = ram s"
proof -
  from runs_with_current [OF assms, of "\<lambda>p. Ok (map_option (\<lambda>e. (file_idx e, fd_offset e)) (fd_entry_of fd p), p)"]
  obtain s' where "with_current (\<lambda>p. Ok (map_option (\<lambda>e. (file_idx e, fd_offset e)) (fd_entry_of fd p), p)) s =
      Ok (Some (map_option (\<lambda>e. (file_idx e, fd_offset e)) (fd_entry_of fd p)), s')" "runs i p s'"
    "procs s' = (procs s)[i := Some p]" "ram s' = ram s" by auto
  then show ?thesis by (simp add: fd_lookup_def same_slot [OF assms])
qed

text \<open>Going to sleep, up to the switch.\<close>

lemma sleep_eq:
  assumes "runs i p s"
  shows "sleep c (push_off s) =
    Ok ((set_proc i (p\<lparr>pstate := Sleeping c, sched_intena := intena (push_off s), pcontext := hart s\<rparr>) (push_off s))\<lparr>hart := scheduler_ctx s\<rparr>)"
proof -
  have idle: "irq_idle s" and cur: "current s = Some i" and p: "ptab (procs s) i = Some p" using assms by (simp_all add: runs_def)
  have n: "noff (push_off s) = 1" "\<not> intr_get (csr (push_off s))" using held_push [OF idle] by (simp_all add: held_def irq_ok_def)
  show ?thesis using n cur p ptab_update [OF p, of "Some (p\<lparr>pstate := Sleeping c\<rparr>)"]
    by (simp add: sleep_def sched_out_def sched_data_def set_current_state_def ptab_slot_at set_proc_def holding_one_def
        expectR_def assertR_def saved_intena_def)
qed

section \<open>Properties\<close>

text \<open>
  C38. Growing the heap.  For every request, however large, \<open>sbrk\<close> returns: the old break, with the
  break moved up by exactly the request, when the new break is within \<open>USER_HEAP_MAX\<close>, and \<open>usize::MAX\<close>,
  with nothing changed, otherwise.  No other process is touched.
\<close>

theorem sbrk_correct:
  assumes "runs i p s" and "heap_brk p \<le> USER_HEAP_MAX"
  shows "\<exists>s'. sbrk delta s =
       Ok (if heap_brk p + delta \<le> USER_HEAP_MAX then heap_brk p else usize_max, s') \<and>
     procs s' = (procs s)[i := Some (if heap_brk p + delta \<le> USER_HEAP_MAX
                                     then p\<lparr>heap_brk := heap_brk p + delta\<rparr> else p)]"
proof -
  have "USER_HEAP_MAX \<le> usize_max" by (simp add: USER_HEAP_MAX_def usize_max_eq)
  then have "sbrk_body delta p =
      Ok (if heap_brk p + delta \<le> USER_HEAP_MAX then heap_brk p else usize_max,
          if heap_brk p + delta \<le> USER_HEAP_MAX then p\<lparr>heap_brk := heap_brk p + delta\<rparr> else p)"
    by (auto simp: sbrk_body_def Let_def checked_add_def)
  from runs_with_current [where f = "sbrk_body delta", OF assms(1) this] show ?thesis by (auto simp: sbrk_def)
qed

theorem sbrk_correct_witness:
  "\<exists>s'. sbrk 4096 ((demo_sched 1)\<lparr>current := Some 0\<rparr>) = Ok (0, s')"
proof -
  have r: "runs 0 (demo_process 1) ((demo_sched 1)\<lparr>current := Some 0\<rparr>)"
    using demo_inv [of 1] demo_slots [of 1 0] by (simp add: runs_def sched_inv_def irq_idle_def irq_ok_def usize_max_eq)
  have b: "heap_brk (demo_process 1) = 0" by (simp add: demo_process_def new_process_def)
  from sbrk_correct [OF r, of 4096] b show ?thesis by (auto simp: USER_HEAP_MAX_def)
qed



end
