(* ===== verification/User_Copy.thy ===== *)
theory User_Copy
  imports Syscall Self_Ops Uservm
begin

text \<open>
  The boundary between the kernel and user memory: \<open>copy_from_user\<close> and \<open>copy_to_user\<close> of
  \<open>src/src/syscall.rs\<close>, for arbitrary pointers and lengths.  The loop over the pages of the range decides
  whether the whole range is user memory, and once it has, no access faults, so the kernel survives
  any argument.
\<close>

section \<open>Pages of a range\<close>

text \<open>An address is user memory with the wanted bits; its physical address.\<close>

definition user_page :: "usize list \<Rightarrow> memory \<Rightarrow> usize \<Rightarrow> usize \<Rightarrow> bool" where
  "user_page need m r va = (case pte_of m r va of None \<Rightarrow> False | Some e \<Rightarrow> list_all (\<lambda>b. e AND b \<noteq> 0) need)"

definition paddr :: "memory \<Rightarrow> usize \<Rightarrow> usize \<Rightarrow> usize" where
  "paddr m r va = (case pte_of m r va of None \<Rightarrow> 0 | Some e \<Rightarrow> pte_to_pa e + va mod PAGE_SIZE)"

lemma user_page_same: "va div PAGE_SIZE = w div PAGE_SIZE \<Longrightarrow> user_page need m r va = user_page need m r w"
  using pte_of_page [of va w m r] by (simp add: user_page_def)

lemma page_floor:
  assumes "ptr \<le> usize_max"
  shows "ptr AND unot (PAGE_SIZE - 1) = ptr - ptr mod PAGE_SIZE"
  using and_unot_mask [OF assms, of 12] by (simp add: PAGE_SIZE_def)

lemma translate_user:
  "va < VA_MAX \<Longrightarrow> translate r va s =
     Ok (map_option (\<lambda>e. (pte_to_pa e + va mod PAGE_SIZE, e)) (pte_of (mem s) r va))"
  using pte_to_pa_or_offset [of "va mod PAGE_SIZE"] by (simp add: translate_eq PAGE_SIZE_def)

lemma same_page_range:
  assumes "PAGE_SIZE dvd page" and "page \<le> va" and "va < page + PAGE_SIZE"
  shows "va div PAGE_SIZE = page div PAGE_SIZE"
proof -
  obtain k where k: "page = PAGE_SIZE * k" using assms(1) by (elim dvdE)
  have "va div PAGE_SIZE = k" using assms(2,3) unfolding k PAGE_SIZE_def by linarith
  then show ?thesis by (simp add: k PAGE_SIZE_def)
qed

lemma check_pages_correct:
  assumes "PAGE_SIZE dvd page" and "stop \<le> VA_MAX"
  shows "check_pages need r page stop s =
     Ok (\<forall>va. page \<le> va \<and> va < stop \<longrightarrow> user_page need (mem s) r va)"
  using assms
proof (induction need r page stop s rule: check_pages.induct)
  case (1 need r page stop s)
  show ?case
  proof (cases "page < stop")
    case False
    then have "(\<forall>va. page \<le> va \<and> va < stop \<longrightarrow> user_page need (mem s) r va) = True" by auto
    with False show ?thesis by (subst check_pages.simps) (simp only:, simp)
  next
    case True
    then have va: "page < VA_MAX" using "1.prems"(2) by linarith
    note t = translate_user [OF va, of r s]
    show ?thesis
    proof (cases "user_page need (mem s) r page")
      case False
      with True have f: "(\<forall>va. page \<le> va \<and> va < stop \<longrightarrow> user_page need (mem s) r va) = False" by blast
      have "check_pages need r page stop s = Ok False"
        using False True t by (subst check_pages.simps)
          (auto simp: user_page_def list_all_iff list_ex_iff split: option.splits)
      with f show ?thesis by (simp only:)
    next
      case U: True
      then obtain e where e: "pte_of (mem s) r page = Some e" "list_all (\<lambda>b. e AND b \<noteq> 0) need"
        by (auto simp: user_page_def split: option.splits)
      have nb: "\<not> list_ex (\<lambda>b. e AND b = 0) need" using e(2) by (simp add: list_all_iff list_ex_iff)
      have add: "uadd page PAGE_SIZE = Ok (page + PAGE_SIZE)"
        using va unfolding pte_pow by (intro uadd_Ok) (simp add: PAGE_SIZE_def usize_max_eq)
      have "check_pages need r page stop s = check_pages need r (page + PAGE_SIZE) stop s"
        using True t e(1) nb add by (subst check_pages.simps) simp
      also have "\<dots> = Ok (\<forall>va. page + PAGE_SIZE \<le> va \<and> va < stop \<longrightarrow> user_page need (mem s) r va)"
        using "1.IH" [OF True _ _ _ nb add] t e(1) "1.prems" by simp
      also have "(\<forall>va. page + PAGE_SIZE \<le> va \<and> va < stop \<longrightarrow> user_page need (mem s) r va) =
          (\<forall>va. page \<le> va \<and> va < stop \<longrightarrow> user_page need (mem s) r va)" (is "?l = ?r")
      proof
        assume l: ?l
        show ?r
        proof (intro allI impI)
          fix va assume "page \<le> va \<and> va < stop"
          then show "user_page need (mem s) r va"
            using l U user_page_same [OF same_page_range [OF "1.prems"(1)], of va need]
            by (cases "va < page + PAGE_SIZE") auto
        qed
      qed (auto simp: PAGE_SIZE_def)
      finally show ?thesis .
    qed
  qed
qed

section \<open>The accesses\<close>

lemma mmu_user:
  assumes "user_page [PTE_U, need] (mem m) (satp_root c) va" and "va < VA_MAX"
    and "sstatus c AND SSTATUS_SUM \<noteq> 0" and "satp_root c \<noteq> 0"
  shows "mmu need c m va = Some (paddr (mem m) (satp_root c) va)"
proof -
  have "satp c \<noteq> 0"
  proof
    assume "satp c = 0"
    with assms(4) show False by (simp add: satp_root_def ushl_def)
  qed
  then show ?thesis using assms(1-3) by (auto simp: mmu_def translate_user user_page_def paddr_def split: option.splits)
qed

lemma load_bytes_user:
  assumes "sstatus c AND SSTATUS_SUM \<noteq> 0" and "satp_root c \<noteq> 0"
    and "\<forall>i\<in>set is. ptr + i < VA_MAX \<and> user_page [PTE_U, PTE_R] (mem m) (satp_root c) (ptr + i)"
  shows "load_bytes ptr is c m = Ok (map (\<lambda>i. mem m (paddr (mem m) (satp_root c) (ptr + i))) is)"
  using assms(3)
proof (induction "is")
  case (Cons i "is")
  have "ptr + i \<le> usize_max" using Cons.prems unfolding pte_pow by (simp add: usize_max_eq)
  with Cons show ?case by (simp add: mmu_load_def mmu_user [OF _ _ assms(1,2)])
qed simp

lemma with_sum_pure:
  assumes "sstatus c \<le> usize_max" and "f (c\<lparr>sstatus := csr_set (sstatus c) SSTATUS_SUM\<rparr>) = Ok x"
  shows "with_sum (\<lambda>c. bindR (f c) (\<lambda>x. Ok (x, c))) c = Ok (x, c)"
proof (cases "sstatus c AND SSTATUS_SUM \<noteq> 0")
  case True
  then have "csr_set (sstatus c) SSTATUS_SUM = sstatus c"
    by (intro bit_eqI) (auto simp: bit_sstatus_set sstatus_test)
  then show ?thesis using True assms(2) by (simp add: with_sum_def)
next
  case False
  have "csr_set (sstatus c) SSTATUS_SUM \<le> usize_max"
    unfolding sstatus_pow using assms(1) by (intro csr_set_le) simp_all
  then have "csr_clear (csr_set (sstatus c) SSTATUS_SUM) SSTATUS_SUM = sstatus c"
    using False by (intro bit_eqI) (auto simp: bit_sstatus_set bit_sstatus_clear sstatus_test)
  then show ?thesis using False assms(2) by (simp add: with_sum_def)
qed

lemma sum_set: "csr_set x SSTATUS_SUM AND SSTATUS_SUM \<noteq> 0"
  by (simp add: sstatus_test bit_sstatus_set)

lemma with_current_read:
  assumes "runs i p s"
  shows "with_current (\<lambda>p. Ok (f p, p)) s = Ok (Some (f p), s\<lparr>intena := intr_get (csr s)\<rparr>)"
proof -
  have "with_current (\<lambda>p. Ok (f p, p)) s = Ok (Some (f p), set_proc i p (s\<lparr>intena := intr_get (csr s)\<rparr>))"
    using assms by (intro with_current_run) (auto simp: runs_def)
  moreover have "set_proc i p (s\<lparr>intena := intr_get (csr s)\<rparr>) = s\<lparr>intena := intr_get (csr s)\<rparr>"
    using assms by (intro set_proc_same) (simp add: runs_def)
  ultimately show ?thesis by simp
qed

lemma current_root_run: "runs i p s \<Longrightarrow> current_root s = Ok (page_table p, s\<lparr>intena := intr_get (csr s)\<rparr>)"
  using with_current_read [of i p s page_table] by (simp add: current_root_def)

text \<open>The pages a range touches, the whole first page included.\<close>

definition user_range :: "usize list \<Rightarrow> memory \<Rightarrow> usize \<Rightarrow> usize \<Rightarrow> usize \<Rightarrow> bool" where
  "user_range need m r ptr len \<longleftrightarrow> ptr + len \<le> VA_MAX \<and>
     (\<forall>va. ptr - ptr mod PAGE_SIZE \<le> va \<and> va < ptr + len \<longrightarrow> user_page need m r va)"

lemma check_range:
  assumes "ptr + len \<le> VA_MAX"
  shows "check_pages need r (ptr AND unot (PAGE_SIZE - 1)) (ptr + len) s = Ok (user_range need (mem s) r ptr len)"
proof -
  have u: "ptr \<le> usize_max" using assms unfolding pte_pow by (simp add: usize_max_eq)
  have "PAGE_SIZE dvd ptr - ptr mod PAGE_SIZE" by (rule dvd_minus_mod)
  from check_pages_correct [OF this assms] show ?thesis unfolding page_floor [OF u] user_range_def using assms by simp
qed

lemma user_range_page: "user_range need m r ptr len \<Longrightarrow> i < len \<Longrightarrow> ptr + i < VA_MAX \<and> user_page need m r (ptr + i)"
  by (auto simp: user_range_def intro: trans_le_add1)

text \<open>What the kernel knows of the table a user process runs on: it is the one in \<open>satp\<close>, and every user
  page of it can be read.\<close>

definition user_space :: "process \<Rightarrow> 'a sched_scheme \<Rightarrow> bool" where
  "user_space p s \<longleftrightarrow> satp_root (csr s) = page_table p \<and> page_table p \<noteq> 0 \<and>
     (\<forall>va e. va < VA_MAX \<longrightarrow> pte_of (mem (ram s)) (page_table p) va = Some e \<longrightarrow> e AND PTE_U \<noteq> 0 \<longrightarrow>
        e AND PTE_R \<noteq> 0)"

lemma user_page_readable:
  "user_space p s \<Longrightarrow> va < VA_MAX \<Longrightarrow> user_page [PTE_U] (mem (ram s)) (page_table p) va \<Longrightarrow>
   user_page [PTE_U, PTE_R] (mem (ram s)) (page_table p) va"
  by (auto simp: user_space_def user_page_def split: option.splits)

lemma copy_from_user_run:
  assumes "runs i p s" and "user_space p s"
  shows "copy_from_user ptr len s =
     Ok (if user_range [PTE_U] (mem (ram s)) (page_table p) ptr len
         then Some (map (\<lambda>k. mem (ram s) (paddr (mem (ram s)) (page_table p) (ptr + k))) [0..<len]) else None,
         if ptr + len \<le> VA_MAX then s\<lparr>intena := intr_get (csr s)\<rparr> else s)"
proof (cases "ptr + len \<le> VA_MAX")
  case False
  then have "case checked_add ptr len of None \<Rightarrow> True | Some n \<Rightarrow> n > VA_MAX" by (auto simp: checked_add_def)
  with False show ?thesis by (auto simp: copy_from_user_def user_range_def split: option.splits)
next
  case True
  let ?s = "s\<lparr>intena := intr_get (csr s)\<rparr>" and ?r = "page_table p"
  have c: "checked_add ptr len = Some (ptr + len)" using True unfolding pte_pow by (simp add: checked_add_def usize_max_eq)
  note cr = current_root_run [OF assms(1)] and ck = check_range [OF True, of "[PTE_U]" ?r "ram s"]
  show ?thesis
  proof (cases "user_range [PTE_U] (mem (ram s)) ?r ptr len")
    case False
    then show ?thesis using c True cr ck by (simp add: copy_from_user_def)
  next
    case range: True
    let ?c = "(csr s)\<lparr>sstatus := csr_set (sstatus (csr s)) SSTATUS_SUM\<rparr>"
    have root: "satp_root ?c = ?r" "?r \<noteq> 0" using assms(2) by (simp_all add: user_space_def satp_root_def)
    have "\<forall>k\<in>set [0..<len]. ptr + k < VA_MAX \<and> user_page [PTE_U, PTE_R] (mem (ram s)) (satp_root ?c) (ptr + k)"
      unfolding root(1) using user_range_page [OF range] user_page_readable [OF assms(2)] by simp
    from load_bytes_user [OF _ _ this] have l: "load_bytes ptr [0..<len] ?c (ram s) =
        Ok (map (\<lambda>k. mem (ram s) (paddr (mem (ram s)) ?r (ptr + k))) [0..<len])"
      unfolding root(1) using root(2) by (simp add: sum_set)
    have "sstatus (csr s) \<le> usize_max" using assms(1) by (simp add: runs_def irq_idle_def irq_ok_def)
    from with_sum_pure [OF this, where f = "\<lambda>c. load_bytes ptr [0..<len] c (ram s)", OF l]
    show ?thesis using c True cr ck range by (simp add: copy_from_user_def)
  qed
qed


section \<open>Writing to user memory\<close>

text \<open>The frames of writable user pages hold no page table, so that a store does not change the
  translation of the following ones.\<close>

definition frames_apart :: "layout \<Rightarrow> memory \<Rightarrow> usize \<Rightarrow> bool" where
  "frames_apart L m r \<longleftrightarrow> pt_wf L m r \<and>
     (\<forall>va e. va < VA_MAX \<longrightarrow> pte_of m r va = Some e \<longrightarrow> e AND PTE_U \<noteq> 0 \<longrightarrow> e AND PTE_W \<noteq> 0 \<longrightarrow> pte_to_pa e \<notin> tabs m r)"

lemma store_keeps:
  fixes b :: u8
  assumes "frames_apart L m r" and "user_page [PTE_U, PTE_W] m r va" and "va < VA_MAX"
  defines "m' \<equiv> m(paddr m r va := b)"
  shows "tabs m' r = tabs m r" and "pte_of m' r w = pte_of m r w" and "frames_apart L m' r"
proof -
  from assms(2) obtain e where e: "pte_of m r va = Some e" "e AND PTE_U \<noteq> 0" "e AND PTE_W \<noteq> 0"
    by (auto simp: user_page_def split: option.splits)
  have off: "va mod PAGE_SIZE < PAGE_SIZE" by (simp add: PAGE_SIZE_def)
  have "ent m' t i = ent m t i" if "t \<in> tabs m r" "i < 512" for t i
  proof (rule ent_cong)
    fix a assume a: "t \<le> a" "a < t + PAGE_SIZE"
    have "page_aligned t" using assms(1) that(1) by (auto simp: frames_apart_def pt_wf_def alloc_page_def)
    moreover have "pte_to_pa e \<noteq> t" using assms(1,3) e that(1) by (auto simp: frames_apart_def)
    ultimately have "a \<noteq> pte_to_pa e + va mod PAGE_SIZE"
      using pages_disjoint [of t "pte_to_pa e" a] page_aligned_pte_to_pa [of e] off a by auto
    then show "m' a = m a" using e(1) by (simp add: m'_def paddr_def)
  qed (rule that(2))
  from pt_frame [of m r m', OF this] assms(1)
  show "tabs m' r = tabs m r" "pte_of m' r w = pte_of m r w" "frames_apart L m' r"
    by (auto simp: frames_apart_def)
qed

definition poke :: "memory \<Rightarrow> usize \<Rightarrow> usize \<Rightarrow> (nat \<times> u8) list \<Rightarrow> memory \<Rightarrow> memory" where
  "poke m r ptr ibs m0 = fold (\<lambda>(i, b) f. f(paddr m r (ptr + i) := b)) ibs m0"

lemma poke_cong: "(\<And>w. pte_of m' r w = pte_of m r w) \<Longrightarrow> poke m' r ptr ibs m0 = poke m r ptr ibs m0"
  by (simp add: poke_def paddr_def)

lemma frames_apart_root: "frames_apart L m r \<Longrightarrow> r \<noteq> 0"
  using root_in_tabs [of r m] by (force simp: frames_apart_def pt_wf_def alloc_page_def alloc_start_def HEAP_SIZE_def)

lemma store_bytes_user:
  assumes "sstatus c AND SSTATUS_SUM \<noteq> 0" and "frames_apart L (mem m) (satp_root c)"
    and "\<forall>i<length bs. ptr + k + i < VA_MAX \<and> user_page [PTE_U, PTE_W] (mem m) (satp_root c) (ptr + k + i)"
  shows "store_bytes ptr k bs c m = Ok (m\<lparr>mem := poke (mem m) (satp_root c) ptr (enumerate k bs) (mem m)\<rparr>)"
  using assms(2,3)
proof (induction bs arbitrary: k m)
  case Nil
  then show ?case by (simp add: poke_def)
next
  case (Cons b bs)
  let ?r = "satp_root c"
  have p: "ptr + k < VA_MAX" "user_page [PTE_U, PTE_W] (mem m) ?r (ptr + k)" using Cons.prems(2) by auto
  have u: "ptr + k \<le> usize_max" using p(1) unfolding pte_pow by (simp add: usize_max_eq)
  let ?m = "m\<lparr>mem := (mem m)(paddr (mem m) ?r (ptr + k) := b)\<rparr>"
  note sk = store_keeps [OF Cons.prems(1) p(2,1), of b]
  have "user_page [PTE_U, PTE_W] (mem ?m) ?r w = user_page [PTE_U, PTE_W] (mem m) ?r w" for w
    using sk(2) [of w] by (simp add: user_page_def)
  then have "\<forall>i<length bs. ptr + Suc k + i < VA_MAX \<and> user_page [PTE_U, PTE_W] (mem ?m) ?r (ptr + Suc k + i)"
    using Cons.prems(2) by (metis Suc_less_eq add_Suc add_Suc_right length_Cons)
  note n = this
  have "frames_apart L (mem ?m) ?r" using sk(3) by (simp del: fun_upd_apply)
  note IH = Cons.IH [OF this n]
  have "poke (mem ?m) ?r ptr (enumerate (Suc k) bs) (mem ?m) = poke (mem m) ?r ptr (enumerate k (b # bs)) (mem m)"
    using poke_cong [of "mem ?m" ?r "mem m"] sk(2) by (simp add: poke_def)
  with IH show ?case using u mmu_user [OF p(2,1) assms(1) frames_apart_root [OF Cons.prems(1)]] by (simp add: mmu_store_def del: fun_upd_apply)
qed

lemma poke_outside: "(\<And>i. i \<in> fst ` set ibs \<Longrightarrow> a \<noteq> paddr m r (ptr + i)) \<Longrightarrow> poke m r ptr ibs m0 a = m0 a"
  by (induction ibs arbitrary: m0) (auto simp: poke_def)

lemma poke_inside:
  assumes "inj_on (\<lambda>i. paddr m r (ptr + i)) {k..<k + length bs}" and "i < length bs"
  shows "poke m r ptr (enumerate k bs) m0 (paddr m r (ptr + (k + i))) = bs ! i"
  using assms
proof (induction bs arbitrary: k i m0)
  case (Cons b bs)
  show ?case
  proof (cases i)
    case 0
    have "poke m r ptr (enumerate (Suc k) bs) (m0(paddr m r (ptr + k) := b)) (paddr m r (ptr + k)) = b"
    proof (subst poke_outside)
      fix j assume "j \<in> fst ` set (enumerate (Suc k) bs)"
      then have "Suc k \<le> j" "j < Suc k + length bs" by (auto simp: in_set_enumerate_eq)
      then show "paddr m r (ptr + k) \<noteq> paddr m r (ptr + j)"
        using inj_onD [OF Cons.prems(1), of k j] by auto
    qed simp
    then show ?thesis using 0 by (simp add: poke_def)
  next
    case (Suc j)
    have "inj_on (\<lambda>i. paddr m r (ptr + i)) {Suc k..<Suc k + length bs}"
      using Cons.prems(1) by (rule inj_on_subset) auto
    from Cons.IH [OF this, of j] Cons.prems(2) Suc show ?thesis by (simp add: poke_def)
  qed
qed simp

lemma copy_to_user_run:
  assumes "runs i p s" and "satp_root (csr s) = page_table p" and "frames_apart L (mem (ram s)) (page_table p)"
  shows "copy_to_user ptr src s =
     (if user_range [PTE_U, PTE_W] (mem (ram s)) (page_table p) ptr (length src)
      then Ok (Some (length src), s\<lparr>intena := intr_get (csr s),
             ram := (ram s)\<lparr>mem := poke (mem (ram s)) (page_table p) ptr (enumerate 0 src) (mem (ram s))\<rparr>\<rparr>)
      else Ok (None, if ptr + length src \<le> VA_MAX then s\<lparr>intena := intr_get (csr s)\<rparr> else s))"
proof (cases "ptr + length src \<le> VA_MAX")
  case False
  then have "case checked_add ptr (length src) of None \<Rightarrow> True | Some n \<Rightarrow> n > VA_MAX" by (auto simp: checked_add_def)
  with False show ?thesis by (auto simp: copy_to_user_def user_range_def split: option.splits)
next
  case True
  let ?r = "page_table p" and ?n = "length src"
  have c: "checked_add ptr ?n = Some (ptr + ?n)" using True unfolding pte_pow by (simp add: checked_add_def usize_max_eq)
  note cr = current_root_run [OF assms(1)] and ck = check_range [OF True, of "[PTE_U, PTE_W]" ?r "ram s"]
  show ?thesis
  proof (cases "user_range [PTE_U, PTE_W] (mem (ram s)) ?r ptr ?n")
    case False
    then show ?thesis using c True cr ck by (simp add: copy_to_user_def)
  next
    case range: True
    let ?c = "(csr s)\<lparr>sstatus := csr_set (sstatus (csr s)) SSTATUS_SUM\<rparr>"
    have root: "satp_root ?c = ?r" using assms(2) by (simp add: satp_root_def)
    have "\<forall>k<?n. ptr + 0 + k < VA_MAX \<and> user_page [PTE_U, PTE_W] (mem (ram s)) (satp_root ?c) (ptr + 0 + k)"
      unfolding root using user_range_page [OF range] by simp
    from store_bytes_user [OF _ _ this] assms(3) have l: "store_bytes ptr 0 src ?c (ram s) =
        Ok ((ram s)\<lparr>mem := poke (mem (ram s)) ?r ptr (enumerate 0 src) (mem (ram s))\<rparr>)"
      unfolding root by (simp add: sum_set)
    have "sstatus (csr s) \<le> usize_max" using assms(1) by (simp add: runs_def irq_idle_def irq_ok_def)
    from with_sum_pure [OF this, where f = "\<lambda>c. store_bytes ptr 0 src c (ram s)", OF l]
    show ?thesis using c True cr ck range by (simp add: copy_to_user_def)
  qed
qed

end
