(* ===== verification/User_Mem.thy ===== *)
theory User_Mem
  imports Isolation User_Copy
begin

text \<open>
  The kernel's accesses to user memory, seen by the process: \<open>copy_from_user\<close> reads its view and
  \<open>copy_to_user\<close> writes it (\<open>src/src/syscall.rs\<close>), \<open>service_page_fault\<close> adds a zeroed page of the heap to it
  (\<open>src/src/proc.rs\<close>).  The pointers and lengths are arbitrary: a range that is not wholly user memory is refused.
\<close>

section \<open>The space of the current process\<close>

definition proc_space :: "layout \<Rightarrow> process \<Rightarrow> 'a sched_scheme \<Rightarrow> bool" where
  "proc_space L p s \<longleftrightarrow> satp_root (csr s) = page_table p \<and> aspace L (kernel_root s) (page_table p) (ram s) \<and>
     kspace L (kernel_root s) (ram s) \<and> kernel_private (mem (ram s)) (kernel_root s)"

definition pview :: "process \<Rightarrow> 'a sched_scheme \<Rightarrow> usize \<Rightarrow> (usize \<times> u8) option" where
  "pview p s = uview (mem (ram s)) (page_table p)"

text \<open>A range of a view: the page loop starts at the page of the first address.\<close>

definition readable :: "(usize \<Rightarrow> (usize \<times> u8) option) \<Rightarrow> usize \<Rightarrow> usize \<Rightarrow> bool" where
  "readable V ptr len \<longleftrightarrow> ptr + len \<le> VA_MAX \<and>
     (\<forall>va. ptr - ptr mod PAGE_SIZE \<le> va \<and> va < ptr + len \<longrightarrow> V va \<noteq> None)"

definition writable :: "(usize \<Rightarrow> (usize \<times> u8) option) \<Rightarrow> usize \<Rightarrow> usize \<Rightarrow> bool" where
  "writable V ptr len \<longleftrightarrow> ptr + len \<le> VA_MAX \<and>
     (\<forall>va. ptr - ptr mod PAGE_SIZE \<le> va \<and> va < ptr + len \<longrightarrow>
        (case V va of None \<Rightarrow> False | Some (perm, _) \<Rightarrow> perm AND PTE_W \<noteq> 0))"

definition peek :: "(usize \<Rightarrow> (usize \<times> u8) option) \<Rightarrow> usize \<Rightarrow> usize \<Rightarrow> u8 list" where
  "peek V ptr len = map (\<lambda>k. snd (the (V (ptr + k)))) [0..<len]"

definition overwrite :: "(usize \<Rightarrow> (usize \<times> u8) option) \<Rightarrow> usize \<Rightarrow> u8 list \<Rightarrow> usize \<Rightarrow> (usize \<times> u8) option" where
  "overwrite V ptr bs va =
     (if ptr \<le> va \<and> va < ptr + length bs then map_option (\<lambda>(perm, _). (perm, bs ! (va - ptr))) (V va) else V va)"

lemma open_page:
  assumes A: "aspace L kr r s" and p: "kernel_private (mem s) kr" and va: "va < VA_MAX" "pte_of (mem s) r va = Some e" "e AND PTE_U \<noteq> 0"
  shows "user_va va"
proof (rule ccontr)
  assume n: "\<not> user_va va"
  then have "vpn va 2 \<noteq> 1" using vpn_user_va va(1) by blast
  then have "pte_of (mem s) r va = pte_of (mem s) kr va" using aspaceD(2) [OF A vpn_less] by (intro pte_of_shared)
  then show False using p va by (simp add: kernel_private_def)
qed

lemma perm_bits: "0 < i \<Longrightarrow> i < 5 \<Longrightarrow> bit (e AND PERM_MASK) i \<longleftrightarrow> bit (e :: usize) i"
  by (simp add: bit_and_iff bit_PERM_MASK)

lemma user_page_view:
  assumes A: "aspace L kr r s" and p: "kernel_private (mem s) kr" and va: "va < VA_MAX"
  shows "user_page [PTE_U] (mem s) r va \<longleftrightarrow> uview (mem s) r va \<noteq> None"
    and "user_page [PTE_U, PTE_W] (mem s) r va \<longleftrightarrow>
      (case uview (mem s) r va of None \<Rightarrow> False | Some (perm, _) \<Rightarrow> perm AND PTE_W \<noteq> 0)"
    and "uview (mem s) r va = Some (perm, b) \<Longrightarrow> mem s (paddr (mem s) r va) = b"
    and "user_page [PTE_U] (mem s) r va \<Longrightarrow> user_va va"
proof -
  have U: "e AND PTE_U \<noteq> 0 \<longleftrightarrow> user_va va" if "pte_of (mem s) r va = Some e" for e
    using aspaceD(9) [OF A _ that] open_page [OF A p va that] by (auto simp: user_pte_def)
  show "user_page [PTE_U] (mem s) r va \<longleftrightarrow> uview (mem s) r va \<noteq> None"
    "user_page [PTE_U] (mem s) r va \<Longrightarrow> user_va va"
    using U by (auto simp: user_page_def uview_def split: option.splits)
  show "user_page [PTE_U, PTE_W] (mem s) r va \<longleftrightarrow>
      (case uview (mem s) r va of None \<Rightarrow> False | Some (perm, _) \<Rightarrow> perm AND PTE_W \<noteq> 0)"
    using U perm_bits [of 2] by (auto simp: user_page_def uview_def pte_test simp del: neq0_conv split: option.splits)
  show "mem s (paddr (mem s) r va) = b" if "uview (mem s) r va = Some (perm, b)"
    using that by (auto simp: uview_def paddr_def split: if_splits option.splits)
qed

lemma below_max_cong:
  assumes "\<And>va. va < VA_MAX \<Longrightarrow> A va = B va"
  shows "stop \<le> VA_MAX \<and> (\<forall>va. lo \<le> va \<and> va < stop \<longrightarrow> A va) \<longleftrightarrow> stop \<le> VA_MAX \<and> (\<forall>va. lo \<le> va \<and> va < stop \<longrightarrow> B va)"
proof (rule conj_cong [OF refl])
  assume "stop \<le> VA_MAX"
  then have "va < stop \<Longrightarrow> A va = B va" for va using assms [of va] by simp
  then show "(\<forall>va. lo \<le> va \<and> va < stop \<longrightarrow> A va) \<longleftrightarrow> (\<forall>va. lo \<le> va \<and> va < stop \<longrightarrow> B va)" by blast
qed

lemma range_view:
  assumes "aspace L kr r s" and "kernel_private (mem s) kr"
  shows "user_range [PTE_U] (mem s) r ptr len \<longleftrightarrow> readable (uview (mem s) r) ptr len"
    and "user_range [PTE_U, PTE_W] (mem s) r ptr len \<longleftrightarrow> writable (uview (mem s) r) ptr len"
  unfolding user_range_def readable_def writable_def
  by (rule below_max_cong, rule user_page_view(1) [OF assms], assumption)
    (rule below_max_cong, rule user_page_view(2) [OF assms], assumption)

lemma proc_space_user_space:
  assumes "proc_space L p s"
  shows "user_space p s" and "frames_apart L (mem (ram s)) (page_table p)"
proof -
  have A: "aspace L (kernel_root s) (page_table p) (ram s)" and P: "kernel_private (mem (ram s)) (kernel_root s)"
    and S: "satp_root (csr s) = page_table p" using assms by (simp_all add: proc_space_def)
  have u: "user_va va" if "va < VA_MAX" "pte_of (mem (ram s)) (page_table p) va = Some e" "e AND PTE_U \<noteq> 0" for va e
    using open_page [OF A P that] .
  have "pt_wf L (mem (ram s)) (page_table p)" using aspaceD(1) [OF A] by (simp add: vm_inv_def)
  then show fa: "frames_apart L (mem (ram s)) (page_table p)"
    using u aspaceD(6) [OF A] uframesI unfolding frames_apart_def by blast
  show "user_space p s" using u S aspaceD(9) [OF A] frames_apart_root [OF fa] unfolding user_space_def user_pte_def by blast
qed

section \<open>Writes\<close>

lemma paddr_inj:
  assumes A: "aspace L kr r s" and v: "user_va va" "pte_of (mem s) r va \<noteq> None" and w: "user_va w" "pte_of (mem s) r w \<noteq> None"
    and e: "paddr (mem s) r va = paddr (mem s) r w"
  shows "va = w"
proof -
  from v w obtain x y where x: "pte_of (mem s) r va = Some x" and y: "pte_of (mem s) r w = Some y" by auto
  have e': "pte_to_pa x + va mod PAGE_SIZE = pte_to_pa y + w mod PAGE_SIZE" using e x y by (simp add: paddr_def)
  have lt: "va mod PAGE_SIZE < PAGE_SIZE" "w mod PAGE_SIZE < PAGE_SIZE" by (simp_all add: PAGE_SIZE_def)
  have "pte_to_pa x = pte_to_pa y"
  proof (rule ccontr)
    assume "pte_to_pa x \<noteq> pte_to_pa y"
    from pages_disjoint [OF page_aligned_pte_to_pa page_aligned_pte_to_pa this, of "pte_to_pa x + va mod PAGE_SIZE"] e' lt
    show False by auto
  qed
  then have "va mod PAGE_SIZE = w mod PAGE_SIZE" "va div PAGE_SIZE = w div PAGE_SIZE"
    using e' aspaceD(8) [OF A v(1) w(1) x y] by simp_all
  then show ?thesis by (metis div_mult_mod_eq)
qed

lemma poke_view:
  assumes A: "aspace L kr r s" and K: "kspace L kr s" and P: "kernel_private (mem s) kr" and W: "writable (uview (mem s) r) ptr (length bs)"
  defines "s' \<equiv> s\<lparr>mem := poke (mem s) r ptr (enumerate 0 bs) (mem s)\<rparr>"
  shows "aspace L kr r s'" "kspace L kr s'" "kernel_private (mem s') kr" "free_list s' = free_list s"
    "uview (mem s') r = overwrite (uview (mem s) r) ptr bs" "owned (mem s') r = owned (mem s) r"
    "\<And>a. mem s' a \<noteq> mem s a \<Longrightarrow> in_pages a (uframes (mem s) r)" "tabs (mem s') kr = tabs (mem s) kr"
proof -
  let ?r = "\<lambda>i. paddr (mem s) r (ptr + i)"
  have in_range: "ptr + i < VA_MAX" "user_va (ptr + i)" "pte_of (mem s) r (ptr + i) \<noteq> None" if "i < length bs" for i
  proof -
    show va: "ptr + i < VA_MAX" using W that by (simp add: writable_def)
    have "ptr - ptr mod PAGE_SIZE \<le> ptr + i" by simp
    then have "uview (mem s) r (ptr + i) \<noteq> None" using W that by (auto simp: writable_def split: option.splits)
    then show "user_va (ptr + i)" "pte_of (mem s) r (ptr + i) \<noteq> None" by (auto simp: uview_def split: if_splits)
  qed
  have fr: "in_pages (paddr (mem s) r va) (uframes (mem s) r)" if "user_va va" "pte_of (mem s) r va \<noteq> None" for va
  proof -
    from that obtain e where e: "pte_of (mem s) r va = Some e" by auto
    have "pte_to_pa e \<le> paddr (mem s) r va" "paddr (mem s) r va < pte_to_pa e + PAGE_SIZE" using e by (simp_all add: paddr_def PAGE_SIZE_def)
    then show ?thesis using uframesI [OF that(1) e] unfolding in_pages_def by blast
  qed
  show ch: "in_pages a (uframes (mem s) r)" if "mem s' a \<noteq> mem s a" for a
  proof -
    have "\<exists>i<length bs. a = ?r i"
    proof (rule ccontr)
      assume "\<not> ?thesis"
      then have "poke (mem s) r ptr (enumerate 0 bs) (mem s) a = mem s a" by (intro poke_outside) (auto simp: in_set_enumerate_eq)
      then show False using that by (simp add: s'_def)
    qed
    then show ?thesis using fr [OF in_range(2,3)] by blast
  qed
  have al: "\<forall>p\<in>uframes (mem s) r. page_aligned p" using owned_free(4) [OF A K] by (auto simp: owned_def)
  have d: "uframes (mem s) r \<inter> set (free_list s) = {}" "uframes (mem s) r \<inter> (utabs (mem s) r \<union> tabs (mem s) kr) = {}"
    using aspaceD(5-7) [OF A] utabs_tabs [of "mem s" r] by auto
  have k: "free_list s' = free_list s" "kalloc_inv L s'"
    using kalloc_frame_pages [OF kspaceD(2) [OF K], of "mem s'" "uframes (mem s) r"] ch al d(1) by (auto simp: s'_def)
  have d2: "set (free_list s') \<inter> (utabs (mem s) r \<union> tabs (mem s) kr \<union> uframes (mem s) r) = {}" using aspace_free [OF A K] k(1) by simp
  have F: "aspace L kr r s'" "kspace L kr s'" "tabs (mem s') kr = tabs (mem s) kr" "utabs (mem s') r = utabs (mem s) r"
    "uframes (mem s') r = uframes (mem s) r" "\<And>va. pte_of (mem s') r va = pte_of (mem s) r va"
    "\<And>va. pte_of (mem s') kr va = pte_of (mem s) kr va"
    using aspace_pages [OF A K k(2) ch al d(2) d2] by blast+
  show "aspace L kr r s'" "kspace L kr s'" "kernel_private (mem s') kr" "free_list s' = free_list s"
    "owned (mem s') r = owned (mem s) r" "tabs (mem s') kr = tabs (mem s) kr"
    using F k P by (simp_all add: owned_def kernel_private_def)
  have inj: "inj_on ?r {0..<0 + length bs}"
  proof (rule inj_onI)
    fix i j assume "i \<in> {0..<0 + length bs}" "j \<in> {0..<0 + length bs}" and e: "?r i = ?r j"
    then have "i < length bs" "j < length bs" by simp_all
    from paddr_inj [OF A in_range(2,3) [OF this(1)] in_range(2,3) [OF this(2)] e] show "i = j" by simp
  qed
  have byte: "mem s' (paddr (mem s) r va) = (if ptr \<le> va \<and> va < ptr + length bs then bs ! (va - ptr) else mem s (paddr (mem s) r va))"
    if va: "user_va va" "pte_of (mem s) r va \<noteq> None" for va
  proof (cases "ptr \<le> va \<and> va < ptr + length bs")
    case True
    then have i: "va - ptr < length bs" "ptr + (0 + (va - ptr)) = va" by auto
    show ?thesis using poke_inside [OF inj i(1), of "mem s"] True unfolding i(2) by (simp add: s'_def)
  next
    case False
    have "paddr (mem s) r va \<noteq> ?r i" if "i \<in> fst ` set (enumerate 0 bs)" for i
    proof -
      have i: "i < length bs" using that by (auto simp: in_set_enumerate_eq)
      show ?thesis using paddr_inj [OF A va in_range(2,3) [OF i]] False i by auto
    qed
    from poke_outside [of "enumerate 0 bs", OF this] False show ?thesis by (auto simp: s'_def)
  qed
  show "uview (mem s') r = overwrite (uview (mem s) r) ptr bs"
  proof
    fix va
    show "uview (mem s') r va = overwrite (uview (mem s) r) ptr bs va"
      using byte [of va] F(6) [of va] by (cases "pte_of (mem s) r va") (auto simp: uview_def overwrite_def paddr_def)
  qed
qed

section \<open>The operations\<close>

lemma runs_ram: "runs i p (s\<lparr>ram := m\<rparr>) \<longleftrightarrow> runs i p s" "runs i p (s\<lparr>intena := b, ram := m\<rparr>) \<longleftrightarrow> runs i p s"
    "runs i p (s\<lparr>intena := b\<rparr>) \<longleftrightarrow> runs i p s"
  by (simp_all add: runs_def irq_idle_def irq_ok_def)

lemma proc_spaceD:
  assumes "proc_space L p s"
  shows "aspace L (kernel_root s) (page_table p) (ram s)" "kspace L (kernel_root s) (ram s)"
    "kernel_private (mem (ram s)) (kernel_root s)" "satp_root (csr s) = page_table p"
  using assms by (simp_all add: proc_space_def)

lemma readable_peek:
  assumes "aspace L kr r s" and "kernel_private (mem s) kr" and "readable (uview (mem s) r) ptr len"
  shows "map (\<lambda>k. mem s (paddr (mem s) r (ptr + k))) [0..<len] = peek (uview (mem s) r) ptr len"
proof -
  have "mem s (paddr (mem s) r (ptr + k)) = snd (the (uview (mem s) r (ptr + k)))" if "k < len" for k
  proof -
    have va: "ptr + k < VA_MAX" "ptr - ptr mod PAGE_SIZE \<le> ptr + k" "ptr + k < ptr + len" using assms(3) that by (auto simp: readable_def)
    then obtain perm b where "uview (mem s) r (ptr + k) = Some (perm, b)" using assms(3) unfolding readable_def by fastforce
    then show ?thesis using user_page_view(3) [OF assms(1,2) va(1)] by simp
  qed
  then show ?thesis by (simp add: peek_def)
qed

lemma page_round:
  assumes "va \<le> usize_max"
  shows "(va AND unot (PAGE_SIZE - 1)) div PAGE_SIZE = va div PAGE_SIZE" and "page_aligned (va AND unot (PAGE_SIZE - 1))"
proof -
  have "va - va mod PAGE_SIZE = va div PAGE_SIZE * PAGE_SIZE" using minus_mod_eq_div_mult [of va PAGE_SIZE] by simp
  then show "(va AND unot (PAGE_SIZE - 1)) div PAGE_SIZE = va div PAGE_SIZE" "page_aligned (va AND unot (PAGE_SIZE - 1))"
    unfolding page_floor [OF assms] by (simp_all add: PAGE_SIZE_def page_aligned_def)
qed

text \<open>Mapping a page when the tables it needs cannot be allocated.\<close>

lemma map_pages_oom:
  assumes "vm_inv L r s" and "va < VA_MAX" and "page_aligned va" and "page_aligned f" and "perm AND PERM_MASK \<noteq> 0"
    and "length (free_list s) < missing (mem s) r va"
  shows "map_pages r va f PAGE_SIZE perm s = Panic ''map_pages: out of pages''"
proof -
  obtain s' where "walk r va True s = Ok (if missing (mem s) r va \<le> length (free_list s)
      then Some (the (tab (mem s') r (va_path va)) + 8 * vpn va 0) else None, s')" by (rule walk_correct [OF assms(1,2)]) (rule that)
  then have w: "walk r va True s = Ok (None, s')" using assms(6) by simp
  have u: "uadd va 0 = Ok va" using assms(2) by (simp add: uadd_def usize_max_eq pte_pow)
  have "map_loop r va f perm [0] s = Panic ''map_pages: out of pages''" using w u by (simp add: expectR_def)
  then show ?thesis using assms(3-5) page_offsets_aligned [of PAGE_SIZE]
    by (simp add: map_pages_def page_aligned_def is_multiple_of_iff PAGE_SIZE_def mod_eq_0_iff_dvd)
qed

lemma service_page_fault_refuse:
  assumes "runs i p s" and "addr < heap_base p \<or> heap_brk p \<le> addr \<or> addr < VA_MAX \<and> pte_of (mem (ram s)) (page_table p) addr \<noteq> None"
  shows "service_page_fault addr s = Ok (False, s\<lparr>intena := intr_get (csr s)\<rparr>)"
proof (cases "addr < heap_base p \<or> heap_brk p \<le> addr")
  case True
  then show ?thesis using with_current_read [OF assms(1), of "\<lambda>p. (heap_base p, heap_brk p, page_table p)"] by (auto simp: service_page_fault_def)
next
  case False
  then have a: "addr < VA_MAX" "pte_of (mem (ram s)) (page_table p) addr \<noteq> None" using assms(2) by auto
  then have u: "addr \<le> usize_max" by (simp add: usize_max_eq pte_pow)
  let ?va = "addr AND unot (PAGE_SIZE - 1)"
  have "?va \<le> addr" unfolding page_floor [OF u] by simp
  then have "?va < VA_MAX" using a(1) by simp
  moreover have "pte_of (mem (ram s)) (page_table p) ?va \<noteq> None" using a(2) pte_of_page [OF page_round(1) [OF u]] by simp
  ultimately have "\<exists>x. translate (page_table p) ?va (ram s) = Ok (Some x)" by (auto simp: translate_eq)
  then show ?thesis using with_current_read [OF assms(1), of "\<lambda>p. (heap_base p, heap_brk p, page_table p)"] False by (auto simp: service_page_fault_def Let_def)
qed

lemma service_page_fault_serve:
  assumes R: "runs i p s" and S: "proc_space L p s" and addr: "heap_base p \<le> addr" "addr < heap_brk p"
    and heap: "USER_HEAP_BASE \<le> heap_base p" "heap_brk p \<le> USER_HEAP_MAX" and un: "pview p s addr = None"
  defines "n \<equiv> length (free_list (ram s))" and "need \<equiv> Suc (missing (mem (ram s)) (page_table p) addr)"
  shows "n = 0 \<Longrightarrow> service_page_fault addr s = Ok (False, s\<lparr>intena := intr_get (csr s)\<rparr>)"
    and "0 < n \<Longrightarrow> n < need \<Longrightarrow> service_page_fault addr s = Panic ''map_pages: out of pages''"
    and "need \<le> n \<Longrightarrow> \<exists>m used. service_page_fault addr s = Ok (True, s\<lparr>intena := intr_get (csr s), ram := m\<rparr>) \<and>
      aspace L (kernel_root s) (page_table p) m \<and> kspace L (kernel_root s) m \<and> tabs (mem m) (kernel_root s) = tabs (mem (ram s)) (kernel_root s) \<and>
      uview (mem m) (page_table p) =
        (\<lambda>w. if w div PAGE_SIZE = addr div PAGE_SIZE then Some (PTE_R OR PTE_W OR PTE_U, 0) else pview p s w) \<and>
      free_list (ram s) = used @ free_list m \<and>
      (\<forall>a. mem m a \<noteq> mem (ram s) a \<longrightarrow> in_pages a (utabs (mem (ram s)) (page_table p) \<union> set used))"
proof -
  let ?va = "addr AND unot (PAGE_SIZE - 1)" and ?r = "page_table p" and ?kr = "kernel_root s" and ?s = "s\<lparr>intena := intr_get (csr s)\<rparr>"
  let ?perm = "PTE_R OR PTE_W OR PTE_U"
  note D = proc_spaceD [OF S]
  have u: "user_va addr" using addr heap by (simp add: user_va_def USER_HEAP_BASE_def USER_HEAP_MAX_def)
  have um: "addr \<le> usize_max" using user_va_max [OF u] by (simp add: usize_max_eq pte_pow)
  note pr = page_round [OF um]
  have uv: "user_va ?va" using user_va_page [OF u pr(1)] .
  have un': "pte_of (mem (ram s)) ?r ?va = None" using un u pte_of_page [OF pr(1)] by (simp add: pview_def uview_def)
  have mis: "missing (mem (ram s)) ?r ?va = missing (mem (ram s)) ?r addr" unfolding missing_def vpn_levels pr(1) ..
  have tr: "translate ?r ?va (ram s) = Ok None" using un' user_va_max [OF uv] by (simp add: translate_eq)
  have go: "service_page_fault addr s = bindR (kalloc_alloc (ram s)) (\<lambda>(f, m). case f of
      None \<Rightarrow> Ok (False, ?s\<lparr>ram := m\<rparr>)
    | Some f \<Rightarrow> bindR (map_pages ?r ?va f PAGE_SIZE ?perm m) (\<lambda>m'. Ok (True, ?s\<lparr>ram := m'\<rparr>)))"
    using with_current_read [OF R, of "\<lambda>p. (heap_base p, heap_brk p, page_table p)"] tr addr
    by (simp add: service_page_fault_def Let_def) (rule bindR_cong [OF refl], auto split: option.splits)
  show "service_page_fault addr s = Ok (False, ?s)" if "n = 0"
    using that kmem.allocate_empty [OF kspaceD(2) [OF D(2)]] unfolding go by (simp add: n_def)
  have pop: "\<exists>f ps m. free_list (ram s) = f # ps \<and> kalloc_alloc (ram s) = Ok (Some f, m)" if "0 < n"
    using that kalloc_alloc_pop [OF kspaceD(2) [OF D(2)]] by (cases "free_list (ram s)") (auto simp: n_def)
  show "service_page_fault addr s = Panic ''map_pages: out of pages''" if n: "0 < n" "n < need"
  proof -
    from pop [OF n(1)] obtain f ps m where f: "free_list (ram s) = f # ps" "kalloc_alloc (ram s) = Ok (Some f, m)" by blast
    note M = kmem.allocate_SomeD [OF kspaceD(2) [OF D(2)] f(2)]
    have fn: "f \<notin> owned (mem (ram s)) ?r" "f \<notin> tabs (mem (ram s)) ?kr" using owned_free(1) [OF D(1,2)] f(1) by auto
    have d: "\<forall>q\<in>{f}. page_aligned q" "{f} \<inter> (owned (mem (ram s)) ?r \<union> tabs (mem (ram s)) ?kr) = {}"
      "set (free_list m) \<inter> (owned (mem (ram s)) ?r \<union> tabs (mem (ram s)) ?kr) = {}"
      using alloc_page_aligned [OF M(3)] fn owned_free(1) [OF D(1,2)] M(1) by auto
    have ch: "in_pages a {f}" if "mem m a \<noteq> mem (ram s) a" for a using that M(5) write_bytes_outside [of a f "mem (ram s)" 0] by force
    have F: "aspace L ?kr ?r m" "missing (mem m) ?r ?va = missing (mem (ram s)) ?r ?va"
      using aspace_other(1,8) [OF D(1,2) M(2) ch d] by blast+
    have "length (free_list m) < missing (mem m) ?r ?va" using n(2) M(1) F(2) mis by (simp add: n_def need_def)
    moreover have "?perm AND PERM_MASK \<noteq> 0" unfolding user_perms(6) by (simp add: pte_pow)
    ultimately have "map_pages ?r ?va f PAGE_SIZE ?perm m = Panic ''map_pages: out of pages''"
      using map_pages_oom [OF aspaceD(1) [OF F(1)] user_va_max [OF uv] pr(2) alloc_page_aligned [OF M(3)]] by blast
    then show ?thesis unfolding go f(2) by simp
  qed
  show "\<exists>m used. service_page_fault addr s = Ok (True, s\<lparr>intena := intr_get (csr s), ram := m\<rparr>) \<and>
      aspace L ?kr ?r m \<and> kspace L ?kr m \<and> tabs (mem m) ?kr = tabs (mem (ram s)) ?kr \<and>
      uview (mem m) ?r = (\<lambda>w. if w div PAGE_SIZE = addr div PAGE_SIZE then Some (?perm, 0) else pview p s w) \<and>
      free_list (ram s) = used @ free_list m \<and>
      (\<forall>a. mem m a \<noteq> mem (ram s) a \<longrightarrow> in_pages a (utabs (mem (ram s)) ?r \<union> set used))" if n: "need \<le> n"
  proof -
    from pop n obtain f ps m1 where f: "free_list (ram s) = f # ps" "kalloc_alloc (ram s) = Ok (Some f, m1)" by (auto simp: need_def)
    have room: "missing (mem (ram s)) ?r ?va \<le> length ps" using n f(1) mis by (simp add: need_def n_def)
    obtain new m where m: "map_pages ?r ?va f PAGE_SIZE ?perm (m1\<lparr>mem := mem m1\<rparr>) = Ok m" "ps = new @ free_list m"
      "aspace L ?kr ?r m" "kspace L ?kr m" "tabs (mem m) ?kr = tabs (mem (ram s)) ?kr"
      and v: "\<And>w. uview (mem m) ?r w = (if w div PAGE_SIZE = ?va div PAGE_SIZE
        then Some (?perm AND PERM_MASK, mem m1 (f + w mod PAGE_SIZE)) else uview (mem (ram s)) ?r w)"
      and ch: "\<And>a. mem m a \<noteq> mem (ram s) a \<Longrightarrow> in_pages a (utabs (mem (ram s)) ?r \<union> set (f # new))"
      and z: "mem m1 = write_bytes (mem (ram s)) f 0 PAGE_SIZE"
      by (rule map_fresh [where m = "mem m1", OF D(1,2) f _ uv pr(2) un' room user_perms(3,4)]) (simp, rule that)
    have "uview (mem m) ?r = (\<lambda>w. if w div PAGE_SIZE = addr div PAGE_SIZE then Some (?perm, 0) else pview p s w)"
      using v unfolding pr(1) user_perms(6) z by (simp add: fun_eq_iff write_bytes_def pview_def PAGE_SIZE_def)
    then show ?thesis using m ch f unfolding go by (intro exI [of _ m] exI [of _ "f # new"]) simp
  qed
qed

section \<open>A machine with a running process\<close>

lemma satp_root_switch:
  assumes "page_aligned r" and "r < 2 ^ 56"
  shows "satp_root (c\<lparr>satp := SATP_SV39 OR ushr r 12\<rparr>) = r"
proof (rule bit_eqI)
  fix i
  have hi: "bit r i \<Longrightarrow> 12 \<le> i \<and> i < 56"
  proof -
    assume b: "bit r i"
    have "bit (take_bit 56 r) i" using b assms(2) by (simp add: take_bit_nat_eq_self)
    then show "12 \<le> i \<and> i < 56" using page_aligned_bit [OF assms(1) b] by (simp add: bit_take_bit_iff)
  qed
  have m: "bit ((2::nat) ^ 44 - 1) j \<longleftrightarrow> j < 44" for j using bit_mask_iff [where 'a = nat, of 44 j] by (simp add: mask_eq_exp_minus_1)
  have s: "bit SATP_SV39 j \<longleftrightarrow> j = 63" for j
  proof -
    have e: "SATP_SV39 = 2 ^ 63" by (simp add: SATP_SV39_def ushl_eq)
    show ?thesis unfolding e by (rule bit_pow2)
  qed
  obtain z where y: "satp_root (c\<lparr>satp := SATP_SV39 OR ushr r 12\<rparr>) = ushl z 12"
    and x: "\<And>j. bit z j \<longleftrightarrow> (j = 63 \<or> bit r (12 + j)) \<and> j < 44"
    using m s that [of "(SATP_SV39 OR ushr r 12) AND (2 ^ 44 - 1)"]
    by (simp add: satp_root_def bit_and_iff bit_or_iff ushr_def bit_drop_bit_eq del: One_nat_def)
  have "bit (satp_root (c\<lparr>satp := SATP_SV39 OR ushr r 12\<rparr>)) i \<longleftrightarrow>
      12 \<le> i \<and> i < 64 \<and> (i - 12 = 63 \<or> bit r (12 + (i - 12))) \<and> i - 12 < 44"
    unfolding y by (auto simp: ushl_def bit_take_bit_iff bit_push_bit_iff_nat x)
  also have "\<dots> \<longleftrightarrow> bit r i" using hi by auto
  finally show "bit (satp_root (c\<lparr>satp := SATP_SV39 OR ushr r 12\<rparr>)) i \<longleftrightarrow> bit r i" .
qed

definition demo_user :: "usize \<Rightarrow> process" where
  "demo_user r = (demo_process 1)\<lparr>pstate := Running, page_table := r, user_table := Some r,
     heap_base := USER_HEAP_BASE, heap_brk := USER_HEAP_BASE + 0x2000\<rparr>"

definition demo_kernel :: "usize \<Rightarrow> usize \<Rightarrow> phys \<Rightarrow> unit kernel" where
  "demo_kernel kr r m = \<lparr>csr = (csr idle_irq)\<lparr>satp := SATP_SV39 OR ushr r 12\<rparr>, noff = 0, intena = False, ram = m,
     kernel_root = kr, procs = [Some (demo_user r)], current = Some 0, next_slot = 1, scheduler_ctx = zeroed, next_pid = 2,
     hart = zeroed, thread_entry_at = 0x80001000, input = input_new, input_at = 0x80210000, files = fs_init fs_new, ticks = 0,
     console = [], dev = ()\<rparr>"

lemma demo_runs: "runs 0 (demo_user r) (demo_kernel kr r m)"
  using idle_irq_ok(1) by (simp add: runs_def irq_idle_def irq_ok_def ptab_def demo_kernel_def intr_get_def idle_irq_def)

lemma demo_space:
  assumes "grown boot_layout kr r s1 used m" and "kernel_private (mem m) kr"
  shows "proc_space boot_layout (demo_user r) (demo_kernel kr r m)"
proof -
  note D = grownD [OF assms(1)]
  have "alloc_page boot_layout r" using owned_free(3,5) [OF D(1,2)] by blast
  then have "page_aligned r" "r < 2 ^ 56" by (simp_all add: alloc_page_def PHYS_TOP_def DRAM_BASE_def PAGE_SIZE_def)
  from satp_root_switch [OF this] D(1,2) assms(2) show ?thesis by (simp add: proc_space_def demo_kernel_def demo_user_def)
qed

lemma booted_kernel:
  obtains kr r m0 m where "proc_space boot_layout (demo_user r) (demo_kernel kr r m)"
    and "\<And>w. pview (demo_user r) (demo_kernel kr r m) w = image_view m0 0x80200000 100 w" and "900 \<le> length (free_list m)"
proof -
  obtain kr s1 r used s where g: "grown boot_layout kr r s1 used s" and p: "kernel_private (mem s) kr" and n: "900 \<le> length (free_list s)"
    and v: "\<And>w. uview (mem s) r w = image_view (mem s1) 0x80200000 100 w" by (rule booted_space) (rule that)
  have "pview (demo_user r) (demo_kernel kr r s) w = image_view (mem s1) 0x80200000 100 w" for w
    using v by (simp add: pview_def demo_user_def demo_kernel_def)
  from that [OF demo_space [OF g p] this n] show thesis .
qed

section \<open>Properties\<close>

lemma copy_from_user_view:
  assumes "runs i p s" and "proc_space L p s"
  shows "copy_from_user ptr len s = Ok (if readable (pview p s) ptr len then Some (peek (pview p s) ptr len) else None,
      if ptr + len \<le> VA_MAX then s\<lparr>intena := intr_get (csr s)\<rparr> else s)"
proof -
  note D = proc_spaceD [OF assms(2)]
  show ?thesis
    using copy_from_user_run [OF assms(1) proc_space_user_space(1) [OF assms(2)], of ptr len]
      range_view(1) [OF D(1,3), of ptr len] readable_peek [OF D(1,3), of ptr len] by (simp add: pview_def)
qed

lemma if_else_exI: "\<not> a \<Longrightarrow> \<not> b \<Longrightarrow> P w \<Longrightarrow> if a then A else if b then B else \<exists>w. P w"
  by auto



text \<open>
  C10. Writing user memory.  For every pointer and every buffer \<open>copy_to_user\<close> returns.  When the whole range is writable
  user memory, the process afterwards sees exactly the new bytes there and everything else as before;
  otherwise nothing is written.  The free list and the view of every disjoint address space stay as they were.
\<close>

theorem copy_to_user_correct:
  assumes "runs i p s" and "proc_space L p s"
  shows "\<exists>s'. copy_to_user ptr bs s = Ok (if writable (pview p s) ptr (length bs) then Some (length bs) else None, s') \<and>
     runs i p s' \<and> proc_space L p s' \<and> csr s' = csr s \<and> procs s' = procs s \<and> free_list (ram s') = free_list (ram s) \<and>
     pview p s' = (if writable (pview p s) ptr (length bs) then overwrite (pview p s) ptr bs else pview p s) \<and>
     (\<forall>q. aspace L (kernel_root s) q (ram s) \<longrightarrow> owned (mem (ram s)) q \<inter> owned (mem (ram s)) (page_table p) = {} \<longrightarrow>
        uview (mem (ram s')) q = uview (mem (ram s)) q)"
proof -
  note D = proc_spaceD [OF assms(2)]
  let ?r = "page_table p" and ?kr = "kernel_root s" and ?m = "ram s" and ?W = "writable (pview p s) ptr (length bs)"
  have W: "user_range [PTE_U, PTE_W] (mem ?m) ?r ptr (length bs) = ?W" using range_view(2) [OF D(1,3)] by (simp add: pview_def)
  note run = copy_to_user_run [OF assms(1) D(4) proc_space_user_space(2) [OF assms(2)], of ptr bs, unfolded W]
  show ?thesis
  proof (cases ?W)
    case False
    then show ?thesis using run assms by (auto simp: runs_ram pview_def proc_space_def)
  next
    case True
    let ?m' = "?m\<lparr>mem := poke (mem ?m) ?r ptr (enumerate 0 bs) (mem ?m)\<rparr>"
    have w: "writable (uview (mem ?m) ?r) ptr (length bs)" using True by (simp add: pview_def)
    note P = poke_view [OF D(1-3) w]
    have other: "uview (mem ?m') q = uview (mem ?m) q" if q: "aspace L ?kr q ?m" "owned (mem ?m) q \<inter> owned (mem ?m) ?r = {}" for q
    proof -
      have al: "\<forall>p\<in>uframes (mem ?m) ?r. page_aligned p" using owned_free(4) [OF D(1,2)] by (auto simp: owned_def)
      have d: "uframes (mem ?m) ?r \<inter> (owned (mem ?m) q \<union> tabs (mem ?m) ?kr) = {}" "set (free_list ?m') \<inter> (owned (mem ?m) q \<union> tabs (mem ?m) ?kr) = {}"
        using q(2) owned_free(2) [OF D(1,2)] owned_free(1) [OF q(1) D(2)] P(4) by (auto simp: owned_def)
      show ?thesis using aspace_other(6) [OF q(1) D(2) kspaceD(2) [OF P(2)] P(7) al d] by (auto simp: fun_eq_iff)
    qed
    have v: "pview p (s\<lparr>intena := intr_get (csr s), ram := ?m'\<rparr>) = overwrite (pview p s) ptr bs" using P(5) by (simp add: pview_def)
    have "proc_space L p (s\<lparr>intena := intr_get (csr s), ram := ?m'\<rparr>)" using P(1-3) D(4) by (simp add: proc_space_def)
    then show ?thesis using True run assms(1) v other P(4) by (intro exI [of _ "s\<lparr>intena := intr_get (csr s), ram := ?m'\<rparr>"]) (simp add: runs_ram)
  qed
qed

theorem copy_to_user_correct_witness:
  "\<exists>kr r m s'. copy_to_user (USER_STACK_TOP - PAGE_SIZE) [1, 2] (demo_kernel kr r m) = Ok (Some 2, s') \<and>
     pview (demo_user r) s' (USER_STACK_TOP - PAGE_SIZE) = Some (PTE_R OR PTE_W OR PTE_U, 1)"
proof -
  obtain kr r m0 m where k: "proc_space boot_layout (demo_user r) (demo_kernel kr r m)"
    and v: "\<And>w. pview (demo_user r) (demo_kernel kr r m) w = image_view m0 0x80200000 100 w" by (rule booted_kernel) (rule that)
  let ?V = "pview (demo_user r) (demo_kernel kr r m)" and ?p = "USER_STACK_TOP - PAGE_SIZE"
  have t: "?V va = Some (PTE_R OR PTE_W OR PTE_U, 0)" if "?p \<le> va" "va < ?p + 2" for va
    using that unfolding v by (simp add: image_view_def div_ceil_def PAGE_SIZE_def USER_TEXT_def USER_STACK_TOP_def)
  have wp: "(PTE_R OR PTE_W OR PTE_U) AND PTE_W \<noteq> 0" by (simp add: pte_pow)
  have "?p mod PAGE_SIZE = 0" by (simp add: USER_STACK_TOP_def PAGE_SIZE_def)
  moreover have "?p + 2 \<le> VA_MAX" by (simp add: USER_STACK_TOP_def PAGE_SIZE_def pte_pow(8))
  ultimately have "writable ?V ?p (length [1, 2 :: u8])" unfolding writable_def using t wp by simp
  with copy_to_user_correct [OF demo_runs k, of ?p "[1, 2]"] obtain s' where
    "copy_to_user ?p [1, 2] (demo_kernel kr r m) = Ok (Some 2, s')" "pview (demo_user r) s' = overwrite ?V ?p [1, 2]"
    by (auto simp: numeral_2_eq_2)
  moreover have "overwrite ?V ?p [1, 2] ?p = Some (PTE_R OR PTE_W OR PTE_U, 1)" using t [of ?p] by (simp add: overwrite_def)
  ultimately show ?thesis by metis
qed

text \<open>
  C11. Demand paging, every branch.  A fault of the current process outside its heap, or on a mapped page, is refused and
  changes nothing.  In the heap, with a free frame and free pages for the tables, the process afterwards sees one more
  page, zeroed and writable, and the rest as before.  With no free page at all the fault is refused; with some, but too
  few for the tables, the kernel panics.
\<close>

theorem service_page_fault_correct:
  assumes "runs i p s" and "proc_space L p s" and "USER_HEAP_BASE \<le> heap_base p" and "heap_brk p \<le> USER_HEAP_MAX"
  shows "if addr < heap_base p \<or> heap_brk p \<le> addr \<or> pview p s addr \<noteq> None \<or> free_list (ram s) = []
     then service_page_fault addr s = Ok (False, s\<lparr>intena := intr_get (csr s)\<rparr>)
     else if length (free_list (ram s)) \<le> missing (mem (ram s)) (page_table p) addr
     then service_page_fault addr s = Panic ''map_pages: out of pages''
     else \<exists>s'. service_page_fault addr s = Ok (True, s') \<and> runs i p s' \<and> procs s' = procs s \<and>
       aspace L (kernel_root s) (page_table p) (ram s') \<and> kspace L (kernel_root s) (ram s') \<and>
       pview p s' = (\<lambda>w. if w div PAGE_SIZE = addr div PAGE_SIZE then Some (PTE_R OR PTE_W OR PTE_U, 0) else pview p s w)"
proof (cases "addr < heap_base p \<or> heap_brk p \<le> addr \<or> pview p s addr \<noteq> None")
  case True
  have "pte_of (mem (ram s)) (page_table p) addr \<noteq> None" if "pview p s addr \<noteq> None"
    using that by (auto simp: pview_def uview_def split: if_splits)
  moreover have "addr < VA_MAX" if "addr < heap_brk p" using that assms(4) by (simp add: USER_HEAP_MAX_def pte_pow(8))
  ultimately have "addr < heap_base p \<or> heap_brk p \<le> addr \<or> addr < VA_MAX \<and> pte_of (mem (ram s)) (page_table p) addr \<noteq> None"
    using True by (meson not_le)
  from service_page_fault_refuse [OF assms(1) this] True show ?thesis by (auto simp del: not_None_eq)
next
  case False
  then have "heap_base p \<le> addr" "addr < heap_brk p" "pview p s addr = None" by (auto simp del: not_None_eq)
  note S = service_page_fault_serve [OF assms(1,2) this(1,2) assms(3,4) this(3)]
  consider "free_list (ram s) = []" | "free_list (ram s) \<noteq> []" "length (free_list (ram s)) \<le> missing (mem (ram s)) (page_table p) addr"
    | "Suc (missing (mem (ram s)) (page_table p) addr) \<le> length (free_list (ram s))" by linarith
  then show ?thesis
  proof cases
    case 1
    then show ?thesis using False S(1) by simp
  next
    case 2
    then show ?thesis using False S(2) by simp
  next
    case 3
    from S(3) [OF this] obtain m where m: "service_page_fault addr s = Ok (True, s\<lparr>intena := intr_get (csr s), ram := m\<rparr>)"
      "aspace L (kernel_root s) (page_table p) m" "kspace L (kernel_root s) m"
      "uview (mem m) (page_table p) = (\<lambda>w. if w div PAGE_SIZE = addr div PAGE_SIZE then Some (PTE_R OR PTE_W OR PTE_U, 0) else pview p s w)"
      by blast
    have "pview p (s\<lparr>intena := intr_get (csr s), ram := m\<rparr>) = uview (mem m) (page_table p)" by (simp add: pview_def)
    moreover have "free_list (ram s) \<noteq> []" using 3 by auto
    ultimately show ?thesis using False 3 m(1-3) assms(1) unfolding m(4)
      by (intro if_else_exI [where w = "s\<lparr>intena := intr_get (csr s), ram := m\<rparr>"]) (simp_all add: runs_ram)
  qed
qed

theorem service_page_fault_correct_witness:
  "\<exists>kr r m s'. service_page_fault USER_HEAP_BASE (demo_kernel kr r m) = Ok (True, s') \<and>
     pview (demo_user r) (demo_kernel kr r m) USER_HEAP_BASE = None \<and>
     pview (demo_user r) s' USER_HEAP_BASE = Some (PTE_R OR PTE_W OR PTE_U, 0)"
proof -
  obtain kr r m0 m where k: "proc_space boot_layout (demo_user r) (demo_kernel kr r m)"
    and v: "\<And>w. pview (demo_user r) (demo_kernel kr r m) w = image_view m0 0x80200000 100 w" 
    and n: "900 \<le> length (free_list m)" by (rule booted_kernel) (rule that)
  have un: "pview (demo_user r) (demo_kernel kr r m) USER_HEAP_BASE = None"
    unfolding v by (simp add: image_view_def div_ceil_def PAGE_SIZE_def USER_TEXT_def USER_STACK_TOP_def USER_HEAP_BASE_def)
  have h: "USER_HEAP_BASE \<le> heap_base (demo_user r)" "heap_brk (demo_user r) \<le> USER_HEAP_MAX" "heap_base (demo_user r) = USER_HEAP_BASE"
    "USER_HEAP_BASE < heap_brk (demo_user r)" by (simp_all add: demo_user_def USER_HEAP_BASE_def USER_HEAP_MAX_def)
  have f: "ram (demo_kernel kr r m) = m" by (simp add: demo_kernel_def)
  have "missing (mem m) (page_table (demo_user r)) USER_HEAP_BASE \<le> 2" by (simp add: missing_def split: option.split)
  with n have "\<not> length (free_list m) \<le> missing (mem m) (page_table (demo_user r)) USER_HEAP_BASE" "free_list m \<noteq> []"
    by auto
  with service_page_fault_correct [OF demo_runs k h(1,2), of USER_HEAP_BASE] h(3,4) un f obtain s' where
    "service_page_fault USER_HEAP_BASE (demo_kernel kr r m) = Ok (True, s')"
    "pview (demo_user r) s' = (\<lambda>w. if w div PAGE_SIZE = USER_HEAP_BASE div PAGE_SIZE then Some (PTE_R OR PTE_W OR PTE_U, 0)
       else pview (demo_user r) (demo_kernel kr r m) w)"
    by (auto simp: not_le)
  with un show ?thesis by (intro exI conjI) auto
qed

end
