(* ===== verification/Heap.thy ===== *)
theory Heap
  imports Memory
begin

text \<open>
  \<open>src/src/heap.rs\<close>: the first-fit, address-ordered free-list allocator behind \<open>Box\<close> and \<open>Vec\<close>.
  The operations are those of the source on byte memory: free blocks carry a header (size, next) in
  their first 16 bytes, live allocations a header (block start, block size) in the 16 bytes before
  the pointer.  The two list walks are \<open>partial_function (option)\<close>s, so a walk of a cyclic list is
  the value \<open>None\<close>; the theorems show that the walks end.

  The abstraction is a tiling of the heap region by free and used tiles (\<open>heap_rel\<close>): the free list
  in memory is the list of free tiles in address order, no two free tiles touch, and the header of
  every live allocation describes its tile.  Allocation splits a free tile, deallocation turns a
  used tile free and merges it with its neighbours; both refine the memory operations.
\<close>

section \<open>The allocator of the source\<close>

definition HALIGN :: usize where "HALIGN = 16"
definition MIN_BLOCK :: usize where "MIN_BLOCK = 32"

text \<open>\<open>size_of::<AllocHeader>()\<close>: two \<open>usize\<close> fields.\<close>

definition ALLOC_HEADER :: usize where "ALLOC_HEADER = 16"

text \<open>The static \<open>HEAP\<close> and the memory its raw pointers reach.\<close>

record heap =
  hmem :: memory
  heap_head :: usize
  heap_free_bytes :: usize

definition heap_new :: "memory \<Rightarrow> heap" where
  "heap_new m = \<lparr>hmem = m, heap_head = 0, heap_free_bytes = 0\<rparr>"

text \<open>\<open>core::alloc::Layout\<close>.\<close>

record alloc_layout =
  layout_size :: usize
  layout_align :: usize

definition align_up :: "usize \<Rightarrow> usize \<Rightarrow> usize result" where
  "align_up x align =
     bindR (uadd x align) (\<lambda>y. bindR (usub y 1) (\<lambda>y. bindR (usub align 1) (\<lambda>k. Ok (y AND unot k))))"

definition heap_init :: "layout \<Rightarrow> heap \<Rightarrow> heap result" where
  "heap_init L h =
     (let start = heap_start L; sz = HEAP_SIZE in
      bindR (assertR (is_multiple_of start HALIGN \<and> is_multiple_of sz HALIGN)
        ''assertion failed: start and size are multiples of ALIGN'') (\<lambda>_.
      bindR (assertR (heap_head h = 0) ''heap::init called twice'') (\<lambda>_.
      Ok (h\<lparr>hmem := store64 (store64 (hmem h) start sz) (start + 8) 0, heap_head := start,
            heap_free_bytes := sz\<rparr>))))"

definition free_bytes :: "heap \<Rightarrow> usize" where
  "free_bytes h = heap_free_bytes h"

text \<open>The bounds computed at the top of the loop body of \<open>alloc_inner\<close>.\<close>

definition block_bounds :: "usize \<Rightarrow> usize \<Rightarrow> usize \<Rightarrow> memory \<Rightarrow> (usize \<times> usize \<times> usize) result" where
  "block_bounds need align cur m =
     bindR (uadd cur (load64 m cur)) (\<lambda>block_end.
     bindR (uadd cur ALLOC_HEADER) (\<lambda>b.
     bindR (align_up b align) (\<lambda>ustart.
     bindR (uadd ustart need) (\<lambda>uend.
     Ok (block_end, ustart, uend)))))"

text \<open>The body of \<open>if user_end <= block_end\<close>.\<close>

definition carve :: "usize \<Rightarrow> usize \<Rightarrow> usize \<Rightarrow> usize \<Rightarrow> usize \<Rightarrow> heap \<Rightarrow> (usize \<times> heap) result" where
  "carve prev cur block_end ustart uend h =
     (let nxt = load64 (hmem h) (cur + 8) in
      bindR (usub ustart ALLOC_HEADER) (\<lambda>header.
      bindR (usub header cur) (\<lambda>front_gap.
      bindR (if MIN_BLOCK \<le> front_gap then bindR (uadd cur front_gap) (\<lambda>a. Ok (a, True)) else Ok (cur, False))
        (\<lambda>(alloc_start, keep_front).
      bindR (usub block_end uend) (\<lambda>back_gap.
      let (alloc_end, keep_back) = (if MIN_BLOCK \<le> back_gap then (uend, True) else (block_end, False)) in
      bindR (usub block_end alloc_end) (\<lambda>back_size.
      let (m, replacement) =
            (if keep_back
             then (store64 (store64 (hmem h) alloc_end back_size) (alloc_end + 8) nxt, alloc_end)
             else (hmem h, nxt));
          (m, replacement) =
            (if keep_front
             then (store64 (store64 m cur front_gap) (cur + 8) replacement, cur) else (m, replacement));
          (m, hd) =
            (if prev = 0 then (m, replacement) else (store64 m (prev + 8) replacement, heap_head h)) in
      bindR (usub alloc_end alloc_start) (\<lambda>n.
      bindR (usub (heap_free_bytes h) n) (\<lambda>f.
      Ok (ustart,
          h\<lparr>hmem := store64 (store64 m header alloc_start) (header + 8) n,
            heap_head := hd, heap_free_bytes := f\<rparr>)))))))))"

partial_function (option) alloc_loop ::
  "usize \<Rightarrow> usize \<Rightarrow> usize \<Rightarrow> usize \<Rightarrow> heap \<Rightarrow> (usize \<times> heap) result option" where
  "alloc_loop need align prev cur h =
     (if cur = 0 then Some (Ok (0, h))
      else case block_bounds need align cur (hmem h) of
        Panic e \<Rightarrow> Some (Panic e)
      | Ok (block_end, ustart, uend) \<Rightarrow>
          if uend \<le> block_end then Some (carve prev cur block_end ustart uend h)
          else alloc_loop need align cur (load64 (hmem h) (cur + 8)) h)"

definition alloc_inner :: "alloc_layout \<Rightarrow> heap \<Rightarrow> (usize \<times> heap) result option" where
  "alloc_inner lay h =
     (case align_up (max (layout_size lay) 1) HALIGN of
        Panic e \<Rightarrow> Some (Panic e)
      | Ok need \<Rightarrow> alloc_loop need (max (layout_align lay) HALIGN) 0 (heap_head h) h)"

partial_function (option) find_slot :: "usize \<Rightarrow> usize \<Rightarrow> usize \<Rightarrow> memory \<Rightarrow> (usize \<times> usize) option" where
  "find_slot start prev cur m =
     (if cur \<noteq> 0 \<and> cur < start then find_slot start cur (load64 m (cur + 8)) m
      else Some (prev, cur))"

text \<open>The insertion and the two merges at the end of \<open>dealloc_inner\<close>.\<close>

definition link_block :: "usize \<Rightarrow> usize \<Rightarrow> usize \<Rightarrow> usize \<Rightarrow> usize \<Rightarrow> heap \<Rightarrow> heap result" where
  "link_block start sz en prev cur h =
     (let m = store64 (store64 (hmem h) start sz) (start + 8) cur in
      bindR (if cur \<noteq> 0 \<and> en = cur
             then bindR (uadd (load64 m start) (load64 m cur)) (\<lambda>n.
                  let m = store64 m start n in Ok (store64 m (start + 8) (load64 m (cur + 8))))
             else Ok m) (\<lambda>m.
      bindR (if prev \<noteq> 0 then bindR (uadd prev (load64 m prev)) (\<lambda>e. Ok (e = start)) else Ok False) (\<lambda>merge.
      if merge
      then bindR (uadd (load64 m prev) (load64 m start)) (\<lambda>n.
           let m = store64 m prev n in
           Ok (h\<lparr>hmem := store64 m (prev + 8) (load64 m (start + 8))\<rparr>))
      else if prev = 0 then Ok (h\<lparr>hmem := m, heap_head := start\<rparr>)
      else Ok (h\<lparr>hmem := store64 m (prev + 8) start\<rparr>))))"

definition dealloc_inner :: "usize \<Rightarrow> heap \<Rightarrow> heap result option" where
  "dealloc_inner user_ptr h =
     (case bindR (usub user_ptr ALLOC_HEADER) (\<lambda>header.
           let start = load64 (hmem h) header; sz = load64 (hmem h) (header + 8) in
           bindR (uadd start sz) (\<lambda>en.
           bindR (uadd (heap_free_bytes h) sz) (\<lambda>f. Ok (start, sz, en, f)))) of
        Panic e \<Rightarrow> Some (Panic e)
      | Ok (start, sz, en, f) \<Rightarrow>
          (case find_slot start 0 (heap_head h) (hmem h) of
             None \<Rightarrow> None
           | Some (prev, cur) \<Rightarrow>
               Some (link_block start sz en prev cur (h\<lparr>heap_free_bytes := f\<rparr>))))"

section \<open>Sixteen-byte cells\<close>

text \<open>Every header is a 16-byte cell at a multiple of 16, read as a pair of words.\<close>

definition cells :: "memory \<Rightarrow> usize \<Rightarrow> usize \<times> usize" where
  "cells m c = (if 16 dvd c then (load64 m c, load64 m (c + 8)) else (0, 0))"

lemma cells_apart: "16 dvd c \<Longrightarrow> 16 dvd d \<Longrightarrow> c \<noteq> d \<Longrightarrow> d + 16 \<le> c \<or> c + 16 \<le> (d::nat)"
  by (elim dvdE) auto

lemma cells_store_fst:
  assumes "16 dvd c" and "x \<le> usize_max"
  shows "cells (store64 m c x) = (cells m)(c := (x, snd (cells m c)))"
proof
  fix d
  show "cells (store64 m c x) d = ((cells m)(c := (x, snd (cells m c)))) d"
    using assms cells_apart [of c d]
    by (cases "16 dvd d"; cases "c = d") (auto simp: cells_def load64_store64 load64_store64_other)
qed

lemma cells_store_snd:
  assumes "16 dvd c" and "x \<le> usize_max"
  shows "cells (store64 m (c + 8) x) = (cells m)(c := (fst (cells m c), x))"
proof
  fix d
  show "cells (store64 m (c + 8) x) d = ((cells m)(c := (fst (cells m c), x))) d"
    using assms cells_apart [of c d]
    by (cases "16 dvd d"; cases "c = d") (auto simp: cells_def load64_store64 load64_store64_other)
qed

lemma load64_cells: "16 dvd c \<Longrightarrow> load64 m c = fst (cells m c)" "16 dvd c \<Longrightarrow> load64 m (c + 8) = snd (cells m c)"
  by (simp_all add: cells_def)

section \<open>The tiling of the heap\<close>

datatype tag = Free | Used usize

type_synonym tile = "usize \<times> usize \<times> tag"

fun is_free :: "tile \<Rightarrow> bool" where
  "is_free (a, n, k) \<longleftrightarrow> k = Free"

fun tile_ok :: "tile \<Rightarrow> bool" where
  "tile_ok (a, n, Free) \<longleftrightarrow> 16 dvd n \<and> 32 \<le> n"
| "tile_ok (a, n, Used p) \<longleftrightarrow> 16 dvd n \<and> 32 \<le> n \<and> 16 dvd p \<and> a + 16 \<le> p \<and> p + 16 \<le> a + n"

fun tiling :: "usize \<Rightarrow> tile list \<Rightarrow> usize \<Rightarrow> bool" where
  "tiling lo [] hi \<longleftrightarrow> lo = hi"
| "tiling lo ((a, n, k) # ts) hi \<longleftrightarrow> a = lo \<and> tile_ok (a, n, k) \<and> tiling (a + n) ts hi"

definition coalesced :: "tile list \<Rightarrow> bool" where
  "coalesced ts \<longleftrightarrow> successively (\<lambda>x y. \<not> (is_free x \<and> is_free y)) ts"

definition frees :: "tile list \<Rightarrow> (usize \<times> usize) list" where
  "frees ts = map (\<lambda>(a, n, k). (a, n)) (filter is_free ts)"

text \<open>The free list from \<open>h\<close> to \<open>e\<close>, read in the cells.\<close>

fun chained :: "(usize \<Rightarrow> usize \<times> usize) \<Rightarrow> usize \<Rightarrow> (usize \<times> usize) list \<Rightarrow> usize \<Rightarrow> bool" where
  "chained C h [] e \<longleftrightarrow> h = e"
| "chained C h ((a, n) # bs) e \<longleftrightarrow> h = a \<and> fst (C a) = n \<and> chained C (snd (C a)) bs e"

text \<open>The cell of a tile: its first for a free tile, the one before the pointer for a used one.\<close>

fun key :: "tile \<Rightarrow> usize" where
  "key (a, n, Free) = a"
| "key (a, n, Used p) = p - 16"

fun header_ok :: "(usize \<Rightarrow> usize \<times> usize) \<Rightarrow> tile \<Rightarrow> bool" where
  "header_ok C (a, n, Free) \<longleftrightarrow> True"
| "header_ok C (a, n, Used p) \<longleftrightarrow> C (p - 16) = (a, n)"

definition heap_rel :: "usize \<Rightarrow> tile list \<Rightarrow> usize \<Rightarrow> heap \<Rightarrow> bool" where
  "heap_rel lo ts hi h \<longleftrightarrow>
     0 < lo \<and> 16 dvd lo \<and> hi \<le> 2 ^ 32 \<and> tiling lo ts hi \<and> coalesced ts \<and>
     chained (cells (hmem h)) (heap_head h) (frees ts) 0 \<and> list_all (header_ok (cells (hmem h))) ts \<and>
     heap_free_bytes h = sum_list (map snd (frees ts))"

text \<open>The bytes that belong to the clients: from the pointer to the end of a used tile.\<close>

definition payload :: "tile list \<Rightarrow> usize set" where
  "payload ts = {x. \<exists>a n p. (a, n, Used p) \<in> set ts \<and> p \<le> x \<and> x < a + n}"

subsection \<open>Allocation and deallocation on tilings\<close>

definition round_up :: "usize \<Rightarrow> usize \<Rightarrow> usize" where
  "round_up x al = (x + al - 1) div al * al"

definition split_tile :: "usize \<Rightarrow> usize \<Rightarrow> usize \<Rightarrow> usize \<Rightarrow> tile list" where
  "split_tile a n u e =
     (let front = u - 16 - a; back = a + n - e;
          st = (if 32 \<le> front then u - 16 else a);
          en = (if 32 \<le> back then e else a + n) in
      (if 32 \<le> front then [(a, front, Free)] else []) @ [(st, en - st, Used u)] @
      (if 32 \<le> back then [(e, back, Free)] else []))"

fun alloc_tiles :: "usize \<Rightarrow> usize \<Rightarrow> tile list \<Rightarrow> (usize \<times> tile list) option" where
  "alloc_tiles need al [] = None"
| "alloc_tiles need al ((a, n, k) # ts) =
     (let u = round_up (a + 16) al in
      if k = Free \<and> u + need \<le> a + n then Some (u, split_tile a n u (u + need) @ ts)
      else map_option (\<lambda>(p, ts'). (p, (a, n, k) # ts')) (alloc_tiles need al ts))"

fun merge_front :: "tile \<Rightarrow> tile list \<Rightarrow> tile list" where
  "merge_front (a, n, k) ((b, j, Free) # ts) = (a, n + j, k) # ts"
| "merge_front t ts = t # ts"

fun merge_back :: "tile list \<Rightarrow> tile list \<Rightarrow> tile list" where
  "merge_back [] ts = ts"
| "merge_back [(a, n, Free)] ((b, j, k) # ts) = (a, n + j, Free) # ts"
| "merge_back [x] ts = x # ts"
| "merge_back (x # y # xs) ts = x # merge_back (y # xs) ts"

text \<open>Turning the tile of \<open>p\<close> free, merged with free neighbours.\<close>

fun free_tile :: "tile list \<Rightarrow> usize \<Rightarrow> tile list \<Rightarrow> tile list" where
  "free_tile xs p [] = xs"
| "free_tile xs p ((a, n, k) # ts) =
     (if k = Used p then merge_back xs (merge_front (a, n, Free) ts)
      else free_tile (xs @ [(a, n, k)]) p ts)"

definition dealloc_tiles :: "usize \<Rightarrow> tile list \<Rightarrow> tile list" where
  "dealloc_tiles p ts = free_tile [] p ts"

section \<open>Tilings\<close>

lemma tiling_append: "tiling lo (xs @ ys) hi \<longleftrightarrow> (\<exists>mid. tiling lo xs mid \<and> tiling mid ys hi)"
  by (induction lo xs hi rule: tiling.induct) auto

lemma tiling_le: "tiling lo ts hi \<Longrightarrow> lo \<le> hi"
  by (induction lo ts hi rule: tiling.induct) auto

lemma tiling_mem:
  assumes "tiling lo ts hi" and "(a, n, k) \<in> set ts" and "16 dvd lo"
  shows "lo \<le> a \<and> a + n \<le> hi \<and> 16 dvd a \<and> tile_ok (a, n, k)"
  using assms
proof (induction lo ts hi rule: tiling.induct)
  case (2 lo b j c ts hi)
  have "16 dvd j" using 2(2) by (cases c) auto
  then show ?case using 2 tiling_le [of "b + j" ts hi] by (auto simp: dvd_add)
qed simp

lemma key_bounds:
  assumes "tile_ok (a, n, k)" and "16 dvd a"
  shows "a \<le> key (a, n, k)" and "key (a, n, k) + 16 \<le> a + n" and "16 dvd key (a, n, k)"
  using assms by (cases k; auto simp: dvd_diff_nat)+

lemma frees_simps [simp]:
  "frees [] = []" "frees ((a, n, Free) # ts) = (a, n) # frees ts" "frees ((a, n, Used p) # ts) = frees ts"
  "frees (xs @ ys) = frees xs @ frees ys"
  by (simp_all add: frees_def)

lemma mem_frees: "(a, n) \<in> set (frees ts) \<longleftrightarrow> (a, n, Free) \<in> set ts"
  by (force simp: frees_def)

lemma chained_append [simp]:
  "chained C h (xs @ ys) e \<longleftrightarrow> (\<exists>t. chained C h xs t \<and> chained C t ys e)"
  by (induction C h xs e rule: chained.induct) auto

lemma chained_cong: "\<forall>x\<in>set bs. C' (fst x) = C (fst x) \<Longrightarrow> chained C' h bs e \<longleftrightarrow> chained C h bs e"
  by (induction C h bs e rule: chained.induct) auto

lemma header_ok_cong: "C' (key t) = C (key t) \<Longrightarrow> header_ok C' t \<longleftrightarrow> header_ok C t"
  by (cases "(C, t)" rule: header_ok.cases) auto

text \<open>A cell outside a tiling is the key of none of its tiles.\<close>

lemma tiling_frame:
  assumes "tiling lo ts hi" and "16 dvd lo" and "\<And>c. lo \<le> c \<Longrightarrow> c + 16 \<le> hi \<Longrightarrow> C' c = C c"
  shows "chained C' h (frees ts) e \<longleftrightarrow> chained C h (frees ts) e"
    and "list_all (header_ok C') ts \<longleftrightarrow> list_all (header_ok C) ts"
proof -
  have k: "C' (key (a, n, k)) = C (key (a, n, k))" if "(a, n, k) \<in> set ts" for a n k
  proof -
    from tiling_mem [OF assms(1) that assms(2)] have "lo \<le> a" "a + n \<le> hi" "16 dvd a" "tile_ok (a, n, k)" by auto
    with key_bounds [OF this(4,3)] show ?thesis by (intro assms(3)) linarith+
  qed
  from k [of _ _ Free] show "chained C' h (frees ts) e \<longleftrightarrow> chained C h (frees ts) e"
    by (intro chained_cong) (auto simp: mem_frees)
  from k show "list_all (header_ok C') ts \<longleftrightarrow> list_all (header_ok C) ts"
    by (auto simp: list_all_iff header_ok_cong [of C' _ C])
qed

text \<open>The predecessor pointer of the walks, and the first free block.\<close>

definition last_free :: "tile list \<Rightarrow> usize" where
  "last_free xs = (if frees xs = [] then 0 else fst (last (frees xs)))"

definition first_free :: "tile list \<Rightarrow> usize" where
  "first_free ts = (case frees ts of [] \<Rightarrow> 0 | (a, n) # bs \<Rightarrow> a)"

lemma first_free_simps [simp]:
  "first_free [] = 0" "first_free ((a, n, Free) # ts) = a" "first_free ((a, n, Used p) # ts) = first_free ts"
  by (simp_all add: first_free_def)

lemma last_free_simps [simp]:
  "last_free [] = 0" "last_free (xs @ [(a, n, Free)]) = a" "last_free (xs @ [(a, n, Used p)]) = last_free xs"
  by (simp_all add: last_free_def)

lemma chained_first: "chained C h (frees ts) 0 \<Longrightarrow> h = first_free ts"
  by (auto simp: first_free_def split: list.splits)

lemma last_free_cases:
  obtains "frees xs = []" "last_free xs = 0"
  | ys a n zs where "xs = ys @ (a, n, Free) # zs" "frees zs = []" "last_free xs = a"
proof (induction xs arbitrary: thesis rule: rev_induct)
  case Nil
  then show ?case by simp
next
  case (snoc t xs)
  obtain a n k where t: "t = (a, n, k)" by (cases t)
  show ?case
  proof (cases k)
    case Free
    then show ?thesis using snoc.prems(2) [of xs a n "[]"] by (simp add: t)
  next
    case (Used p)
    show ?thesis
    proof (rule snoc.IH)
      assume "frees xs = []" "last_free xs = 0"
      then show thesis using snoc.prems(1) by (simp add: t Used)
    next
      fix ys b j zs
      assume "xs = ys @ (b, j, Free) # zs" "frees zs = []" "last_free xs = b"
      then show thesis using snoc.prems(2) [of ys b j "zs @ [t]"] by (simp add: t Used last_free_def)
    qed
  qed
qed

text \<open>Redirecting the end of a chain, as both operations do through \<open>prev\<close> or the list head.\<close>

lemma relink:
  fixes e' :: usize
  assumes T: "tiling lo xs mid" and lo: "16 dvd lo" "0 < lo"
    and ch: "chained C h (frees xs) e" and hd: "list_all (header_ok C) xs"
  defines "C' \<equiv> (if last_free xs = 0 then C else C(last_free xs := (fst (C (last_free xs)), e')))"
    and "h' \<equiv> (if last_free xs = 0 then e' else h)"
  shows "chained C' h' (frees xs) e'" and "list_all (header_ok C') xs"
    and "\<And>c. mid \<le> c \<Longrightarrow> C' c = C c"
    and "last_free xs \<noteq> 0 \<Longrightarrow> lo \<le> last_free xs \<and> last_free xs + 16 \<le> mid \<and> 16 dvd last_free xs"
proof -
  consider (none) "frees xs = []" "last_free xs = 0"
    | (some) ys a n zs where "xs = ys @ (a, n, Free) # zs" "frees zs = []" "last_free xs = a"
    by (rule last_free_cases)
  then have "chained C' h' (frees xs) e' \<and> list_all (header_ok C') xs \<and> (\<forall>c\<ge>mid. C' c = C c) \<and>
    (last_free xs \<noteq> 0 \<longrightarrow> lo \<le> last_free xs \<and> last_free xs + 16 \<le> mid \<and> 16 dvd last_free xs)"
  proof cases
    case none
    then show ?thesis using hd by (simp add: C'_def h'_def)
  next
    case some
    from tiling_mem [OF T _ lo(1), of a n Free] some(1)
    have a: "lo \<le> a" "a + n \<le> mid" "16 dvd a" "32 \<le> n" by auto
    have C': "C' = C(a := (n, e'))" "h' = h" using some a(1) lo(2) ch by (auto simp: C'_def h'_def)
    from T obtain m1 where T1: "tiling lo ys m1" "tiling m1 ((a, n, Free) # zs) mid"
      unfolding some(1) tiling_append by blast
    then have m1: "m1 = a" and T2: "tiling (a + n) zs mid" by auto
    have an: "16 dvd (a + n)" using T1(2) a(3) by (simp add: m1 dvd_add)
    have 1: "chained C' h (frees ys) t \<longleftrightarrow> chained C h (frees ys) t" "list_all (header_ok C') ys \<longleftrightarrow> list_all (header_ok C) ys" for t
      by (rule tiling_frame [OF T1(1) lo(1)], simp add: C' m1)+
    have 2: "list_all (header_ok C') zs \<longleftrightarrow> list_all (header_ok C) zs"
      by (rule tiling_frame(2) [OF T2 an]) (use a(4) in \<open>simp add: C'\<close>)
    show ?thesis using ch hd a some 1 2 by (auto simp: C')
  qed
  then show "chained C' h' (frees xs) e'" "list_all (header_ok C') xs" "\<And>c. mid \<le> c \<Longrightarrow> C' c = C c"
    "last_free xs \<noteq> 0 \<Longrightarrow> lo \<le> last_free xs \<and> last_free xs + 16 \<le> mid \<and> 16 dvd last_free xs"
    by simp_all
qed

section \<open>Allocation\<close>

text \<open>The effect of \<open>carve\<close> on memory, as one expression.\<close>

definition carve_mem :: "usize \<Rightarrow> usize \<Rightarrow> usize \<Rightarrow> usize \<Rightarrow> usize \<Rightarrow> memory \<Rightarrow> usize \<Rightarrow> memory \<times> usize" where
  "carve_mem p a n u e m hd0 =
     (let nxt = load64 m (a + 8); front = u - 16 - a; back = a + n - e;
          st = (if 32 \<le> front then u - 16 else a); en = (if 32 \<le> back then e else a + n);
          m1 = (if 32 \<le> back then store64 (store64 m e back) (e + 8) nxt else m);
          r1 = (if 32 \<le> back then e else nxt);
          m2 = (if 32 \<le> front then store64 (store64 m1 a front) (a + 8) r1 else m1);
          r2 = (if 32 \<le> front then a else r1);
          m3 = (if p = 0 then m2 else store64 m2 (p + 8) r2) in
      (store64 (store64 m3 (u - 16) st) (u - 16 + 8) (en - st), if p = 0 then r2 else hd0))"

lemma carve_eq:
  assumes "a + 16 \<le> u" and "u + 16 \<le> e" and "e \<le> a + n" and "a + n \<le> usize_max"
    and "n \<le> heap_free_bytes h"
  shows "carve p a (a + n) u e h =
     Ok (u, h\<lparr>hmem := fst (carve_mem p a n u e (hmem h) (heap_head h)),
              heap_head := snd (carve_mem p a n u e (hmem h) (heap_head h)),
              heap_free_bytes := heap_free_bytes h -
                ((if 32 \<le> a + n - e then e else a + n) - (if 32 \<le> u - 16 - a then u - 16 else a))\<rparr>)"
  using assms by (auto simp: carve_def carve_mem_def Let_def ALLOC_HEADER_def MIN_BLOCK_def)

lemma carve_cells:
  fixes hd0 :: usize
  assumes al: "16 dvd a" "16 dvd u" "16 dvd e" "p \<noteq> 0 \<Longrightarrow> 16 dvd p \<and> p + 16 \<le> a"
    and le: "a + 16 \<le> u" "u + 16 \<le> e" "e \<le> a + n" "a + n \<le> usize_max"
    and C: "cells m a = (n, nxt)" "nxt \<le> usize_max"
  defines "front \<equiv> u - 16 - a" and "back \<equiv> a + n - e"
  defines "r1 \<equiv> (if 32 \<le> back then e else nxt)"
  defines "r2 \<equiv> (if 32 \<le> front then a else r1)"
    and "M \<equiv> cells (fst (carve_mem p a n u e m hd0))"
  shows "\<And>c. c + 16 \<le> a \<Longrightarrow> M c = (if p = 0 then cells m else (cells m)(p := (fst (cells m p), r2))) c"
    and "\<And>c. a + n \<le> c \<Longrightarrow> M c = cells m c"
    and "32 \<le> front \<Longrightarrow> M a = (front, r1)" and "32 \<le> back \<Longrightarrow> M e = (back, nxt)"
    and "M (u - 16) = (if 32 \<le> front then u - 16 else a,
           (if 32 \<le> back then e else a + n) - (if 32 \<le> front then u - 16 else a))"
    and "snd (carve_mem p a n u e m hd0) = (if p = 0 then r2 else hd0)"
proof -
  have nx: "load64 m (a + 8) = nxt" using C(1) al(1) by (simp add: cells_def)
  obtain q where q: "u = q + 16" using le(1) by (metis le_add_diff_inverse2 add_leD2)
  then have u16: "16 dvd q" "u - 16 = q" "q + 8 = 8 + q" using al(2) by simp_all
  have fq: "q - a = front" by (simp add: front_def q)
  have b: "front \<le> usize_max" "back \<le> usize_max" "r1 \<le> usize_max" "r2 \<le> usize_max" "q \<le> usize_max"
    using le C(2) by (auto simp: front_def back_def r1_def r2_def q)
  have M: "M = (let C1 = (if 32 \<le> back then (cells m)(e := (back, nxt)) else cells m);
                    C2 = (if 32 \<le> front then C1(a := (front, r1)) else C1);
                    C3 = (if p = 0 then C2 else C2(p := (fst (C2 p), r2))) in
                C3(u - 16 := (if 32 \<le> front then u - 16 else a,
                  (if 32 \<le> back then e else a + n) - (if 32 \<le> front then u - 16 else a))))"
    unfolding M_def carve_mem_def Let_def nx front_def [symmetric] back_def [symmetric]
      r1_def [symmetric] r2_def [symmetric] fst_conv u16(2) fq
    using al u16(1) b le C(2) by (simp add: cells_store_fst cells_store_snd cong: if_cong)
  show "\<And>c. c + 16 \<le> a \<Longrightarrow> M c = (if p = 0 then cells m else (cells m)(p := (fst (cells m p), r2))) c"
    using le al(4) by (auto simp: M Let_def)
  show "\<And>c. a + n \<le> c \<Longrightarrow> M c = cells m c"
    using le al(4) by (auto simp: M Let_def back_def)
  show "32 \<le> front \<Longrightarrow> M a = (front, r1)"
    using le al(4) by (auto simp: M Let_def front_def)
  show "32 \<le> back \<Longrightarrow> M e = (back, nxt)"
    using le al(4) by (auto simp: M Let_def front_def)
  show "M (u - 16) = (if 32 \<le> front then u - 16 else a,
           (if 32 \<le> back then e else a + n) - (if 32 \<le> front then u - 16 else a))"
    by (simp add: M Let_def)
  show "snd (carve_mem p a n u e m hd0) = (if p = 0 then r2 else hd0)"
    by (simp add: carve_mem_def Let_def nx r1_def r2_def front_def back_def)
qed

lemma carve_outside:
  assumes "a + 16 \<le> u" "u + 16 \<le> e" "e \<le> a + n" and "x < a \<or> a + n \<le> x" and "p \<noteq> 0 \<Longrightarrow> \<not> (p \<le> x \<and> x < p + 16)"
  shows "fst (carve_mem p a n u e m hd0) x = m x"
proof -
  obtain q where q: "u = q + 16" using assms(1) by (metis le_add_diff_inverse2 add_leD2)
  have 1: "store64 m' b v x = m' x" if "a \<le> b" "b + 8 \<le> a + n" for m' b v
    using that assms(4) by (intro store64_outside) auto
  have 2: "store64 m' (p + 8) v x = m' x" if "p \<noteq> 0" for m' v
    using that assms(5) by (intro store64_outside) auto
  show ?thesis using assms(1-3) by (simp add: carve_mem_def Let_def q 1 2)
qed

lemma tiling_split:
  assumes "16 dvd a" "16 dvd n" "16 dvd u" "a + 16 \<le> u" "16 dvd e" "u + 16 \<le> e" "e \<le> a + n"
  shows "tiling a (split_tile a n u e) (a + n)"
proof -
  have d: "16 dvd (u - 16)" "16 dvd (u - 16 - a)" "16 dvd (a + n - e)" "16 dvd (e - a)" "16 dvd (e - (u - 16))"
    "16 dvd (a + n - (u - 16))"
    using assms by (simp_all add: dvd_diff_nat)
  show ?thesis using assms d by (auto simp: split_tile_def Let_def)
qed

lemma coalesced_split:
  assumes "coalesced (xs @ (a, n, Free) # ys)"
  shows "coalesced (xs @ split_tile a n u e @ ys)"
  using assms unfolding coalesced_def split_tile_def Let_def
  by (auto simp: successively_append_iff successively_Cons)

lemma frees_split:
  "frees (split_tile a n u e) =
     (if 32 \<le> u - 16 - a then [(a, u - 16 - a)] else []) @ (if 32 \<le> a + n - e then [(e, a + n - e)] else [])"
  by (simp add: split_tile_def Let_def)

lemma heap_relD:
  assumes "heap_rel lo (xs @ ys) hi h"
  obtains mid e where "tiling lo xs mid" "tiling mid ys hi" "16 dvd mid" "lo \<le> mid" "mid \<le> hi"
    "chained (cells (hmem h)) (heap_head h) (frees xs) e" "chained (cells (hmem h)) e (frees ys) 0"
proof -
  from assms obtain mid e where m: "tiling lo xs mid" "tiling mid ys hi" and lo: "16 dvd lo"
    and e: "chained (cells (hmem h)) (heap_head h) (frees xs) e" "chained (cells (hmem h)) e (frees ys) 0"
    by (auto simp: heap_rel_def tiling_append)
  have "16 dvd mid" using m(1) lo
  proof (induction lo xs mid rule: tiling.induct)
    case (2 lo a n k ts hi)
    have "16 dvd n" using 2(2) by (cases k) auto
    with 2 show ?case by (auto simp: dvd_add)
  qed simp
  with m e show thesis using that tiling_le by blast
qed

lemma tiling_disjoint:
  assumes "tiling lo ts hi" and "(a, n, k) \<in> set ts" and "(b, j, l) \<in> set ts"
  shows "(a, n, k) = (b, j, l) \<or> a + n \<le> b \<or> b + j \<le> a"
  using assms
proof (induction lo ts hi rule: tiling.induct)
  case (2 lo c m r ts hi)
  have ge: "c + m \<le> x" if "(x, y, z) \<in> set ts" for x y z
  proof -
    have "tiling lo' ts hi \<Longrightarrow> (x, y, z) \<in> set ts \<Longrightarrow> lo' \<le> x" for lo'
      by (induction lo' ts hi rule: tiling.induct) (auto dest: tiling_le)
    with 2(2) that show ?thesis by auto
  qed
  show ?case using 2 ge by auto
qed simp

lemma payload_bounds:
  assumes "tiling lo ts hi" and "16 dvd lo" and "x \<in> payload ts"
  shows "lo \<le> x" and "x < hi"
  using assms tiling_mem [OF assms(1) _ assms(2)] by (fastforce simp: payload_def)+

lemma payload_last_free:
  assumes "tiling lo ts hi" and "16 dvd lo" and "x \<in> payload ts" and "last_free ts \<noteq> 0"
  shows "\<not> (last_free ts \<le> x \<and> x < last_free ts + 16)"
proof -
  from assms(4) obtain n where p: "(last_free ts, n, Free) \<in> set ts"
    by (cases rule: last_free_cases [of ts]) auto
  from assms(3) obtain b j q where q: "(b, j, Used q) \<in> set ts" "q \<le> x" "x < b + j" by (auto simp: payload_def)
  from tiling_disjoint [OF assms(1) p q(1)] tiling_mem [OF assms(1) p assms(2)]
    tiling_mem [OF assms(1) q(1) assms(2)] q(2,3)
  show ?thesis by auto
qed

lemma payload_append [simp]: "payload (xs @ ys) = payload xs \<union> payload ys"
  by (auto simp: payload_def)

lemma payload_simps [simp]: "payload [] = {}" "payload ((a, n, Free) # ts) = payload ts"
  by (auto simp: payload_def)

lemma carve_correct:
  assumes R: "heap_rel lo (xs @ (a, n, Free) # ys) hi h"
    and u: "16 dvd u" "a + 16 \<le> u" and e: "16 dvd e" "u + 16 \<le> e" "e \<le> a + n"
  shows "\<exists>h'. carve (last_free xs) a (a + n) u e h = Ok (u, h') \<and>
     heap_rel lo (xs @ split_tile a n u e @ ys) hi h' \<and>
     (\<forall>x\<in>payload (xs @ ys). hmem h' x = hmem h x)"
proof -
  let ?C = "cells (hmem h)" and ?p = "last_free xs"
  obtain mid t where T: "tiling lo xs mid" "tiling mid ((a, n, Free) # ys) hi" "16 dvd mid" "mid \<le> hi"
    and ch: "chained ?C (heap_head h) (frees xs) t" "chained ?C t (frees ((a, n, Free) # ys)) 0"
    by (rule heap_relD [OF R]) (rule that)
  have R': "0 < lo" "16 dvd lo" "hi \<le> 2 ^ 32" "coalesced (xs @ (a, n, Free) # ys)"
    "list_all (header_ok ?C) xs" "list_all (header_ok ?C) ys"
    "heap_free_bytes h = sum_list (map snd (frees xs)) + n + sum_list (map snd (frees ys))"
    using R by (auto simp: heap_rel_def)
  have a: "mid = a" "16 dvd a" "t = a" and n: "16 dvd n" "32 \<le> n" and Ty: "tiling (a + n) ys hi" "16 dvd (a + n)"
    and ya: "chained ?C (snd (?C a)) (frees ys) 0" and Ca: "?C a = (n, snd (?C a))"
    using T ch by (auto simp: dvd_add prod_eq_iff)
  have hi: "a + n \<le> hi" "hi \<le> usize_max" using tiling_le [OF Ty(1)] R'(3) by (simp_all add: usize_max_eq)
  have nx: "snd (?C a) \<le> usize_max" using a(2) by (simp add: cells_def load64_bound)
  note rl = relink [OF T(1) R'(2,1) ch(1) R'(5)]
  have p: "?p \<noteq> 0 \<Longrightarrow> 16 dvd ?p \<and> ?p + 16 \<le> a" using rl(4) a(1) by simp
  note cc = carve_cells [OF a(2) u(1) e(1) p u(2) e(2,3) order_trans [OF hi] Ca nx, where ?hd0.0 = "heap_head h"]
  let ?h = "h\<lparr>hmem := fst (carve_mem ?p a n u e (hmem h) (heap_head h)),
              heap_head := snd (carve_mem ?p a n u e (hmem h) (heap_head h)),
              heap_free_bytes := heap_free_bytes h -
                ((if 32 \<le> a + n - e then e else a + n) - (if 32 \<le> u - 16 - a then u - 16 else a))\<rparr>"
  let ?M = "cells (hmem ?h)"
  let ?r1 = "if 32 \<le> a + n - e then e else snd (?C a)"
  let ?r2 = "if 32 \<le> u - 16 - a then a else ?r1"
  have run: "carve ?p a (a + n) u e h = Ok (u, ?h)"
    by (rule carve_eq [OF u(2) e(2,3) order_trans [OF hi]]) (simp add: R'(7))
  have X: "chained ?M (heap_head ?h) (frees xs) ?r2" "list_all (header_ok ?M) xs"
  proof -
    let ?C' = "if ?p = 0 then ?C else ?C(?p := (fst (?C ?p), ?r2))"
    have eq: "?M c = ?C' c" if "c + 16 \<le> mid" for c using cc(1) [of c] that a(1) by simp
    note fr = tiling_frame [OF T(1) R'(2) eq]
    show "chained ?M (heap_head ?h) (frees xs) ?r2" using rl(1) [of ?r2] cc(6) fr(1) by (simp cong: if_cong)
    show "list_all (header_ok ?M) xs" using rl(2) [of ?r2] fr(2) by (simp cong: if_cong)
  qed
  have Y: "chained ?M (snd (?C a)) (frees ys) 0" "list_all (header_ok ?M) ys"
    using tiling_frame [OF Ty, of ?M ?C] cc(2) ya R'(6) by simp_all
  have S: "chained ?M ?r2 (frees (split_tile a n u e)) (snd (?C a))"
    "list_all (header_ok ?M) (split_tile a n u e)"
    using cc(3,4,5) by (auto simp: split_tile_def Let_def)
  have "heap_rel lo (xs @ split_tile a n u e @ ys) hi ?h"
    unfolding heap_rel_def
  proof (intro conjI)
    show "tiling lo (xs @ split_tile a n u e @ ys) hi"
      using T(1) Ty(1) tiling_split [OF a(2) n(1) u e] unfolding tiling_append a(1) by blast
    show "chained ?M (heap_head ?h) (frees (xs @ split_tile a n u e @ ys)) 0"
      using X(1) S(1) Y(1) unfolding frees_simps chained_append by blast
    show "list_all (header_ok ?M) (xs @ split_tile a n u e @ ys)" using X(2) S(2) Y(2) by simp
    show "heap_free_bytes ?h = sum_list (map snd (frees (xs @ split_tile a n u e @ ys)))"
      using u e R'(7) by (auto simp: frees_split)
  qed (use R' coalesced_split in auto)
  moreover have "hmem ?h x = hmem h x" if "x \<in> payload (xs @ ys)" for x
  proof -
    have "x < a \<or> a + n \<le> x" "?p \<noteq> 0 \<Longrightarrow> \<not> (?p \<le> x \<and> x < ?p + 16)"
      using that payload_bounds [OF T(1) R'(2), of x] payload_bounds [OF Ty, of x] a(1) p
        payload_last_free [OF T(1) R'(2), of x] by auto
    then show ?thesis using carve_outside [OF u(2) e(2,3)] by simp
  qed
  ultimately show ?thesis using run by blast
qed

lemma round_up_bounds:
  assumes "0 < al"
  shows "x \<le> round_up x al" and "round_up x al < x + al" and "al dvd round_up x al"
proof -
  have "(x + al - 1) mod al < al" using assms by simp
  moreover have "round_up x al + (x + al - 1) mod al = x + al - 1" by (simp add: round_up_def)
  ultimately show "x \<le> round_up x al" "round_up x al < x + al" using assms by linarith+
  show "al dvd round_up x al" by (simp add: round_up_def)
qed

lemma align_up_eq:
  assumes "al = 2 ^ k" and "k < 64" and "x + al \<le> usize_max"
  shows "align_up x al = Ok (round_up x al)"
proof -
  have "(x + al - 1) AND unot (2 ^ k - 1) = (x + al - 1) - (x + al - 1) mod 2 ^ k"
    using assms by (intro and_unot_mask) simp_all
  moreover have "1 \<le> al" using assms(1) by simp
  then have "usub (x + al) 1 = Ok (x + al - 1)" "usub al 1 = Ok (al - 1)" by (intro usub_Ok; simp)+
  ultimately show ?thesis
    using assms(1,3) by (simp only: align_up_def round_up_def minus_mod_eq_div_mult uadd_Ok bindR.simps)
qed

lemma pow2_dvd_16:
  assumes "al = (2::nat) ^ k" and "16 \<le> al" and "al dvd u"
  shows "16 dvd u"
proof -
  have "\<not> k < 4" using assms(1,2) power_strict_increasing [of k 4 "2 :: nat"] by auto
  then have "(2::nat) ^ 4 dvd al" unfolding assms(1) by (intro le_imp_power_dvd) simp
  then show ?thesis using assms(3) by (auto elim: dvd_trans)
qed

text \<open>The loop, on the requests it can be given: \<open>need\<close> a positive multiple of 16 and \<open>al\<close> a power of
  two of at least 16, small enough that the address computations do not overflow.\<close>

definition request_ok :: "usize \<Rightarrow> usize \<Rightarrow> bool" where
  "request_ok need al \<longleftrightarrow> 16 dvd need \<and> 16 \<le> need \<and> 16 \<le> al \<and> (\<exists>k<64. al = 2 ^ k) \<and>
     2 ^ 33 + al + need \<le> usize_max"

lemma block_bounds_eq:
  assumes "request_ok need al" and "16 dvd a" and "cells m a = (n, t)" and "a + n \<le> 2 ^ 32"
  shows "block_bounds need al a m = Ok (a + n, round_up (a + 16) al, round_up (a + 16) al + need)"
    and "16 dvd round_up (a + 16) al" and "a + 16 \<le> round_up (a + 16) al"
proof -
  from assms(1) obtain k where k: "k < 64" "al = 2 ^ k" and r: "16 \<le> al" "2 ^ 33 + al + need \<le> usize_max"
    by (auto simp: request_ok_def)
  note b = round_up_bounds [of al "a + 16"]
  have s: "load64 m a = n" using assms(2,3) by (simp add: cells_def)
  have "align_up (a + 16) al = Ok (round_up (a + 16) al)"
    using k r assms(4) by (intro align_up_eq) simp_all
  moreover have "round_up (a + 16) al + need \<le> usize_max" using b r assms(4) by simp
  ultimately show "block_bounds need al a m = Ok (a + n, round_up (a + 16) al, round_up (a + 16) al + need)"
    using s assms(4) r by (simp add: block_bounds_def ALLOC_HEADER_def)
  show "16 dvd round_up (a + 16) al" using pow2_dvd_16 [OF k(2) r(1) b(3)] r by simp
  show "a + 16 \<le> round_up (a + 16) al" using b(1) r by simp
qed

lemma alloc_loop_correct:
  assumes "heap_rel lo (xs @ zs) hi h" and req: "request_ok need al"
  shows "\<exists>r. alloc_loop need al (last_free xs) (first_free zs) h = Some (Ok r) \<and>
     (case alloc_tiles need al zs of
        None \<Rightarrow> r = (0, h)
      | Some (p, zs') \<Rightarrow> \<exists>h'. r = (p, h') \<and> heap_rel lo (xs @ zs') hi h' \<and>
          (\<forall>x\<in>payload (xs @ zs). hmem h' x = hmem h x))"
  using assms(1)
proof (induction zs arbitrary: xs)
  case Nil
  then show ?case by (simp add: alloc_loop.simps)
next
  case (Cons t zs)
  obtain a n k where t: "t = (a, n, k)" by (cases t)
  have IH: "\<exists>r. alloc_loop need al (last_free (xs @ [t])) (first_free zs) h = Some (Ok r) \<and>
     (case alloc_tiles need al zs of
        None \<Rightarrow> r = (0, h)
      | Some (p, zs') \<Rightarrow> \<exists>h'. r = (p, h') \<and> heap_rel lo (xs @ t # zs') hi h' \<and>
          (\<forall>x\<in>payload (xs @ t # zs). hmem h' x = hmem h x))"
    using Cons.IH [of "xs @ [t]"] Cons.prems unfolding append_assoc append_Cons append_Nil by blast
  show ?case
  proof (cases k)
    case (Used p)
    with IH show ?thesis by (cases "alloc_tiles need al zs") (auto simp: t)
  next
    case Free
    obtain mid e where T: "tiling mid ((a, n, Free) # zs) hi" "16 dvd mid" "lo \<le> mid"
      and ch: "chained (cells (hmem h)) e (frees ((a, n, Free) # zs)) 0"
      by (rule heap_relD [OF Cons.prems [unfolded t Free]]) (rule that)
    have R: "0 < lo" "hi \<le> 2 ^ 32" using Cons.prems by (simp_all add: heap_rel_def)
    have a: "16 dvd a" "0 < a" "a + n \<le> 2 ^ 32" "cells (hmem h) a = (n, snd (cells (hmem h) a))"
      "first_free zs = snd (cells (hmem h) a)"
      using T ch R tiling_le [of "a + n" zs hi] chained_first [of "cells (hmem h)" _ zs]
      by (auto simp: prod_eq_iff)
    let ?u = "round_up (a + 16) al"
    note bb = block_bounds_eq [OF req a(1,4,3)]
    show ?thesis
    proof (cases "?u + need \<le> a + n")
      case True
      have e: "16 dvd (?u + need)" "?u + 16 \<le> ?u + need" using bb(2) req by (auto simp: request_ok_def)
      from carve_correct [OF Cons.prems [unfolded t Free] bb(2,3) e True] obtain h' where
        "carve (last_free xs) a (a + n) ?u (?u + need) h = Ok (?u, h')"
        "heap_rel lo (xs @ split_tile a n ?u (?u + need) @ zs) hi h'"
        "\<forall>x\<in>payload (xs @ zs). hmem h' x = hmem h x" by blast
      moreover have "payload (xs @ t # zs) = payload (xs @ zs)" by (auto simp: payload_def t Free)
      ultimately show ?thesis using True a(2) bb(1)
        by (simp add: t Free alloc_loop.simps [of need al _ a] Let_def)
    next
      case False
      then have "alloc_loop need al (last_free xs) a h = alloc_loop need al a (first_free zs) h"
        using a(1,2,5) bb(1) by (simp add: alloc_loop.simps [of need al _ a] load64_cells)
      with IH False show ?thesis by (cases "alloc_tiles need al zs") (auto simp: t Free Let_def)
    qed
  qed
qed

text \<open>What \<open>core::alloc::Layout\<close> guarantees: the alignment is a power of two, and the size rounded up to
  it does not exceed \<open>isize::MAX\<close>.\<close>

definition layout_valid :: "alloc_layout \<Rightarrow> bool" where
  "layout_valid lay \<longleftrightarrow> (\<exists>k<64. layout_align lay = 2 ^ k) \<and>
     div_ceil (layout_size lay) (layout_align lay) * layout_align lay \<le> 2 ^ 63 - 1"

definition heap_need :: "alloc_layout \<Rightarrow> usize" where
  "heap_need lay = round_up (max (layout_size lay) 1) 16"

lemma layout_request:
  assumes "layout_valid lay"
  shows "request_ok (heap_need lay) (max (layout_align lay) 16)"
    and "align_up (max (layout_size lay) 1) HALIGN = Ok (heap_need lay)"
proof -
  let ?s = "layout_size lay" and ?a = "layout_align lay"
  from assms obtain k where k: "k < 64" "?a = 2 ^ k" and b: "div_ceil ?s ?a * ?a \<le> 2 ^ 63 - 1"
    by (auto simp: layout_valid_def)
  have a: "0 < ?a" "?a \<le> 2 ^ 63" using k power_increasing [of k 63 "2 :: nat"] by simp_all
  have sz: "?s \<le> 2 ^ 63 - 1" using div_ceil_bounds(1) [OF a(1), of ?s] b by linarith
  have small: "?a \<le> 2 ^ 62" if "0 < ?s"
  proof (rule ccontr)
    assume "\<not> ?a \<le> 2 ^ 62"
    then have "k = 63" using k power_increasing [of k 62 "2 :: nat"] by (cases "k \<le> 62") auto
    moreover have "0 < div_ceil ?s ?a" using div_ceil_bounds(1) [OF a(1), of ?s] that by (cases "div_ceil ?s ?a") auto
    ultimately show False using b k(2) by (cases "div_ceil ?s ?a") auto
  qed
  note r = round_up_bounds [of 16 "max ?s 1"]
  have "\<exists>k<64. max ?a 16 = 2 ^ k"
    using k by (cases "?a \<le> 16") (auto intro: exI [of _ 4])
  moreover have "2 ^ 33 + max ?a 16 + heap_need lay \<le> usize_max"
    using sz a(2) small r(2) by (cases "0 < ?s") (auto simp: heap_need_def usize_max_eq)
  ultimately show "request_ok (heap_need lay) (max ?a 16)"
    using r by (auto simp: request_ok_def heap_need_def dest: dvd_imp_le)
  have "align_up (max ?s 1) HALIGN = Ok (round_up (max ?s 1) HALIGN)"
    using sz by (intro align_up_eq [of _ 4]) (simp_all add: HALIGN_def usize_max_eq)
  then show "align_up (max ?s 1) HALIGN = Ok (heap_need lay)" by (simp add: heap_need_def HALIGN_def)
qed

lemma alloc_inner_refines:
  assumes "heap_rel lo ts hi h" and "layout_valid lay"
  shows "case alloc_tiles (heap_need lay) (max (layout_align lay) 16) ts of
      None \<Rightarrow> alloc_inner lay h = Some (Ok (0, h))
    | Some (p, ts') \<Rightarrow> \<exists>h'. alloc_inner lay h = Some (Ok (p, h')) \<and> heap_rel lo ts' hi h' \<and>
        (\<forall>x\<in>payload ts. hmem h' x = hmem h x)"
proof -
  have "heap_head h = first_free ts" using assms(1) chained_first unfolding heap_rel_def by blast
  then have "alloc_inner lay h =
      alloc_loop (heap_need lay) (max (layout_align lay) 16) (last_free []) (first_free ts) h"
    using layout_request(2) [OF assms(2)] by (simp add: alloc_inner_def) (simp add: HALIGN_def)
  then show ?thesis using alloc_loop_correct [of lo "[]" ts hi h, OF _ layout_request(1) [OF assms(2)]] assms(1)
    by (auto split: option.splits)
qed

section \<open>Deallocation\<close>

lemma find_slot_correct:
  assumes "heap_rel lo (xs @ ws @ (a, n, Used p) # ys) hi h"
  shows "find_slot a (last_free xs) (first_free (ws @ (a, n, Used p) # ys)) (hmem h) =
         Some (last_free (xs @ ws), first_free ys)"
  using assms
proof (induction ws arbitrary: xs)
  case Nil
  obtain mid where T: "tiling mid ((a, n, Used p) # ys) hi" "16 dvd mid"
    by (rule heap_relD [OF Nil [unfolded append_Nil]]) (rule that)
  have "first_free ys = 0 \<or> a < first_free ys"
  proof (cases "frees ys")
    case (Cons b bs)
    obtain c j where b: "b = (c, j)" by (cases b)
    with Cons have "(c, j, Free) \<in> set ys" "first_free ys = c"
      by (simp_all add: first_free_def flip: mem_frees)
    with T tiling_mem [of "a + n" ys hi c j Free] show ?thesis by (auto simp: dvd_add)
  qed (simp add: first_free_def)
  then show ?case by (subst find_slot.simps) auto
next
  case (Cons t ws)
  obtain b j k where t: "t = (b, j, k)" by (cases t)
  have IH: "find_slot a (last_free (xs @ [t])) (first_free (ws @ (a, n, Used p) # ys)) (hmem h) =
         Some (last_free (xs @ t # ws), first_free ys)"
    using Cons.IH [of "xs @ [t]"] Cons.prems by simp
  show ?case
  proof (cases k)
    case (Used q)
    with IH show ?thesis by (simp add: t)
  next
    case Free
    obtain mid e where T: "tiling mid (t # ws @ (a, n, Used p) # ys) hi" "16 dvd mid" "lo \<le> mid"
      and ch: "chained (cells (hmem h)) e (frees (t # ws @ (a, n, Used p) # ys)) 0"
      by (rule heap_relD [OF Cons.prems [unfolded append_Cons]]) (rule that)
    have "0 < lo" using Cons.prems by (simp add: heap_rel_def)
    then have b: "0 < b" "16 dvd b" "tiling (b + j) (ws @ (a, n, Used p) # ys) hi" "32 \<le> j" "16 dvd (b + j)"
      "snd (cells (hmem h) b) = first_free (ws @ (a, n, Used p) # ys)"
      using T ch chained_first [of "cells (hmem h)" _ "ws @ (a, n, Used p) # ys"] by (auto simp: t Free dvd_add)
    from tiling_mem [OF b(3) _ b(5), of a n "Used p"] b(4) have "b < a" by auto
    then have "find_slot a (last_free xs) b (hmem h) = find_slot a b (first_free (ws @ (a, n, Used p) # ys)) (hmem h)"
      using b(1,2,6) by (subst find_slot.simps) (simp add: load64_cells)
    with IH show ?thesis by (simp add: t Free)
  qed
qed

text \<open>Inserting the freed block and merging it forward.\<close>

definition link_forward :: "usize \<Rightarrow> usize \<Rightarrow> usize \<Rightarrow> usize \<Rightarrow> memory \<Rightarrow> memory result" where
  "link_forward start sz en cur m0 =
     (let m = store64 (store64 m0 start sz) (start + 8) cur in
      if cur \<noteq> 0 \<and> en = cur
      then bindR (uadd (load64 m start) (load64 m cur)) (\<lambda>n.
           let m = store64 m start n in Ok (store64 m (start + 8) (load64 m (cur + 8))))
      else Ok m)"

lemma first_free_gt:
  assumes "tiling lo ys hi" and "16 dvd lo" and "first_free ys \<noteq> 0"
  shows "lo \<le> first_free ys" and "ys = (b, j, Used q) # zs \<Longrightarrow> lo < first_free ys" and "first_free ys \<le> hi"
proof -
  have "lo \<le> first_free ys \<and> (\<forall>b j q zs. ys = (b, j, Used q) # zs \<longrightarrow> lo < first_free ys) \<and> first_free ys \<le> hi"
    using assms
  proof (induction lo ys hi rule: tiling.induct)
    case (2 lo a n k ts hi)
    show ?case
    proof (cases k)
      case Free
      then show ?thesis using 2(2) tiling_le [of "a + n" ts hi] by auto
    next
      case (Used q)
      then have "16 dvd n" "32 \<le> n" using 2(2) by auto
      then show ?thesis using 2 Used by (auto simp: dvd_add)
    qed
  qed simp
  then show "lo \<le> first_free ys" "ys = (b, j, Used q) # zs \<Longrightarrow> lo < first_free ys" "first_free ys \<le> hi" by auto
qed

lemma link_forward_correct:
  assumes T: "tiling a ((a, n, Used p) # ys) hi" and a: "16 dvd a" "hi \<le> 2 ^ 32"
    and co: "coalesced ((a, n, Used p) # ys)"
    and ch: "chained (cells m) (first_free ys) (frees ys) 0" and hd: "list_all (header_ok (cells m)) ys"
  obtains m1 N zs where "link_forward a n (a + n) (first_free ys) m = Ok m1"
    and "merge_front (a, n, Free) ys = (a, N, Free) # zs"
    and "tiling a ((a, N, Free) # zs) hi" and "coalesced ((a, N, Free) # zs)" and "n \<le> N"
    and "cells m1 = (cells m)(a := (N, first_free zs))"
    and "chained (cells m) (first_free zs) (frees zs) 0" and "list_all (header_ok (cells m)) zs"
    and "\<And>x. \<not> (a \<le> x \<and> x < a + 16) \<Longrightarrow> m1 x = m x"
    and "n + sum_list (map snd (frees ys)) = N + sum_list (map snd (frees zs))" and "payload zs = payload ys"
proof -
  let ?f = "first_free ys" and ?C = "cells m"
  have n: "16 dvd n" "32 \<le> n" "16 dvd (a + n)" "tiling (a + n) ys hi" using T a by (auto simp: dvd_add)
  have le: "a + n \<le> usize_max" "?f \<le> usize_max"
    using tiling_le [OF n(4)] first_free_gt(3) [OF n(4,3)] a(2) by (cases "?f = 0"; simp add: usize_max_eq)+
  have C1: "cells (store64 (store64 m a n) (a + 8) ?f) = ?C(a := (n, ?f))"
    using a(1) le by (simp add: cells_store_fst cells_store_snd)
  have out: "store64 (store64 m' a v) (a + 8) w x = m' x" if "\<not> (a \<le> x \<and> x < a + 16)" for m' v w x
    using that by (auto simp: store64_outside)
  consider (merge) j zs where "ys = (a + n, j, Free) # zs" | (used) b j q zs where "ys = (b, j, Used q) # zs" | (nil) "ys = []"
    using n(4) by (cases "(a + n, ys, hi)" rule: tiling.cases) (auto, metis tag.exhaust)
  then show thesis
  proof cases
    case merge
    have Cb: "fst (?C (a + n)) = j" "chained ?C (snd (?C (a + n))) (frees zs) 0"
      using ch by (simp_all add: merge)
    then have Cb2: "snd (?C (a + n)) = first_free zs" using chained_first by blast
    have j: "16 dvd j" "32 \<le> j" "tiling (a + n + j) zs hi" using n(4) by (simp_all add: merge)
    have le2: "n + j \<le> usize_max" using tiling_le [OF j(3)] a(2) by (simp add: usize_max_eq)
    let ?m = "store64 (store64 m a n) (a + 8) (a + n)"
    have c: "cells ?m = ?C(a := (n, a + n))" using C1 by (simp add: merge)
    have l: "load64 ?m a = n" "load64 ?m (a + n) = j"
      using a(1) n c Cb(1) load64_cells(1) [of a ?m] load64_cells(1) [of "a + n" ?m] by simp_all
    have c2: "cells (store64 ?m a (n + j)) = ?C(a := (n + j, a + n))"
      using a(1) le2 by (simp add: cells_store_fst c)
    have l2: "load64 (store64 ?m a (n + j)) (a + n + 8) = first_free zs"
      using load64_cells(2) [of "a + n" "store64 ?m a (n + j)"] n c2 Cb2 by simp
    have "first_free zs \<le> usize_max" using Cb2 n(3) by (metis cells_def load64_bound snd_conv)
    then have c3: "cells (store64 (store64 ?m a (n + j)) (a + 8) (first_free zs)) = ?C(a := (n + j, first_free zs))"
      using a(1) by (simp add: cells_store_snd c2)
    show thesis
    proof (rule that)
      show "link_forward a n (a + n) ?f m = Ok (store64 (store64 ?m a (n + j)) (a + 8) (first_free zs))"
        using l l2 le2 n(2) by (simp add: link_forward_def merge Let_def)
      show "tiling a ((a, n + j, Free) # zs) hi" using j n by (simp add: dvd_add add.assoc)
      show "coalesced ((a, n + j, Free) # zs)"
        using co by (auto simp: coalesced_def merge successively_Cons)
      show "chained ?C (first_free zs) (frees zs) 0" using Cb Cb2 by simp
    qed (use c3 hd out in \<open>auto simp: merge payload_def\<close>)
  next
    case used
    have "?f = 0 \<or> a + n < ?f" using first_free_gt(2) [OF n(4,3) _ used] by auto
    then have "link_forward a n (a + n) ?f m = Ok (store64 (store64 m a n) (a + 8) ?f)"
      by (auto simp: link_forward_def Let_def)
    then show thesis
    proof (rule that)
      show "coalesced ((a, n, Free) # ys)" using co by (auto simp: coalesced_def used successively_Cons)
    qed (use T n C1 ch hd out in \<open>auto simp: used\<close>)
  next
    case nil
    have "link_forward a n (a + n) ?f m = Ok (store64 (store64 m a n) (a + 8) ?f)"
      by (simp add: link_forward_def Let_def nil)
    then show thesis
      by (rule that) (use T n C1 ch hd out in \<open>auto simp: nil coalesced_def\<close>)
  qed
qed

lemma link_block_eq:
  "link_block start sz en prev cur h =
     bindR (link_forward start sz en cur (hmem h)) (\<lambda>m.
     bindR (if prev \<noteq> 0 then bindR (uadd prev (load64 m prev)) (\<lambda>e. Ok (e = start)) else Ok False) (\<lambda>merge.
     if merge
     then bindR (uadd (load64 m prev) (load64 m start)) (\<lambda>n.
          let m = store64 m prev n in
          Ok (h\<lparr>hmem := store64 m (prev + 8) (load64 m (start + 8))\<rparr>))
     else if prev = 0 then Ok (h\<lparr>hmem := m, heap_head := start\<rparr>)
     else Ok (h\<lparr>hmem := store64 m (prev + 8) start\<rparr>)))"
  by (simp add: link_block_def link_forward_def Let_def)

lemma merge_back_snoc:
  "merge_back (xs @ [(b, i, Free)]) ((a, n, k) # zs) = xs @ (b, i + n, Free) # zs"
  "merge_back (xs @ [(b, i, Used q)]) ts = xs @ (b, i, Used q) # ts"
proof -
  show "merge_back (xs @ [(b, i, Free)]) ((a, n, k) # zs) = xs @ (b, i + n, Free) # zs"
  proof (induction xs)
    case (Cons x xs)
    then show ?case by (cases xs) auto
  qed simp
  show "merge_back (xs @ [(b, i, Used q)]) ts = xs @ (b, i, Used q) # ts"
  proof (induction xs)
    case (Cons x xs)
    then show ?case by (cases xs) auto
  qed simp
qed

text \<open>Merging backward, in the state after the forward merge.\<close>

lemma link_back_merge:
  assumes T: "tiling lo (vs @ [(b, i, Free)]) a" "tiling a ((a, N, Free) # zs) hi" "16 dvd lo" "0 < lo" "hi \<le> 2 ^ 32"
    and C: "cells m1 = C(a := (N, first_free zs))"
    and X: "chained C hd0 (frees (vs @ [(b, i, Free)])) e" "list_all (header_ok C) vs"
    and Z: "chained C (first_free zs) (frees zs) 0" "list_all (header_ok C) zs"
  defines "M \<equiv> store64 (store64 m1 b (i + N)) (b + 8) (first_free zs)"
  shows "uadd b (load64 m1 b) = Ok a" and "load64 m1 b = i" and "load64 m1 a = N"
    and "i + N \<le> usize_max" and "load64 (store64 m1 b (i + N)) (a + 8) = first_free zs"
    and "tiling lo (vs @ (b, i + N, Free) # zs) hi"
    and "chained (cells M) hd0 (frees (vs @ (b, i + N, Free) # zs)) 0"
    and "list_all (header_ok (cells M)) (vs @ (b, i + N, Free) # zs)"
proof -
  from T(1) obtain mid where v: "tiling lo vs mid" "mid = b" "16 dvd i" "32 \<le> i" "b + i = a"
    by (auto simp: tiling_append)
  have b: "16 dvd b" "lo \<le> b" using tiling_mem [OF T(1) _ T(3), of b i Free] by auto
  have a: "16 dvd a" using b(1) v(3,5) by (metis dvd_add)
  have N: "16 dvd N" "32 \<le> N" "tiling (a + N) zs hi" "16 dvd (a + N)" using T(2) a by (auto simp: dvd_add)
  have le: "a + N \<le> usize_max" using tiling_le [OF N(3)] T(5) by (simp add: usize_max_eq)
  have fz: "first_free zs \<le> usize_max"
    using first_free_gt(3) [OF N(3,4)] T(5) by (cases "first_free zs = 0") (simp_all add: usize_max_eq)
  have Cb: "fst (C b) = i" "chained C hd0 (frees vs) b" using X(1) by auto
  show l: "load64 m1 b = i" "load64 m1 a = N"
    using load64_cells(1) [OF b(1), of m1] load64_cells(1) [OF a, of m1] Cb v(4,5) by (auto simp: C)
  show "uadd b (load64 m1 b) = Ok a" using l v(5) le by simp
  show iN: "i + N \<le> usize_max" using le v(5) by simp
  have c1: "cells (store64 m1 b (i + N)) = C(a := (N, first_free zs), b := (i + N, snd (C b)))"
    using cells_store_fst [OF b(1) iN] v(4,5) by (auto simp: C)
  show "load64 (store64 m1 b (i + N)) (a + 8) = first_free zs"
    using load64_cells(2) [OF a] v(4,5) by (simp add: c1)
  have M: "cells M = C(a := (N, first_free zs), b := (i + N, first_free zs))"
    using b(1) fz by (simp add: M_def cells_store_snd c1)
  show "tiling lo (vs @ (b, i + N, Free) # zs) hi"
    using v N unfolding tiling_append by (auto simp: dvd_add add.assoc)
  note fv = tiling_frame [OF v(1) T(3), of "cells M" C]
  note fz = tiling_frame [OF N(3,4), of "cells M" C]
  show "chained (cells M) hd0 (frees (vs @ (b, i + N, Free) # zs)) 0"
    using fv(1) fz(1) Cb Z(1) v N(2) by (auto simp: M)
  show "list_all (header_ok (cells M)) (vs @ (b, i + N, Free) # zs)"
    using fv(2) fz(2) X(2) Z(2) v N(2) by (auto simp: M)
qed

lemma last_free_gap:
  assumes T: "tiling lo xs a" "16 dvd lo" and u: "xs = [] \<or> \<not> is_free (last xs)" and p: "last_free xs \<noteq> 0"
    and ch: "chained C h (frees xs) e"
  shows "last_free xs + fst (C (last_free xs)) < a"
  using last_free_cases [of xs]
proof cases
  case (2 ys b n zs)
  then have "zs \<noteq> []" using u by auto
  then obtain c j k ws where z: "zs = (c, j, k) # ws" by (cases zs) auto
  have "c = b + n" "32 \<le> n" using T(1) by (auto simp: 2(1) z tiling_append)
  moreover have "c + j \<le> a" "32 \<le> j"
    using tiling_mem [OF T(1) _ T(2), of c j k] by (auto simp: 2(1) z elim: tile_ok.elims)
  moreover have "fst (C b) = n" using ch by (auto simp: 2(1))
  ultimately show ?thesis using 2(3) by simp
qed (use p in simp)

lemma link_block_correct:
  assumes R: "heap_rel lo (xs @ (a, n, Used p) # ys) hi h"
  shows "\<exists>h'. link_block a n (a + n) (last_free xs) (first_free ys)
            (h\<lparr>heap_free_bytes := heap_free_bytes h + n\<rparr>) = Ok h' \<and>
     heap_rel lo (merge_back xs (merge_front (a, n, Free) ys)) hi h' \<and>
     (\<forall>x\<in>payload (xs @ ys). hmem h' x = hmem h x)"
proof -
  let ?C = "cells (hmem h)" and ?h = "h\<lparr>heap_free_bytes := heap_free_bytes h + n\<rparr>"
  obtain mid e where T: "tiling lo xs mid" "tiling mid ((a, n, Used p) # ys) hi" "16 dvd mid"
    and ch: "chained ?C (heap_head h) (frees xs) e" "chained ?C e (frees ((a, n, Used p) # ys)) 0"
    by (rule heap_relD [OF R]) (rule that)
  have R': "0 < lo" "16 dvd lo" "hi \<le> 2 ^ 32" "coalesced (xs @ (a, n, Used p) # ys)"
    "list_all (header_ok ?C) xs" "list_all (header_ok ?C) ys"
    "heap_free_bytes h = sum_list (map snd (frees xs)) + sum_list (map snd (frees ys))"
    using R by (auto simp: heap_rel_def)
  have a: "mid = a" "16 dvd a" using T(2,3) by auto
  have e: "chained ?C (first_free ys) (frees ys) 0" using ch(2) chained_first by fastforce
  have co: "coalesced ((a, n, Used p) # ys)" "coalesced xs" using R'(4) by (auto simp: coalesced_def successively_append_iff)
  obtain m1 N zs where lf: "link_forward a n (a + n) (first_free ys) (hmem h) = Ok m1"
    and mf: "merge_front (a, n, Free) ys = (a, N, Free) # zs"
    and Tz: "tiling a ((a, N, Free) # zs) hi" and cz: "coalesced ((a, N, Free) # zs)" and nN: "n \<le> N"
    and m1: "cells m1 = ?C(a := (N, first_free zs))"
    and Z: "chained ?C (first_free zs) (frees zs) 0" "list_all (header_ok ?C) zs"
    and out: "\<And>x. \<not> (a \<le> x \<and> x < a + 16) \<Longrightarrow> m1 x = hmem h x"
    and sum: "n + sum_list (map snd (frees ys)) = N + sum_list (map snd (frees zs))" and pl: "payload zs = payload ys"
    by (rule link_forward_correct [OF T(2) [unfolded a(1)] a(2) R'(3) co(1) e R'(6)]) (rule that)
  have za: "x \<in> payload ys \<Longrightarrow> a + n \<le> x" for x
    using payload_bounds(1) [of "a + n" ys hi x] T(2) a by (auto simp: dvd_add)
  have n32: "32 \<le> n" using T(2) by simp
  have out': "m1 x = hmem h x" if "x \<in> payload (xs @ ys)" for x
    using that za [of x] payload_bounds(2) [OF T(1) R'(2), of x] a(1) n32 by (intro out) auto
  show ?thesis
  proof (cases "xs \<noteq> [] \<and> is_free (last xs)")
    case True
    then obtain vs b i where xs: "xs = vs @ [(b, i, Free)]" by (cases xs rule: rev_cases) auto
    let ?M = "store64 (store64 m1 b (i + N)) (b + 8) (first_free zs)"
    note lb = link_back_merge [OF T(1) [unfolded xs a(1)] Tz R'(2,1,3) m1 ch(1) [unfolded xs] _ Z]
    have hv: "list_all (header_ok ?C) vs" using R'(5) by (simp add: xs)
    have "0 < b" using tiling_mem [OF T(1) _ R'(2), of b i Free] R'(1) by (auto simp: xs)
    then have run: "link_block a n (a + n) (last_free xs) (first_free ys) ?h = Ok (?h\<lparr>hmem := ?M\<rparr>)"
      using lb(1-5) [OF hv] lf by (simp add: link_block_eq xs Let_def)
    have "heap_rel lo (vs @ (b, i + N, Free) # zs) hi (?h\<lparr>hmem := ?M\<rparr>)"
      using lb(6-8) [OF hv] R' co(2) cz sum
      by (auto simp: heap_rel_def xs coalesced_def successively_append_iff successively_Cons)
    moreover have "?M x = m1 x" if "x \<in> payload (xs @ ys)" for x
    proof -
      have "\<not> (b \<le> x \<and> x < b + 16)"
        using that payload_last_free [OF T(1) R'(2), of x] za [of x] \<open>0 < b\<close>
          tiling_mem [OF T(1) _ R'(2), of b i Free] a(1) by (auto simp: xs)
      then show ?thesis by (auto simp: store64_outside)
    qed
    ultimately show ?thesis using run out' by (auto simp: mf xs merge_back_snoc)
  next
    case False
    let ?P = "last_free xs"
    let ?M = "if ?P = 0 then m1 else store64 m1 (?P + 8) a" and ?H = "if ?P = 0 then a else heap_head h"
    have fr: "chained (cells m1) t (frees xs) e' \<longleftrightarrow> chained ?C t (frees xs) e'"
      "list_all (header_ok (cells m1)) xs \<longleftrightarrow> list_all (header_ok ?C) xs" for t e'
      by (rule tiling_frame [OF T(1) R'(2)], simp add: m1 a(1))+
    have ch1: "chained (cells m1) (heap_head h) (frees xs) e" "list_all (header_ok (cells m1)) xs"
      using fr ch(1) R'(5) by simp_all
    note rl = relink(1-3) [where e' = a, OF T(1) R'(2,1) ch1] relink(4) [OF T(1) R'(2,1) ch1]
    have pal: "16 dvd ?P" "?P + 16 \<le> a" if "?P \<noteq> 0" using rl(4) that a(1) by auto
    have la: "a \<le> usize_max" using tiling_le [OF T(2)] R'(3) a(1) by (simp add: usize_max_eq)
    have cM: "cells ?M = (if ?P = 0 then cells m1 else (cells m1)(?P := (fst (cells m1 ?P), a)))"
      using pal la by (simp add: cells_store_snd)
    have gap: "?P + fst (cells m1 ?P) < a" if "?P \<noteq> 0"
      using last_free_gap [OF T(1) R'(2) _ that ch1(1)] False a(1) by auto
    have run: "link_block a n (a + n) ?P (first_free ys) ?h = Ok (?h\<lparr>hmem := ?M, heap_head := ?H\<rparr>)"
      using lf gap pal la by (auto simp: link_block_eq load64_cells)
    have Tz': "tiling (a + N) zs hi" "16 dvd (a + N)" "0 < N" using Tz a(2) by (auto simp: dvd_add)
    have zz: "chained (cells ?M) (first_free zs) (frees zs) 0" "list_all (header_ok (cells ?M)) zs"
      using tiling_frame [OF Tz'(1,2), of "cells ?M" ?C] Z pal Tz'(3) by (auto simp: cM m1)
    have "cells ?M a = (N, first_free zs)" using pal by (auto simp: cM m1)
    then have "heap_rel lo (xs @ (a, N, Free) # zs) hi (?h\<lparr>hmem := ?M, heap_head := ?H\<rparr>)"
      using rl(1,2) zz R' T(1) Tz a(1) co(2) cz sum False
      unfolding heap_rel_def cM [symmetric]
      by (auto simp: tiling_append coalesced_def successively_append_iff simp del: tiling.simps)
    moreover have "?M x = m1 x" if "x \<in> payload (xs @ ys)" for x
      using that payload_last_free [OF T(1) R'(2), of x] za [of x] pal by (auto simp: store64_outside)
    moreover have "merge_back xs ((a, N, Free) # zs) = xs @ (a, N, Free) # zs"
    proof (cases xs rule: rev_cases)
      case (snoc vs t)
      then obtain b i q where "t = (b, i, Used q)" using False by (cases t rule: tile_ok.cases) auto
      with snoc show ?thesis by (simp add: merge_back_snoc)
    qed simp
    ultimately show ?thesis using run out' by (simp only: mf) auto
  qed
qed

lemma tiling_sum:
  "tiling lo ts hi \<Longrightarrow> lo + sum_list (map snd (frees ts)) \<le> hi"
  "tiling lo ts hi \<Longrightarrow> (a, n, Used p) \<in> set ts \<Longrightarrow> lo + sum_list (map snd (frees ts)) + n \<le> hi"
proof -
  show 1: "tiling lo ts hi \<Longrightarrow> lo + sum_list (map snd (frees ts)) \<le> hi" for lo ts hi
  proof (induction lo ts hi rule: tiling.induct)
    case (2 lo b j k ts hi)
    then show ?case by (cases k) auto
  qed simp
  show "tiling lo ts hi \<Longrightarrow> (a, n, Used p) \<in> set ts \<Longrightarrow> lo + sum_list (map snd (frees ts)) + n \<le> hi"
  proof (induction lo ts hi rule: tiling.induct)
    case (2 lo b j k ts hi)
    then have "tiling (b + j) ts hi" by auto
    with 2 1 [OF this] show ?case by (cases k) auto
  qed simp
qed

lemma tiling_distinct: "tiling lo ts hi \<Longrightarrow> distinct ts \<and> (\<forall>(a, n, k)\<in>set ts. lo \<le> a)"
proof (induction lo ts hi rule: tiling.induct)
  case (2 lo a n k ts hi)
  have "0 < n" using 2(2) by (cases k) auto
  with 2 show ?case by fastforce
qed simp

lemma free_tile_split:
  "\<forall>t\<in>set ws. snd (snd t) \<noteq> Used p \<Longrightarrow>
   free_tile xs p (ws @ (a, n, Used p) # ys) = merge_back (xs @ ws) (merge_front (a, n, Free) ys)"
  by (induction ws arbitrary: xs) auto

lemma dealloc_tiles_split:
  assumes T: "tiling lo ts hi" "16 dvd lo" and m: "(a, n, Used p) \<in> set ts"
  obtains xs ys where "ts = xs @ (a, n, Used p) # ys"
    and "dealloc_tiles p ts = merge_back xs (merge_front (a, n, Free) ys)"
proof -
  from split_list_first [OF m] obtain xs ys where ts: "ts = xs @ (a, n, Used p) # ys" "(a, n, Used p) \<notin> set xs"
    by blast
  have "snd (snd t) \<noteq> Used p" if "t \<in> set xs" for t
  proof
    assume u: "snd (snd t) = Used p"
    obtain b j where t: "t = (b, j, Used p)" using u by (cases t) auto
    have "(b, j, Used p) \<in> set ts" using that ts(1) t by simp
    from tiling_disjoint [OF T(1) this m] tiling_mem [OF T(1) this T(2)] tiling_mem [OF T(1) m T(2)]
    show False using that ts(2) t by auto
  qed
  with ts(1) that show thesis by (simp add: dealloc_tiles_def free_tile_split)
qed

lemma dealloc_inner_refines:
  assumes R: "heap_rel lo ts hi h" and m: "(a, n, Used p) \<in> set ts"
  shows "\<exists>h'. dealloc_inner p h = Some (Ok h') \<and> heap_rel lo (dealloc_tiles p ts) hi h' \<and>
     (\<forall>x\<in>payload (filter (\<lambda>t. t \<noteq> (a, n, Used p)) ts). hmem h' x = hmem h x)"
proof -
  have R': "tiling lo ts hi" "16 dvd lo" "hi \<le> 2 ^ 32" "list_all (header_ok (cells (hmem h))) ts"
    "chained (cells (hmem h)) (heap_head h) (frees ts) 0" "heap_free_bytes h = sum_list (map snd (frees ts))"
    using R by (simp_all add: heap_rel_def)
  obtain xs ys where ts: "ts = xs @ (a, n, Used p) # ys"
    and d: "dealloc_tiles p ts = merge_back xs (merge_front (a, n, Free) ys)"
    by (rule dealloc_tiles_split [OF R'(1,2) m]) (rule that)
  from tiling_mem [OF R'(1) m R'(2)] have a: "16 dvd (p - 16)" "16 \<le> p" "a + n \<le> hi"
    by (auto simp: dvd_diff_nat)
  have C: "cells (hmem h) (p - 16) = (a, n)" using R'(4) by (simp add: ts)
  have l: "load64 (hmem h) (p - 16) = a" "load64 (hmem h) (p - 16 + 8) = n"
    using a(1) C by (simp_all add: load64_cells)
  have fb: "heap_free_bytes h + n \<le> usize_max"
    using tiling_sum(2) [OF R'(1) m] R'(3,6) by (simp add: usize_max_eq)
  have fs: "find_slot a 0 (heap_head h) (hmem h) = Some (last_free xs, first_free ys)"
    using find_slot_correct [of lo "[]" xs a n p ys hi h] R chained_first [OF R'(5)] by (simp add: ts)
  from link_block_correct [OF R [unfolded ts]] obtain h' where
    h': "link_block a n (a + n) (last_free xs) (first_free ys) (h\<lparr>heap_free_bytes := heap_free_bytes h + n\<rparr>) = Ok h'"
      "heap_rel lo (dealloc_tiles p ts) hi h'" "\<forall>x\<in>payload (xs @ ys). hmem h' x = hmem h x"
    unfolding d by blast
  have "dealloc_inner p h = Some (Ok h')"
    using a(2,3) R'(3) l fb fs h'(1) by (simp add: dealloc_inner_def ALLOC_HEADER_def Let_def usize_max_eq)
  moreover have "payload (filter (\<lambda>t. t \<noteq> (a, n, Used p)) ts) \<subseteq> payload (xs @ ys)"
    by (auto simp: payload_def ts)
  ultimately show ?thesis using h' by blast
qed

section \<open>Structure of allocation\<close>

lemma alloc_tiles_SomeD:
  "alloc_tiles need al ts = Some (p, ts') \<Longrightarrow>
   \<exists>xs a n ys. ts = xs @ (a, n, Free) # ys \<and> p = round_up (a + 16) al \<and> p + need \<le> a + n \<and>
     ts' = xs @ split_tile a n p (p + need) @ ys"
proof (induction need al ts arbitrary: p ts' rule: alloc_tiles.induct)
  case (2 need al a n k ts)
  show ?case
  proof (cases "k = Free \<and> round_up (a + 16) al + need \<le> a + n")
    case True
    with 2(2) show ?thesis by (intro exI [of _ "[]"]) (auto simp: Let_def)
  next
    case False
    with 2(2) obtain ts1 where t: "alloc_tiles need al ts = Some (p, ts1)" "ts' = (a, n, k) # ts1"
      by (auto simp: Let_def)
    from 2(1) [OF refl False t(1)] obtain xs b j ys where
      "ts = xs @ (b, j, Free) # ys \<and> p = round_up (b + 16) al \<and> p + need \<le> b + j \<and>
       ts1 = xs @ split_tile b j p (p + need) @ ys" by blast
    with t(2) show ?thesis by (intro exI [of _ "(a, n, k) # xs"]) auto
  qed
qed simp

lemma alloc_tiles_None:
  "alloc_tiles need al ts = None \<longleftrightarrow> (\<forall>(a, n)\<in>set (frees ts). a + n < round_up (a + 16) al + need)"
proof (induction need al ts rule: alloc_tiles.induct)
  case (2 need al a n k ts)
  then show ?case by (cases k) (auto simp: Let_def)
qed simp

lemma merge_split:
  assumes co: "coalesced (xs @ (a, n, Free) # ys)" and le: "a + 16 \<le> u" "u + 16 \<le> e" "e \<le> a + n"
  shows "\<exists>vs ws st m. xs @ split_tile a n u e @ ys = vs @ (st, m, Used u) # ws \<and>
     u + 16 \<le> st + m \<and> st + 16 \<le> u \<and> e \<le> st + m \<and> merge_back vs (merge_front (st, m, Free) ws) = xs @ (a, n, Free) # ys"
proof -
  let ?st = "if 32 \<le> u - 16 - a then u - 16 else a" and ?en = "if 32 \<le> a + n - e then e else a + n"
  let ?fr = "if 32 \<le> u - 16 - a then [(a, u - 16 - a, Free)] else []"
  let ?bk = "if 32 \<le> a + n - e then [(e, a + n - e, Free)] else []"
  have sp: "xs @ split_tile a n u e @ ys = (xs @ ?fr) @ (?st, ?en - ?st, Used u) # ?bk @ ys"
    by (simp add: split_tile_def Let_def)
  have ys: "merge_front t ys = t # ys" for t
    using co by (cases "(t, ys)" rule: merge_front.cases) (auto simp: coalesced_def successively_append_iff successively_Cons)
  have xs: "merge_back xs ((a, i, Free) # zs) = xs @ (a, i, Free) # zs" for i zs
  proof (cases xs rule: rev_cases)
    case (snoc vs t)
    then obtain b j q where "t = (b, j, Used q)"
      using co by (cases t rule: tile_ok.cases) (auto simp: coalesced_def successively_append_iff successively_Cons)
    with snoc show ?thesis by (simp add: merge_back_snoc)
  qed simp
  have "merge_front (?st, ?en - ?st, Free) (?bk @ ys) = (?st, a + n - ?st, Free) # ys"
    using le by (auto simp: ys)
  then have "merge_back (xs @ ?fr) (merge_front (?st, ?en - ?st, Free) (?bk @ ys)) = xs @ (a, n, Free) # ys"
    using le by (auto simp: xs merge_back_snoc)
  with sp show ?thesis using le
    by (intro exI [of _ "xs @ ?fr"] exI [of _ "?bk @ ys"] exI [of _ ?st] exI [of _ "?en - ?st"]) auto
qed

end
