(* ===== verification/Shell.thy ===== *)
theory Shell
  imports User_Mem Heap
begin

text \<open>
  \<open>src/src/shell.rs\<close>: the interactive shell of the kernel.  A line is the list of its bytes, which are printable ASCII, so a
  byte is a character.  The shell blocks in \<open>getchar_blocking\<close> and in \<open>join\<close>; there it is cut at the \<open>swtch\<close> and
  continues with \<open>shell_resume\<close>.  \<open>poweroff\<close> and \<open>reboot\<close> do not come back: the shell is parked.
  \<open>E\<close> is the machine, \<open>P\<close> the linked programs, \<open>h\<close> the kernel heap (for its statistics) and \<open>stk\<close> the stack a new process gets.
\<close>

section \<open>Reading a line\<close>

definition MAX_LINE :: usize where "MAX_LINE = 128"

text \<open>One byte of \<open>read_line\<close>'s loop: whether the line is complete, the line, the kernel after the echo.\<close>

definition read_byte :: "u8 \<Rightarrow> u8 list \<Rightarrow> ('d, 'z) kernel_scheme \<Rightarrow> bool \<times> u8 list \<times> ('d, 'z) kernel_scheme" where
  "read_byte byte line s =
     (if byte = NL then (True, line, kprint [NL] s)
      else if byte = 0x7f \<or> byte = 0x08
      then if line \<noteq> [] then (False, butlast line, kprint [0x08, 0x20, 0x08] s) else (False, line, s)
      else if in_range 0x20 0x7e byte \<and> length line < MAX_LINE then (False, line @ [byte], kprint [byte] s)
      else (False, line, s))"

partial_function (option) read_line_loop :: "u8 list \<Rightarrow> ('d, 'z) kernel_scheme \<Rightarrow>
    ((u8 list, u8 list) outcome \<times> ('d, 'z) kernel_scheme) result option" where
  "read_line_loop line s =
     (case getchar_blocking s of
        Panic e \<Rightarrow> Some (Panic e)
      | Ok (out, s) \<Rightarrow>
          (case out of
             Switch k \<Rightarrow> Some (Ok (Switch line, s))
           | Return byte \<Rightarrow>
               (case read_byte byte line s of (fin, line, s) \<Rightarrow>
                  if fin then Some (Ok (Return line, s)) else read_line_loop line s)))"

definition read_line :: "('d, 'z) kernel_scheme \<Rightarrow> ((u8 list, u8 list) outcome \<times> ('d, 'z) kernel_scheme) result option" where
  "read_line s = read_line_loop [] s"

definition read_line_back :: "u8 list \<Rightarrow> bool \<Rightarrow> ('d, 'z) kernel_scheme \<Rightarrow>
    ((u8 list, u8 list) outcome \<times> ('d, 'z) kernel_scheme) result option" where
  "read_line_back line ie s =
     (case pop_off (sched_back ie s) of Panic e \<Rightarrow> Some (Panic e) | Ok s \<Rightarrow> read_line_loop line s)"

section \<open>Printing a file\<close>

definition QUOTE :: u8 where "QUOTE = 39"

function cat_loop :: "nat \<Rightarrow> usize \<Rightarrow> u8 list \<Rightarrow> ('d, 'z) kernel_scheme \<Rightarrow> ('d, 'z) kernel_scheme result" where
  "cat_loop idx offs buf s =
     (let (buf, n) = read_at idx offs buf (files s) in
      if n = 0 then Ok s
      else let s = kprint (case from_utf8 (take n buf) of Some t \<Rightarrow> t | None \<Rightarrow> bytes_of ''?'') s in
        bindR (uadd offs n) (\<lambda>offs. cat_loop idx offs buf s))"
  by pat_completeness auto
termination
  by (relation "measure (\<lambda>(idx, offs, buf, s). case get_at (files s) idx of None \<Rightarrow> 0 | Some f \<Rightarrow> length (file_data f) - offs)")
     (auto simp: read_at_def Let_def kprint_def result_simps split: option.splits if_splits intro!: diff_less_mono2)

declare cat_loop.simps [simp del]

definition cat :: "u8 list \<Rightarrow> ('d, 'z) kernel_scheme \<Rightarrow> ('d, 'z) kernel_scheme result" where
  "cat name s =
     (if name = [] then Ok (kprintln ''  usage: cat FILE'' s)
      else
        (case fs_lookup name (files s) of
           None \<Rightarrow> Ok (kprint (bytes_of ''  cat: no such file '' @ [QUOTE] @ name @ [QUOTE, NL]) s)
         | Some idx \<Rightarrow> cat_loop idx 0 (replicate 64 0) s))"

section \<open>Commands\<close>

text \<open>\<open>char::is_whitespace\<close> on ASCII, \<open>str::trim\<close>, and the padding of \<open>{:<n}\<close>, \<open>{:>n}\<close> and \<open>{:03}\<close>.\<close>

definition is_whitespace :: "u8 \<Rightarrow> bool" where
  "is_whitespace b \<longleftrightarrow> b = 0x20 \<or> in_range 0x09 0x0d b"

definition trim :: "u8 list \<Rightarrow> u8 list" where
  "trim bs = rev (dropWhile is_whitespace (rev (dropWhile is_whitespace bs)))"

definition pad_right :: "nat \<Rightarrow> string \<Rightarrow> string" where
  "pad_right n cs = cs @ replicate (n - length cs) (CHR '' '')"

definition pad_left :: "nat \<Rightarrow> char \<Rightarrow> string \<Rightarrow> string" where
  "pad_left n c cs = replicate (n - length cs) c @ cs"

fun state_debug :: "pstate \<Rightarrow> string" where
  "state_debug Runnable = ''Runnable''"
| "state_debug Running = ''Running''"
| "state_debug (Sleeping c) = ''Sleeping('' @ dec c @ '')''"
| "state_debug Zombie = ''Zombie''"

definition help_text :: "string list" where
  "help_text =
     [''  help      this text'',
      ''  ps        list processes'',
      ''  mem       memory statistics'',
      ''  uptime    time since boot'',
      ''  ls        list files in the ramfs'',
      ''  cat FILE  print a ramfs file'',
      ''  greet     spawn the U-mode greeter program'',
      ''  fault     spawn the U-mode trespasser (it will be killed)'',
      ''  echoline  run a U-mode program that reads a line and echoes it'',
      ''  uname     print the kernel version (via a U-mode program)'',
      ''  heapgrow  U-mode sbrk + demand-paging demo'',
      ''  fork      U-mode fork/wait demo'',
      ''  ush       enter the userland shell (fork/exec/wait; 'q' to leave)'',
      ''  poweroff  exit QEMU'',
      ''  reboot    reset the machine'']"

datatype shell_kont = At_line "u8 list" | At_join usize | Parked

type_synonym 's shell_res = "((unit, shell_kont) outcome \<times> 's) result"

definition fin :: "'s \<Rightarrow> 's shell_res" where
  "fin s = Ok (Return (), s)"

text \<open>A command that spawns a program and waits for it.\<close>

definition run_and_join :: "images \<Rightarrow> usize \<Rightarrow> string \<Rightarrow> program \<Rightarrow> ('d, 'z) kernel_scheme \<Rightarrow> ('d, 'z) kernel_scheme shell_res" where
  "run_and_join P stk name x s =
     bindR (image P x) (\<lambda>prog.
     bindR (spawn_user stk name prog s) (\<lambda>(i, s).
     bindR (join i s) (\<lambda>(out, s).
     Ok (case out of Return _ \<Rightarrow> Return () | Switch k \<Rightarrow> Switch (At_join i), s))))"

definition run_and_report :: "images \<Rightarrow> usize \<Rightarrow> string \<Rightarrow> program \<Rightarrow> ('d, 'z) kernel_scheme \<Rightarrow> ('d, 'z) kernel_scheme shell_res" where
  "run_and_report P stk name x s =
     bindR (image P x) (\<lambda>prog.
     bindR (spawn_user stk name prog s) (\<lambda>(i, s).
     fin (kprintln (''  spawned pid '' @ dec i) s)))"

definition cmd_ls :: "('d, 'z) kernel_scheme \<Rightarrow> ('d, 'z) kernel_scheme" where
  "cmd_ls s = fold (\<lambda>(name, size). kprint (bytes_of (''  '' @ pad_left 6 (CHR '' '') (dec size) @ ''  '') @ name @ [NL])) (fs_list (files s)) s"

definition cmd_ps :: "('d, 'z) kernel_scheme \<Rightarrow> ('d, 'z) kernel_scheme shell_res" where
  "cmd_ps s =
     (let s = kprintln (''  '' @ pad_right 5 ''PID'' @ '' '' @ pad_right 12 ''NAME'' @ '' STATE'') s in
      bindR (process_list s) (\<lambda>(ps, s).
      fin (fold (\<lambda>(i, name, st). kprintln (''  '' @ pad_right 5 (dec i) @ '' '' @ pad_right 12 name @ '' '' @ state_debug st)) ps s)))"

definition cmd_mem :: "heap \<Rightarrow> ('d, 'z) kernel_scheme \<Rightarrow> ('d, 'z) kernel_scheme shell_res" where
  "cmd_mem h s =
     bindR (umul (free_pages (ram s)) PAGE_SIZE) (\<lambda>bytes.
     bindR (usub PHYS_TOP DRAM_BASE) (\<lambda>dram.
     let s = kprintln (''  phys: '' @ dec (free_pages (ram s)) @ '' free pages ('' @ dec (bytes div (1024 * 1024)) @
               '' MiB of '' @ dec (dram div (1024 * 1024)) @ '' MiB DRAM)'') s in
     fin (kprintln (''  heap: '' @ dec (free_bytes h div 1024) @ '' KiB free of '' @ dec (HEAP_SIZE div 1024) @ '' KiB'') s)))"

definition cmd_uptime :: "'d machine \<Rightarrow> ('d, 'z) kernel_scheme \<Rightarrow> ('d, 'z) kernel_scheme" where
  "cmd_uptime E s =
     (let (ms, d) = uptime_ms E (dev s); s = s\<lparr>dev := d\<rparr> in
      kprintln (''  up '' @ dec (ms div 1000) @ ''.'' @ pad_left 3 (CHR ''0'') (dec (ms mod 1000)) @ '' s ('' @ dec (ticks s) @
        '' ticks at '' @ dec TICK_HZ @ '' Hz)'') s)"

definition cmd_power :: "('d \<Rightarrow> string list \<times> 'd) \<Rightarrow> ('d, 'z) kernel_scheme \<Rightarrow> ('d, 'z) kernel_scheme shell_res" where
  "cmd_power off s = (let (msgs, d) = off (dev s) in Ok (Switch Parked, fold kprintln msgs (s\<lparr>dev := d\<rparr>)))"

definition run_command :: "'d machine \<Rightarrow> images \<Rightarrow> heap \<Rightarrow> usize \<Rightarrow> u8 list \<Rightarrow> ('d, 'z) kernel_scheme \<Rightarrow> ('d, 'z) kernel_scheme shell_res" where
  "run_command E P h stk line s =
     (let cmd = takeWhile (\<lambda>b. \<not> is_whitespace b) line;
          arg = trim (drop 1 (dropWhile (\<lambda>b. \<not> is_whitespace b) line)) in
      if cmd = [] then fin s
      else if cmd = bytes_of ''help'' then fin (fold kprintln help_text s)
      else if cmd = bytes_of ''ls'' then fin (cmd_ls s)
      else if cmd = bytes_of ''cat'' then bindR (cat arg s) fin
      else if cmd = bytes_of ''ps'' then cmd_ps s
      else if cmd = bytes_of ''mem'' then cmd_mem h s
      else if cmd = bytes_of ''uptime'' then fin (cmd_uptime E s)
      else if cmd = bytes_of ''greet'' then run_and_report P stk ''u-greeter'' Greeter s
      else if cmd = bytes_of ''fault'' then run_and_report P stk ''u-trespasser'' Trespasser s
      else if cmd = bytes_of ''echoline'' then run_and_join P stk ''u-echoline'' Echoline s
      else if cmd = bytes_of ''uname'' then run_and_join P stk ''u-uname'' Uname s
      else if cmd = bytes_of ''heapgrow'' then run_and_join P stk ''u-heapgrow'' Heapgrow s
      else if cmd = bytes_of ''fork'' then run_and_join P stk ''u-forker'' Forker s
      else if cmd = bytes_of ''ush'' then run_and_join P stk ''u-ush'' Ush s
      else if cmd = bytes_of ''poweroff'' then cmd_power (poweroff E) s
      else if cmd = bytes_of ''reboot'' then cmd_power (reboot E) s
      else fin (kprint (bytes_of ''  unknown command '' @ [QUOTE] @ cmd @ [QUOTE] @ bytes_of '' -- try '' @ [QUOTE] @
             bytes_of ''help'' @ [QUOTE, NL]) s))"

section \<open>The shell\<close>

text \<open>The shell's loop until it blocks or parks: from a complete line, and from the prompt.\<close>

partial_function (option) shell_loop :: "'d machine \<Rightarrow> images \<Rightarrow> heap \<Rightarrow> usize \<Rightarrow> ((u8 list, u8 list) outcome \<times> ('d, 'z) kernel_scheme) result option \<Rightarrow>
    (shell_kont \<times> ('d, 'z) kernel_scheme) result option" where
  "shell_loop E P h stk read =
     (case read of
        None \<Rightarrow> None
      | Some (Panic e) \<Rightarrow> Some (Panic e)
      | Some (Ok (out, s)) \<Rightarrow>
          (case out of
             Switch line \<Rightarrow> Some (Ok (At_line line, s))
           | Return line \<Rightarrow>
               (case run_command E P h stk (trim line) s of
                  Panic e \<Rightarrow> Some (Panic e)
                | Ok (Switch k, s) \<Rightarrow> Some (Ok (k, s))
                | Ok (Return _, s) \<Rightarrow> shell_loop E P h stk (read_line (kprint (bytes_of ''osmium> '') s)))))"

definition shell_main :: "'d machine \<Rightarrow> images \<Rightarrow> heap \<Rightarrow> usize \<Rightarrow> ('d, 'z) kernel_scheme \<Rightarrow>
    (shell_kont \<times> ('d, 'z) kernel_scheme) result option" where
  "shell_main E P h stk s =
     (let s = kprint [NL] s;
          s = kprint (bytes_of ''osmium shell -- '' @ [QUOTE] @ bytes_of ''help'' @ [QUOTE] @ bytes_of '' lists commands'' @ [NL]) s in
      shell_loop E P h stk (read_line (kprint (bytes_of ''osmium> '') s)))"

definition shell_resume :: "'d machine \<Rightarrow> images \<Rightarrow> heap \<Rightarrow> usize \<Rightarrow> shell_kont \<Rightarrow> bool \<Rightarrow> ('d, 'z) kernel_scheme \<Rightarrow>
    (shell_kont \<times> ('d, 'z) kernel_scheme) result option" where
  "shell_resume E P h stk k ie s =
     (case k of
        At_line line \<Rightarrow> shell_loop E P h stk (read_line_back line ie s)
      | At_join i \<Rightarrow>
          (case join_back i ie s of
             Panic e \<Rightarrow> Some (Panic e)
           | Ok (Switch k, s) \<Rightarrow> Some (Ok (At_join i, s))
           | Ok (Return _, s) \<Rightarrow> shell_loop E P h stk (read_line (kprint (bytes_of ''osmium> '') s)))
      | Parked \<Rightarrow> Some (Ok (Parked, s)))"

section \<open>Line editing\<close>

text \<open>The reference: what a key does to the line, and what appears on the terminal.\<close>

definition edit :: "u8 list \<Rightarrow> u8 \<Rightarrow> u8 list" where
  "edit line b = (if b = 0x7f \<or> b = 0x08 then butlast line
     else if in_range 0x20 0x7e b \<and> length line < MAX_LINE then line @ [b] else line)"

fun echo :: "u8 list \<Rightarrow> u8 list \<Rightarrow> u8 list" where
  "echo line [] = []"
| "echo line (b # bs) =
     (if edit line b = line then [] else if length (edit line b) < length line then [0x08, 0x20, 0x08] else [b]) @ echo (edit line b) bs"

lemma read_byte_edit:
  assumes "b \<noteq> NL"
  shows "read_byte b line s = (False, edit line b, s\<lparr>console := console s @ echo line [b]\<rparr>)"
proof -
  have out: "crlf [b] = [b]" "crlf [8, 0x20, 8] = [8, 0x20, 8]" using assms by (simp_all add: NL_def)
  consider "b = 0x7f \<or> b = 0x08" "line = []" | "b = 0x7f \<or> b = 0x08" "line \<noteq> []"
    | "\<not> (b = 0x7f \<or> b = 0x08)" "in_range 0x20 0x7e b \<and> length line < MAX_LINE"
    | "\<not> (b = 0x7f \<or> b = 0x08)" "\<not> (in_range 0x20 0x7e b \<and> length line < MAX_LINE)" by blast
  then show ?thesis
  proof cases
    case 1
    then have "edit line b = line" "read_byte b line s = (False, line, s)" using assms by (simp_all only: edit_def read_byte_def if_True if_False simp_thms butlast.simps)
    then show ?thesis by simp
  next
    case 2
    then have e: "edit line b = butlast line" "read_byte b line s = (False, butlast line, kprint [8, 0x20, 8] s)" using assms by (simp_all only: edit_def read_byte_def if_True if_False simp_thms)
    have l: "length (butlast line) < length line" using 2(2) by (cases line) simp_all
    then have "butlast line \<noteq> line" by (metis less_irrefl)
    then show ?thesis using e l out(2) by (simp add: kprint_def)
  next
    case 3
    then have "edit line b = line @ [b]" "read_byte b line s = (False, line @ [b], kprint [b] s)" using assms by (simp_all only: edit_def read_byte_def if_True if_False simp_thms)
    then show ?thesis using out(1) by (simp add: kprint_def)
  next
    case 4
    then have "edit line b = line" "read_byte b line s = (False, line, s)" using assms by (simp_all only: edit_def read_byte_def if_True if_False simp_thms)
    then show ?thesis by simp
  qed
qed

lemma edit_printable:
  assumes "list_all (in_range 0x20 0x7e) line" and "length line \<le> MAX_LINE"
  shows "list_all (in_range 0x20 0x7e) (edit line b)" and "length (edit line b) \<le> MAX_LINE"
  using assms by (auto simp: edit_def list_all_iff dest: in_set_butlastD)

lemma edits_printable: "list_all (in_range 0x20 0x7e) line \<Longrightarrow> length line \<le> MAX_LINE \<Longrightarrow>
    list_all (in_range 0x20 0x7e) (foldl edit line bs) \<and> length (foldl edit line bs) \<le> MAX_LINE"
  by (induction bs arbitrary: line) (simp_all add: edit_printable)

lemma push_off_kernel [simp]: "input (push_off s) = input s" "input_at (push_off s) = input_at s" "console (push_off s) = console s"
  by (simp_all add: push_off_def Let_def)

lemma getchar_blocking_byte:
  assumes "runs i p s" and "ring_inv (input s)" and "ring_content (input s) = b # bs"
  obtains q where "getchar_blocking s = Ok (Return b, s\<lparr>intena := intr_get (csr s), input := q\<rparr>)" "ring_inv q" "ring_content q = bs"
proof -
  from ring.get_ok [OF assms(2)] assms(3) obtain q where q: "ring_get (input s) = Ok (Some b, q)" "ring_inv q" "ring_content q = bs" by auto
  have idle: "irq_idle s" using assms(1) by (simp add: runs_def)
  have "pop_off (push_off s\<lparr>input := q\<rparr>) = Ok (s\<lparr>intena := intr_get (csr s), input := q\<rparr>)"
    using idle by (subst pop_pushed [OF irq_idleD [OF idle]]) (simp_all add: push_off_eq irq_idle_def)
  with q(1) have "getchar_blocking s = Ok (Return b, s\<lparr>intena := intr_get (csr s), input := q\<rparr>)"
    by (simp add: getchar_blocking_def getchar_def Let_def)
  then show thesis using q(2,3) by (rule that)
qed

lemma getchar_blocking_empty:
  assumes "runs i p s" and "ring_inv (input s)" and "ring_content (input s) = []"
  obtains t q where "getchar_blocking s = Ok (Switch K_getchar, t)" "ptab (procs t) i = Some q" "pstate q = Sleeping (input_at s)"
    "console t = console s" "input t = input s"
proof -
  have "in_w (input s) - in_r (input s) = 0" using length_ring_content [of "input s"] assms(3) by (metis list.size(3))
  then have "in_r (input s) = in_w (input s)" using assms(2) by (simp add: ring_inv_def)
  then have g: "ring_get (input s) = Ok (None, input s)" by (simp add: ring_get_def)
  have same: "(push_off s)\<lparr>input := input s\<rparr> = push_off s" using push_off_kernel(1) [of s] by (metis kernel.surjective kernel.update_convs(1))
  have p: "ptab (procs s) i = Some p" using assms(1) by (simp add: runs_def)
  let ?t = "(set_proc i (p\<lparr>pstate := Sleeping (input_at s), sched_intena := intena (push_off s), pcontext := hart s\<rparr>) (push_off s))\<lparr>hart := scheduler_ctx s\<rparr>"
  have "sleep (input_at s) (push_off s) = Ok ?t" by (rule sleep_eq [OF assms(1)])
  then have "getchar_blocking s = Ok (Switch K_getchar, ?t)" by (simp add: getchar_blocking_def getchar_def g same Let_def input_chan_def)
  moreover have "ptab (procs ?t) i = Some (p\<lparr>pstate := Sleeping (input_at s), sched_intena := intena (push_off s), pcontext := hart s\<rparr>)"
    using ptab_update [OF p] by (simp add: set_proc_def)
  moreover have "pstate (p\<lparr>pstate := Sleeping (input_at s), sched_intena := intena (push_off s), pcontext := hart s\<rparr>) = Sleeping (input_at s)"
    by simp
  ultimately show thesis by (rule that) (simp_all add: set_proc_def)
qed

lemma read_line_loop_run:
  assumes "runs i p s" and "ring_inv (input s)" and "ring_content (input s) = bs @ NL # rest" and "NL \<notin> set bs"
  obtains s' where "read_line_loop line s = Some (Ok (Return (foldl edit line bs), s'))" "runs i p s'" "ring_inv (input s')"
    "ring_content (input s') = rest" "console s' = console s @ echo line bs @ [CR, NL]"
  using assms
proof (induction bs arbitrary: line s thesis)
  case Nil
  from Nil.prems(2-4) obtain q where g: "getchar_blocking s = Ok (Return NL, s\<lparr>intena := intr_get (csr s), input := q\<rparr>)" "ring_inv q" "ring_content q = rest"
    by (auto elim: getchar_blocking_byte)
  have "read_line_loop line s = Some (Ok (Return line, kprint [NL] (s\<lparr>intena := intr_get (csr s), input := q\<rparr>)))"
    by (subst read_line_loop.simps) (simp add: g(1) read_byte_def)
  then show ?case using g(2,3) Nil.prems(2)
    by (intro Nil.prems(1) [of "kprint [NL] (s\<lparr>intena := intr_get (csr s), input := q\<rparr>)"]) (simp_all add: kprint_def runs_def irq_idle_def irq_ok_def)
next
  case (Cons b bs)
  from Cons.prems(2-4) obtain q where g: "getchar_blocking s = Ok (Return b, s\<lparr>intena := intr_get (csr s), input := q\<rparr>)" "ring_inv q"
    "ring_content q = bs @ NL # rest" by (auto elim: getchar_blocking_byte)
  let ?s = "s\<lparr>intena := intr_get (csr s), input := q, console := console s @ echo line [b]\<rparr>"
  have b: "b \<noteq> NL" "NL \<notin> set bs" using Cons.prems(5) by auto
  have step: "read_line_loop line s = read_line_loop (edit line b) ?s"
    by (subst read_line_loop.simps) (simp add: g(1) read_byte_edit [OF b(1)] del: echo.simps)
  have "runs i p ?s" using Cons.prems(2) by (simp add: runs_def irq_idle_def irq_ok_def)
  from Cons.IH [of "edit line b" ?s, OF _ this] g(2,3) b(2) obtain s' where
    "read_line_loop (edit line b) ?s = Some (Ok (Return (foldl edit (edit line b) bs), s'))" "runs i p s'" "ring_inv (input s')"
    "ring_content (input s') = rest" "console s' = console ?s @ echo (edit line b) bs @ [CR, NL]" by auto
  then show ?case by (intro Cons.prems(1) [of s']) (simp_all add: step)
qed

lemma read_line_loop_block:
  assumes "runs i p s" and "ring_inv (input s)" and "NL \<notin> set (ring_content (input s))"
  obtains t q where "read_line_loop line s = Some (Ok (Switch (foldl edit line (ring_content (input s))), t))"
    "ptab (procs t) i = Some q" "pstate q = Sleeping (input_at s)" "ring_content (input t) = []"
    "console t = console s @ echo line (ring_content (input s))"
  using assms
proof (induction "ring_content (input s)" arbitrary: line s thesis)
  case Nil
  from Nil.prems(2,3) Nil.hyps obtain t q where g: "getchar_blocking s = Ok (Switch K_getchar, t)" "ptab (procs t) i = Some q"
    "pstate q = Sleeping (input_at s)" "console t = console s" "input t = input s" by (metis getchar_blocking_empty)
  have "read_line_loop line s = Some (Ok (Switch line, t))" by (subst read_line_loop.simps) (simp add: g(1))
  then show ?case using g(2-5) Nil.hyps by (intro Nil.prems(1) [of t q]) (simp_all flip: Nil.hyps)
next
  case (Cons b bs)
  from Cons.prems(2,3) Cons.hyps(2) obtain q where g: "getchar_blocking s = Ok (Return b, s\<lparr>intena := intr_get (csr s), input := q\<rparr>)" "ring_inv q"
    "ring_content q = bs" by (metis getchar_blocking_byte)
  let ?s = "s\<lparr>intena := intr_get (csr s), input := q, console := console s @ echo line [b]\<rparr>"
  have b: "b \<noteq> NL" "NL \<notin> set bs" using Cons.prems(4) Cons.hyps(2) by (metis list.set_intros(1), metis list.set_intros(2))
  have step: "read_line_loop line s = read_line_loop (edit line b) ?s"
    by (subst read_line_loop.simps) (simp add: g(1) read_byte_edit [OF b(1)] del: echo.simps)
  have "runs i p ?s" using Cons.prems(2) by (simp add: runs_def irq_idle_def irq_ok_def)
  from Cons.hyps(1) [of ?s "edit line b", OF _ _ this] g(2,3) b(2) obtain t q where
    "read_line_loop (edit line b) ?s = Some (Ok (Switch (foldl edit (edit line b) bs), t))" "ptab (procs t) i = Some q"
    "pstate q = Sleeping (input_at s)" "ring_content (input t) = []" "console t = console ?s @ echo (edit line b) bs" by auto
  then show ?case by (intro Cons.prems(1) [of t q]) (simp_all add: step flip: Cons.hyps(2))
qed

section \<open>Printing a file in chunks\<close>

lemma crlf_append [simp]: "crlf (xs @ ys) = crlf xs @ crlf ys"
  by (induction xs rule: crlf.induct) simp_all

lemma cat_loop_run:
  assumes "get_at (files s) idx = Some f" and "ascii (file_data f)" and "length (file_data f) \<le> usize_max"
    and "offs \<le> length (file_data f)" and "buf \<noteq> []"
  shows "cat_loop idx offs buf s = Ok (s\<lparr>console := console s @ crlf (drop offs (file_data f))\<rparr>)"
  using assms
proof (induction idx offs buf s rule: cat_loop.induct)
  case (1 idx offs buf s)
  let ?d = "file_data f" and ?n = "min (length buf) (length (file_data f) - offs)"
  show ?case
  proof (cases "offs = length ?d")
    case True
    then show ?thesis using 1(2) by (subst cat_loop.simps) (simp add: read_at_def Let_def)
  next
    case False
    let ?chunk = "take ?n (drop offs ?d)"
    have r: "read_at idx offs buf (files s) = (?chunk @ drop ?n buf, ?n)" "?n \<noteq> 0" "length ?chunk = ?n" "offs + ?n \<le> length ?d"
      using 1(2,5,6) False by (simp_all add: read_at_def Let_def)
    have u: "from_utf8 (take ?n (?chunk @ drop ?n buf)) = Some ?chunk"
      using utf8_ascii [OF ascii_take [OF ascii_drop [OF 1(3)]]] r(3) by (simp add: from_utf8_def)
    have o: "uadd offs ?n = Ok (offs + ?n)" using r(4) 1(4) by (simp add: uadd_def)
    have "cat_loop idx offs buf s = cat_loop idx (offs + ?n) (?chunk @ drop ?n buf) (kprint ?chunk s)"
      by (subst cat_loop.simps) (simp only: r(1,2) u o Let_def prod.case if_False option.case bindR.simps)
    also have "\<dots> = Ok (kprint ?chunk s\<lparr>console := console (kprint ?chunk s) @ crlf (drop (offs + ?n) ?d)\<rparr>)"
    proof (rule 1(1) [OF refl, of _ ?n])
      show "(?chunk @ drop ?n buf, ?n) = read_at idx offs buf (files s)" by (simp only: r(1))
      show "kprint ?chunk s = kprint (case from_utf8 (take ?n (?chunk @ drop ?n buf)) of None \<Rightarrow> bytes_of ''?'' | Some t \<Rightarrow> t) s"
        by (simp only: u option.case)
    qed (use 1(2-6) r in \<open>auto simp: kprint_def\<close>)
    also have "\<dots> = Ok (s\<lparr>console := console s @ crlf (?chunk @ drop (offs + ?n) ?d)\<rparr>)" by (simp add: kprint_def)
    also have "?chunk @ drop (offs + ?n) ?d = drop offs ?d" by (metis append_take_drop_id drop_drop add.commute)
    finally show ?thesis .
  qed
qed

section \<open>Properties\<close>

text \<open>
  C31. Reading a line.  For any buffered keys \<open>read_line\<close> ends: it returns the line at the first newline, leaving the later keys buffered, or,
  without a newline, puts the thread to sleep on the input with the keys consumed.  In both cases the line is the result of editing
  key by key, never longer than \<open>MAX_LINE\<close> and printable, and the terminal shows exactly the echo of the edits.
\<close>

theorem read_line_correct:
  assumes "runs i p s" and "ring_inv (input s)"
  shows "let pending = ring_content (input s); ks = takeWhile (\<lambda>b. b \<noteq> NL) pending; line = foldl edit [] ks in
     list_all (in_range 0x20 0x7e) line \<and> length line \<le> MAX_LINE \<and>
     (if NL \<in> set pending
      then \<exists>s'. read_line s = Some (Ok (Return line, s')) \<and> runs i p s' \<and>
        ring_content (input s') = tl (dropWhile (\<lambda>b. b \<noteq> NL) pending) \<and> console s' = console s @ echo [] ks @ [CR, NL]
      else \<exists>t q. read_line s = Some (Ok (Switch line, t)) \<and> ptab (procs t) i = Some q \<and> pstate q = Sleeping (input_at s) \<and>
        ring_content (input t) = [] \<and> console t = console s @ echo [] ks)"
proof -
  let ?c = "ring_content (input s)"
  let ?ks = "takeWhile (\<lambda>b. b \<noteq> NL) ?c"
  have nl: "NL \<notin> set ?ks" by (auto dest: set_takeWhileD)
  show ?thesis
  proof (cases "NL \<in> set ?c")
    case True
    then obtain x rest where d: "dropWhile (\<lambda>b. b \<noteq> NL) ?c = x # rest" by (cases "dropWhile (\<lambda>b. b \<noteq> NL) ?c") auto
    then have "x = NL" using hd_dropWhile [of "\<lambda>b. b \<noteq> NL" ?c] by simp
    then have "?c = ?ks @ NL # rest" using takeWhile_dropWhile_id [of "\<lambda>b. b \<noteq> NL" ?c] d by metis
    from read_line_loop_run [OF assms this nl, of "[]"] obtain s' where
      "read_line_loop [] s = Some (Ok (Return (foldl edit [] ?ks), s'))" "runs i p s'" "ring_content (input s') = rest"
      "console s' = console s @ echo [] ?ks @ [CR, NL]" by auto
    then show ?thesis using True d edits_printable [of "[]" ?ks] by (auto simp: Let_def read_line_def)
  next
    case False
    then have "?ks = ?c" by (auto simp: takeWhile_eq_all_conv)
    with read_line_loop_block [OF assms False, of "[]"] obtain t q where
      "read_line_loop [] s = Some (Ok (Switch (foldl edit [] ?ks), t))" "ptab (procs t) i = Some q" "pstate q = Sleeping (input_at s)"
      "ring_content (input t) = []" "console t = console s @ echo [] ?ks" by auto
    then show ?thesis using False edits_printable [of "[]" ?ks] by (auto simp: Let_def read_line_def)
  qed
qed

theorem read_line_correct_witness:
  "\<exists>s'. read_line ((demo_kernel 0 0 demo_phys)\<lparr>input := \<lparr>in_buf = [104, 120, 8, 105, NL] @ replicate 251 0, in_r = 0, in_w = 5\<rparr>\<rparr>) =
     Some (Ok (Return (bytes_of ''hi''), s'))"
proof -
  let ?s = "(demo_kernel 0 0 demo_phys)\<lparr>input := \<lparr>in_buf = [104, 120, 8, 105, NL] @ replicate 251 0, in_r = 0, in_w = 5\<rparr>\<rparr>"
  have r: "runs 0 (demo_user 0) ?s" using demo_runs [of 0 0 demo_phys] by (simp add: runs_def irq_idle_def irq_ok_def)
  have inv: "ring_inv (input ?s)" by (simp add: ring_inv_def INPUT_CAP_def usize_max_eq)
  have c: "ring_content (input ?s) = [104, 120, 8, 105, NL]" by (simp add: ring_content_def INPUT_CAP_def upt_rec)
  have e: "foldl edit [] [104, 120, 8, 105] = bytes_of ''hi''" by (simp add: edit_def in_range_def MAX_LINE_def bytes_of_def)
  have t: "takeWhile (\<lambda>b. b \<noteq> NL) [104, 120, 8, 105, NL] = [104, 120, 8, 105]" by (simp add: NL_def)
  have nl: "NL \<in> set [104, 120, 8, 105, NL]" by simp
  from read_line_correct [OF r inv, unfolded c t e Let_def if_P [OF nl]] show ?thesis by blast
qed

text \<open>
  C32. Printing a file.  The loop that reads 64 bytes at a time prints exactly the contents of the file, whatever its length; an unknown
  name and a missing one get their messages.  Nothing but the console changes.
\<close>

theorem cat_correct:
  assumes "\<forall>f\<in>set (files s). ascii (file_data f) \<and> length (file_data f) \<le> usize_max"
  shows "cat name s = Ok (kprint (if name = [] then bytes_of ''  usage: cat FILE'' @ [NL]
     else case fs_lookup name (files s) of
       None \<Rightarrow> bytes_of ''  cat: no such file '' @ [QUOTE] @ name @ [QUOTE, NL]
     | Some idx \<Rightarrow> file_data (files s ! idx)) s)"
proof (cases "name = [] \<or> fs_lookup name (files s) = None")
  case True
  then show ?thesis by (auto simp: cat_def kprintln_def)
next
  case False
  then obtain idx where idx: "fs_lookup name (files s) = Some idx" "name \<noteq> []" by auto
  then have "idx < length (files s)" by (simp add: fs_lookup_def position_Some_iff)
  then have "get_at (files s) idx = Some (files s ! idx)" "files s ! idx \<in> set (files s)" by (simp_all add: get_at_def)
  with assms idx show ?thesis by (simp add: cat_def cat_loop_run kprint_def)
qed

theorem cat_correct_witness:
  "\<exists>s'. cat (bytes_of ''motd'') (demo_kernel 0 0 demo_phys) = Ok s' \<and>
     console s' = bytes_of ''welcome to osmium -- a RISC-V kernel in Rust'' @ [CR, NL]"
proof -
  have f: "files (demo_kernel 0 0 demo_phys) = fs_init fs_new" "console (demo_kernel 0 0 demo_phys) = []" by (simp_all add: demo_kernel_def)
  have "\<forall>f\<in>set (fs_init fs_new). ascii (file_data f) \<and> length (file_data f) \<le> usize_max"
    by (simp add: fs_init_def fs_new_def Let_def ascii_def bytes_of_def in_range_def NL_def usize_max_eq)
  moreover have "fs_lookup (bytes_of ''motd'') (fs_init fs_new) = Some 0" by (simp add: fs_lookup_def fs_init_def fs_new_def)
  moreover have "crlf (file_data (fs_init fs_new ! 0)) = bytes_of ''welcome to osmium -- a RISC-V kernel in Rust'' @ [CR, NL]"
    by (simp add: fs_init_def fs_new_def Let_def bytes_of_def NL_def)
  ultimately show ?thesis using cat_correct [of "demo_kernel 0 0 demo_phys" "bytes_of ''motd''"] f by (simp add: kprint_def bytes_of_def)
qed

end
