(* ===== verification/User_Prog.thy ===== *)
theory User_Prog
  imports Shell
begin

text \<open>
  \<open>src/src/user.rs\<close>: the user programs, as the assembly text has them, and the RV64 instructions they use.  A program is the list of its
  lines: instructions, numeric labels, strings.  References to labels keep their direction (\<open>1b\<close>, \<open>2f\<close>).  The addresses the
  assembler gives to labels are the parameter \<open>A\<close>; instructions are executed from the text, not from their encoding.

  A program runs on the user's view of memory (\<open>Uspace\<close>): an access without the U bit and the right permission
  faults.  System calls and faults go to the kernel, the parameter \<open>K\<close>, with a state of its own.
\<close>

section \<open>Assembly\<close>

datatype reg = Sp | S0 | S1 | A0 | A1 | A2 | A7 | T0 | T1 | T2 | T3 | T4 | T5

datatype lab = F nat | B nat

datatype instr =
    Li reg int | Li_diff reg lab lab | La reg lab | Mv reg reg | Addi reg reg int | Add reg reg reg | Sub reg reg reg
  | Remu reg reg reg | Divu reg reg reg
  | Sb reg int reg | Lb reg int reg | Ld reg int reg
  | Bnez reg lab | Beqz reg lab | Bltz reg lab | Blez reg lab | Beq reg reg lab | Bne reg reg lab | Jump lab
  | Ecall | Ebreak

datatype line = Ins instr | Lab nat | Ascii "u8 list"

type_synonym asm = "line list"

definition text_nl :: "string \<Rightarrow> line" where
  "text_nl cs = Ascii (bytes_of cs @ [NL])"

definition user_prog_greeter :: asm where
  "user_prog_greeter =
     [Ins (Li S0 3),
      Lab 1,
      Ins (La A0 (F 2)), Ins (Li_diff A1 (F 3) (F 2)), Ins (Li A7 1), Ins Ecall,
      Ins (Li A0 30), Ins (Li A7 5), Ins Ecall,
      Ins (Addi S0 S0 (-1)), Ins (Bnez S0 (B 1)),
      Ins (Li A7 4), Ins Ecall,
      Ins (Addi Sp Sp (-32)), Ins (Addi T1 Sp 32), Ins (Li T2 10), Ins (Mv T0 A0), Ins (Addi T1 T1 (-1)),
      Ins (Li T3 10), Ins (Sb T3 0 T1),
      Lab 30,
      Ins (Remu T4 T0 T2), Ins (Divu T0 T0 T2), Ins (Addi T4 T4 48), Ins (Addi T1 T1 (-1)), Ins (Sb T4 0 T1),
      Ins (Bnez T0 (B 30)),
      Ins (Mv A0 T1), Ins (Addi T5 Sp 32), Ins (Sub A1 T5 T1), Ins (Li A7 1), Ins Ecall,
      Ins (Addi Sp Sp 32),
      Ins (Li A0 0), Ins (Li A7 2), Ins Ecall,
      Lab 2, Ascii (bytes_of ''user: hello from U-mode via ecall! my pid is ''),
      Lab 3]"

definition user_prog_trespasser :: asm where
  "user_prog_trespasser =
     [Ins (La A0 (F 4)), Ins (Li_diff A1 (F 5) (F 4)), Ins (Li A7 1), Ins Ecall,
      Ins (Li T0 0x80200000), Ins (Ld T1 0 T0),
      Ins (Li A0 1), Ins (Li A7 2), Ins Ecall,
      Lab 4, text_nl ''user: trespasser about to touch kernel memory...'',
      Lab 5]"

definition user_prog_badsys :: asm where
  "user_prog_badsys =
     [Ins Ebreak,
      Ins (Li A0 0x4000000000), Ins (Li A1 8), Ins (Li A7 1), Ins Ecall, Ins (Addi A0 A0 1), Ins (Bnez A0 (F 1)),
      Ins (Li A0 (-8)), Ins (Li A1 64), Ins (Li A7 1), Ins Ecall, Ins (Addi A0 A0 1), Ins (Bnez A0 (F 1)),
      Ins (Li A0 5), Ins (Li A7 5), Ins Ecall,
      Ins (La A0 (F 6)), Ins (Li_diff A1 (F 7) (F 6)), Ins (Li A7 1), Ins Ecall,
      Ins (Li A0 0), Ins (Li A7 2), Ins Ecall,
      Lab 1,
      Ins (La A0 (F 8)), Ins (Li_diff A1 (F 9) (F 8)), Ins (Li A7 1), Ins Ecall,
      Ins (Li A0 1), Ins (Li A7 2), Ins Ecall,
      Lab 6, text_nl ''user: badsys survived; kernel rejected hostile args'',
      Lab 7,
      Lab 8, text_nl ''user: badsys FAILED -- kernel did not reject an arg'',
      Lab 9]"

definition user_prog_uname :: asm where
  "user_prog_uname =
     [Ins (Addi Sp Sp (-32)), Ins (Mv A0 Sp), Ins (Li A1 32), Ins (Li A7 7), Ins Ecall,
      Ins (Mv A1 A0), Ins (Mv A0 Sp), Ins (Li A7 1), Ins Ecall,
      Ins (Addi Sp Sp 32), Ins (Li A0 0), Ins (Li A7 2), Ins Ecall]"

definition user_prog_echoline :: asm where
  "user_prog_echoline =
     [Ins (La A0 (F 10)), Ins (Li_diff A1 (F 11) (F 10)), Ins (Li A7 1), Ins Ecall,
      Ins (Addi Sp Sp (-128)), Ins (Mv A0 Sp), Ins (Li A1 128), Ins (Li A7 6), Ins Ecall,
      Ins (Mv A1 A0), Ins (La A0 (F 12)), Ins (Li_diff A2 (F 13) (F 12)), Ins (Mv S0 A1), Ins (Mv A1 A2), Ins (Li A7 1), Ins Ecall,
      Ins (Mv A0 Sp), Ins (Mv A1 S0), Ins (Li A7 1), Ins Ecall,
      Ins (Addi Sp Sp 128), Ins (Li A0 0), Ins (Li A7 2), Ins Ecall,
      Lab 10, text_nl ''echoline: type a line and press enter'',
      Lab 11,
      Lab 12, Ascii (bytes_of ''you typed: ''),
      Lab 13]"

definition user_prog_catfile :: asm where
  "user_prog_catfile =
     [Ins (La A0 (F 20)), Ins (Li_diff A1 (F 21) (F 20)), Ins (Li A7 8), Ins Ecall, Ins (Bltz A0 (F 3)),
      Ins (Mv S0 A0), Ins (Addi Sp Sp (-128)),
      Lab 1,
      Ins (Mv A0 S0), Ins (Mv A1 Sp), Ins (Li A2 128), Ins (Li A7 9), Ins Ecall, Ins (Blez A0 (F 2)),
      Ins (Mv A1 A0), Ins (Mv A0 Sp), Ins (Li A7 1), Ins Ecall, Ins (Jump (B 1)),
      Lab 2,
      Ins (Addi Sp Sp 128), Ins (Mv A0 S0), Ins (Li A7 10), Ins Ecall,
      Ins (Li A0 0), Ins (Li A7 2), Ins Ecall,
      Lab 3,
      Ins (La A0 (F 22)), Ins (Li_diff A1 (F 23) (F 22)), Ins (Li A7 1), Ins Ecall,
      Ins (Li A0 1), Ins (Li A7 2), Ins Ecall,
      Lab 20, Ascii (bytes_of ''motd''),
      Lab 21,
      Lab 22, text_nl ''catfile: open failed'',
      Lab 23]"

definition user_prog_heapgrow :: asm where
  "user_prog_heapgrow =
     [Ins (Li A0 8192), Ins (Li A7 11), Ins Ecall, Ins (Li T0 (-1)), Ins (Beq A0 T0 (F 2)), Ins (Mv S0 A0),
      Ins (Li T0 0x41), Ins (Sb T0 0 S0), Ins (Li T1 4096), Ins (Add S1 S0 T1), Ins (Li T0 0x42), Ins (Sb T0 0 S1),
      Ins (Addi Sp Sp (-16)), Ins (Lb T0 0 S0), Ins (Sb T0 0 Sp), Ins (Lb T0 0 S1), Ins (Sb T0 1 Sp),
      Ins (Li T0 10), Ins (Sb T0 2 Sp),
      Ins (La A0 (F 3)), Ins (Li_diff A1 (F 4) (F 3)), Ins (Li A7 1), Ins Ecall,
      Ins (Mv A0 Sp), Ins (Li A1 3), Ins (Li A7 1), Ins Ecall,
      Ins (Addi Sp Sp 16), Ins (Li A0 0), Ins (Li A7 2), Ins Ecall,
      Lab 2,
      Ins (La A0 (F 5)), Ins (Li_diff A1 (F 6) (F 5)), Ins (Li A7 1), Ins Ecall,
      Ins (Li A0 1), Ins (Li A7 2), Ins Ecall,
      Lab 3, Ascii (bytes_of ''user: heapgrow demand-paged bytes: ''),
      Lab 4,
      Lab 5, text_nl ''user: heapgrow FAILED (sbrk)'',
      Lab 6]"

definition user_prog_forker :: asm where
  "user_prog_forker =
     [Ins (Li A7 12), Ins Ecall, Ins (Beqz A0 (F 1)),
      Ins (Li A7 13), Ins Ecall,
      Ins (La A0 (F 2)), Ins (Li_diff A1 (F 3) (F 2)), Ins (Li A7 1), Ins Ecall,
      Ins (Li A0 0), Ins (Li A7 2), Ins Ecall,
      Lab 1,
      Ins (La A0 (F 4)), Ins (Li_diff A1 (F 5) (F 4)), Ins (Li A7 1), Ins Ecall,
      Ins (Li A0 0), Ins (Li A7 2), Ins Ecall,
      Lab 2, text_nl ''forker: parent, child reaped'',
      Lab 3,
      Lab 4, text_nl ''forker: child here, fork returned 0'',
      Lab 5]"

definition user_prog_forkexec :: asm where
  "user_prog_forkexec =
     [Ins (Li A7 12), Ins Ecall, Ins (Beqz A0 (F 1)),
      Ins (Li A7 13), Ins Ecall,
      Ins (La A0 (F 2)), Ins (Li_diff A1 (F 3) (F 2)), Ins (Li A7 1), Ins Ecall,
      Ins (Li A0 0), Ins (Li A7 2), Ins Ecall,
      Lab 1,
      Ins (La A0 (F 4)), Ins (Li_diff A1 (F 5) (F 4)), Ins (Li A7 14), Ins Ecall,
      Ins (La A0 (F 6)), Ins (Li_diff A1 (F 7) (F 6)), Ins (Li A7 1), Ins Ecall,
      Ins (Li A0 1), Ins (Li A7 2), Ins Ecall,
      Lab 2, text_nl ''forkexec: parent, child done'',
      Lab 3,
      Lab 4, Ascii (bytes_of ''greeter''),
      Lab 5,
      Lab 6, text_nl ''forkexec: exec failed'',
      Lab 7]"

definition user_prog_ush :: asm where
  "user_prog_ush =
     [Ins (Addi Sp Sp (-64)), Ins (Mv S1 Sp),
      Lab 0,
      Ins (La A0 (F 8)), Ins (Li_diff A1 (F 9) (F 8)), Ins (Li A7 1), Ins Ecall,
      Ins (Mv A0 S1), Ins (Li A1 64), Ins (Li A7 6), Ins Ecall,
      Ins (Mv S0 A0), Ins (Blez S0 (B 0)),
      Ins (Addi T1 S0 (-1)), Ins (Add T2 S1 T1), Ins (Lb T3 0 T2), Ins (Li T4 10), Ins (Bne T3 T4 (F 1)), Ins (Mv S0 T1),
      Lab 1,
      Ins (Beqz S0 (B 0)),
      Ins (Li T0 1), Ins (Bne S0 T0 (F 2)), Ins (Lb T0 0 S1), Ins (Li T1 0x71), Ins (Bne T0 T1 (F 2)),
      Ins (Li A0 0), Ins (Li A7 2), Ins Ecall,
      Lab 2,
      Ins (Li A7 12), Ins Ecall, Ins (Beqz A0 (F 3)), Ins (Li A7 13), Ins Ecall, Ins (Jump (B 0)),
      Lab 3,
      Ins (Mv A0 S1), Ins (Mv A1 S0), Ins (Li A7 14), Ins Ecall,
      Ins (La A0 (F 10)), Ins (Li_diff A1 (F 11) (F 10)), Ins (Li A7 1), Ins Ecall,
      Ins (Li A0 1), Ins (Li A7 2), Ins Ecall,
      Lab 8, Ascii (bytes_of ''osh$ ''),
      Lab 9,
      Lab 10, text_nl ''osh: unknown command (try greeter/uname/heapgrow/forker or q)'',
      Lab 11]"

fun program_text :: "program \<Rightarrow> asm" where
  "program_text Greeter = user_prog_greeter"
| "program_text Trespasser = user_prog_trespasser"
| "program_text Badsys = user_prog_badsys"
| "program_text Uname = user_prog_uname"
| "program_text Echoline = user_prog_echoline"
| "program_text Catfile = user_prog_catfile"
| "program_text Heapgrow = user_prog_heapgrow"
| "program_text Forker = user_prog_forker"
| "program_text Forkexec = user_prog_forkexec"
| "program_text Ush = user_prog_ush"

section \<open>Execution\<close>

fun instrs :: "asm \<Rightarrow> instr list" where
  "instrs [] = []"
| "instrs (Ins i # ls) = i # instrs ls"
| "instrs (_ # ls) = instrs ls"

text \<open>The number of instructions before a label.\<close>

fun label_pos :: "nat \<Rightarrow> asm \<Rightarrow> nat option" where
  "label_pos l [] = None"
| "label_pos l (Ins i # ls) = map_option Suc (label_pos l ls)"
| "label_pos l (Lab k # ls) = (if k = l then Some 0 else label_pos l ls)"
| "label_pos l (Ascii bs # ls) = label_pos l ls"

fun lab_num :: "lab \<Rightarrow> nat" where
  "lab_num (F l) = l"
| "lab_num (B l) = l"

type_synonym view = "usize \<Rightarrow> (usize \<times> u8) option"

datatype 'k reply = Resume "64 word" view 'k | Gone 'k

record 'k os =
  os_call :: "64 word \<Rightarrow> 64 word \<Rightarrow> 64 word \<Rightarrow> 64 word \<Rightarrow> view \<Rightarrow> 'k \<Rightarrow> 'k reply"
  os_fault :: "usize \<Rightarrow> view \<Rightarrow> 'k \<Rightarrow> (view \<times> 'k) option"

record 'k user =
  uregs :: "reg \<Rightarrow> 64 word"
  upc :: nat
  umem :: view
  ukern :: 'k

datatype 'k ustep = Go "'k user" | Halted 'k | Killed usize 'k | Stuck

definition uload :: "view \<Rightarrow> usize \<Rightarrow> u8 option" where
  "uload V va = (case V va of Some (perm, b) \<Rightarrow> if perm AND PTE_R \<noteq> 0 then Some b else None | None \<Rightarrow> None)"

definition ustore :: "view \<Rightarrow> usize \<Rightarrow> u8 \<Rightarrow> view option" where
  "ustore V va b = (case V va of Some (perm, _) \<Rightarrow> if perm AND PTE_W \<noteq> 0 then Some (V(va \<mapsto> (perm, b))) else None | None \<Rightarrow> None)"

definition fault :: "'k os \<Rightarrow> usize \<Rightarrow> 'k user \<Rightarrow> 'k ustep" where
  "fault K va w = (case os_fault K va (umem w) (ukern w) of
     Some (V, k) \<Rightarrow> Go (w\<lparr>umem := V, ukern := k\<rparr>) | None \<Rightarrow> Killed va (ukern w))"

definition set_reg :: "reg \<Rightarrow> 64 word \<Rightarrow> 'k user \<Rightarrow> 'k ustep" where
  "set_reg d v w = Go (w\<lparr>uregs := (uregs w)(d := v), upc := Suc (upc w)\<rparr>)"

definition branch :: "asm \<Rightarrow> bool \<Rightarrow> lab \<Rightarrow> 'k user \<Rightarrow> 'k ustep" where
  "branch prog b l w =
     (if b then (case label_pos (lab_num l) prog of Some n \<Rightarrow> Go (w\<lparr>upc := n\<rparr>) | None \<Rightarrow> Stuck)
      else Go (w\<lparr>upc := Suc (upc w)\<rparr>))"

definition addr :: "(reg \<Rightarrow> 64 word) \<Rightarrow> reg \<Rightarrow> int \<Rightarrow> usize" where
  "addr r b off = unat (r b + word_of_int off)"

definition load_double :: "view \<Rightarrow> usize \<Rightarrow> 64 word option" where
  "load_double V va =
     (if list_all (\<lambda>k. uload V (va + k) \<noteq> None) [0..<8]
      then Some (word_of_nat (sum_list (map (\<lambda>k. unat (the (uload V (va + k))) * 256 ^ k) [0..<8]))) else None)"

fun execute :: "(nat \<Rightarrow> usize) \<Rightarrow> 'k os \<Rightarrow> asm \<Rightarrow> instr \<Rightarrow> 'k user \<Rightarrow> 'k ustep" where
  "execute A K prog (Li d v) w = set_reg d (word_of_int v) w"
| "execute A K prog (Li_diff d x y) w = set_reg d (word_of_nat (A (lab_num x)) - word_of_nat (A (lab_num y))) w"
| "execute A K prog (La d l) w = set_reg d (word_of_nat (A (lab_num l))) w"
| "execute A K prog (Mv d a) w = set_reg d (uregs w a) w"
| "execute A K prog (Addi d a v) w = set_reg d (uregs w a + word_of_int v) w"
| "execute A K prog (Add d a b) w = set_reg d (uregs w a + uregs w b) w"
| "execute A K prog (Sub d a b) w = set_reg d (uregs w a - uregs w b) w"
| "execute A K prog (Remu d a b) w = set_reg d (uregs w a mod uregs w b) w"
| "execute A K prog (Divu d a b) w = set_reg d (if uregs w b = 0 then -1 else uregs w a div uregs w b) w"
| "execute A K prog (Sb x off b) w =
     (let va = addr (uregs w) b off in
      case ustore (umem w) va (ucast (uregs w x)) of
        Some V \<Rightarrow> Go (w\<lparr>umem := V, upc := Suc (upc w)\<rparr>) | None \<Rightarrow> fault K va w)"
| "execute A K prog (Lb d off b) w =
     (let va = addr (uregs w) b off in
      case uload (umem w) va of Some v \<Rightarrow> set_reg d (scast v) w | None \<Rightarrow> fault K va w)"
| "execute A K prog (Ld d off b) w =
     (let va = addr (uregs w) b off in
      case load_double (umem w) va of Some v \<Rightarrow> set_reg d v w | None \<Rightarrow> fault K va w)"
| "execute A K prog (Bnez a l) w = branch prog (uregs w a \<noteq> 0) l w"
| "execute A K prog (Beqz a l) w = branch prog (uregs w a = 0) l w"
| "execute A K prog (Bltz a l) w = branch prog (sint (uregs w a) < 0) l w"
| "execute A K prog (Blez a l) w = branch prog (sint (uregs w a) \<le> 0) l w"
| "execute A K prog (Beq a b l) w = branch prog (uregs w a = uregs w b) l w"
| "execute A K prog (Bne a b l) w = branch prog (uregs w a \<noteq> uregs w b) l w"
| "execute A K prog (Jump l) w = branch prog True l w"
| "execute A K prog Ecall w =
     (case os_call K (uregs w A7) (uregs w A0) (uregs w A1) (uregs w A2) (umem w) (ukern w) of
        Resume v V k \<Rightarrow> Go (w\<lparr>uregs := (uregs w)(A0 := v), umem := V, ukern := k, upc := Suc (upc w)\<rparr>)
      | Gone k \<Rightarrow> Halted k)"
| "execute A K prog Ebreak w = Go (w\<lparr>upc := Suc (upc w)\<rparr>)"

definition ustep :: "(nat \<Rightarrow> usize) \<Rightarrow> 'k os \<Rightarrow> asm \<Rightarrow> 'k user \<Rightarrow> 'k ustep" where
  "ustep A K prog w = (if upc w < length (instrs prog) then execute A K prog (instrs prog ! upc w) w else Stuck)"

section \<open>Well-formed programs\<close>

fun jumps :: "instr \<Rightarrow> lab list" where
  "jumps (Bnez a l) = [l]" | "jumps (Beqz a l) = [l]" | "jumps (Bltz a l) = [l]" | "jumps (Blez a l) = [l]"
| "jumps (Beq a b l) = [l]" | "jumps (Bne a b l) = [l]" | "jumps (Jump l) = [l]" | "jumps _ = []"

fun datas :: "instr \<Rightarrow> lab list" where
  "datas (La d l) = [l]" | "datas (Li_diff d x y) = [x, y]" | "datas _ = []"

text \<open>A reference resolves, on the side its suffix says.\<close>

fun resolves :: "asm \<Rightarrow> nat \<Rightarrow> lab \<Rightarrow> bool" where
  "resolves prog k (F l) = (case label_pos l prog of Some n \<Rightarrow> k < n | None \<Rightarrow> False)"
| "resolves prog k (B l) = (case label_pos l prog of Some n \<Rightarrow> n \<le> k | None \<Rightarrow> False)"

fun labels_of :: "asm \<Rightarrow> nat list" where
  "labels_of [] = []"
| "labels_of (Lab l # ls) = l # labels_of ls"
| "labels_of (_ # ls) = labels_of ls"

definition instr_ok :: "asm \<Rightarrow> nat \<Rightarrow> bool" where
  "instr_ok prog k \<longleftrightarrow>
     (let is = instrs prog; i = is ! k in
      list_all (resolves prog k) (jumps i @ datas i) \<and>
      list_all (\<lambda>l. case label_pos (lab_num l) prog of Some n \<Rightarrow> n < length is \<and> is ! n \<noteq> Ecall | None \<Rightarrow> False) (jumps i) \<and>
      list_all (\<lambda>l. label_pos (lab_num l) prog = Some (length is)) (datas i) \<and>
      (i = Ecall \<longrightarrow> 0 < k \<and> list_ex (\<lambda>n. is ! (k - 1) = Li A7 (int n)) [1..<15]) \<and>
      (Suc k = length is \<longrightarrow> i = Ecall \<and> is ! (k - 1) = Li A7 2))"

definition wf_asm :: "asm \<Rightarrow> bool" where
  "wf_asm prog \<longleftrightarrow> instrs prog \<noteq> [] \<and> instrs prog ! 0 \<noteq> Ecall \<and> distinct (labels_of prog) \<and>
     list_all (instr_ok prog) [0..<length (instrs prog)]"

lemma texts_wf: "wf_asm user_prog_greeter" "wf_asm user_prog_trespasser" "wf_asm user_prog_badsys" "wf_asm user_prog_uname"
  "wf_asm user_prog_echoline" "wf_asm user_prog_catfile" "wf_asm user_prog_heapgrow" "wf_asm user_prog_forker" "wf_asm user_prog_forkexec"
  "wf_asm user_prog_ush"
  by code_simp+

lemma program_texts_wf: "wf_asm (program_text x)"
  by (cases x) (simp_all add: texts_wf)

text \<open>Where an instruction can go.\<close>

lemma execute_Go:
  assumes "execute A K prog i w = Go w'"
  shows "upc w' = Suc (upc w) \<and> (\<forall>d v. i = Li d v \<longrightarrow> uregs w' d = word_of_int v) \<or>
     upc w' = upc w \<and> uregs w' = uregs w \<or> (\<exists>l\<in>set (jumps i). label_pos (lab_num l) prog = Some (upc w'))"
  using assms
  by (cases i) (auto simp: set_reg_def branch_def fault_def Let_def split: option.splits if_splits reply.splits)

lemma execute_Stuck:
  assumes "execute A K prog i w = Stuck"
  shows "\<exists>l\<in>set (jumps i). label_pos (lab_num l) prog = None"
  using assms
  by (cases i) (auto simp: set_reg_def branch_def fault_def Let_def split: option.splits if_splits reply.splits)

definition exit_gone :: "'k os \<Rightarrow> bool" where
  "exit_gone K \<longleftrightarrow> (\<forall>a b c V k. \<exists>k'. os_call K 2 a b c V k = Gone k')"

definition pc_ok :: "asm \<Rightarrow> 'k user \<Rightarrow> bool" where
  "pc_ok prog w \<longleftrightarrow> upc w < length (instrs prog) \<and>
     (instrs prog ! upc w = Ecall \<longrightarrow>
        (\<exists>n\<in>{1..14}. instrs prog ! (upc w - 1) = Li A7 (int n) \<and> uregs w A7 = word_of_nat n))"

lemma wf_asmD:
  assumes "wf_asm prog" and "k < length (instrs prog)"
  shows "l \<in> set (jumps (instrs prog ! k)) \<Longrightarrow> label_pos (lab_num l) prog = Some n \<Longrightarrow> n < length (instrs prog) \<and> instrs prog ! n \<noteq> Ecall"
    and "l \<in> set (jumps (instrs prog ! k)) \<Longrightarrow> label_pos (lab_num l) prog \<noteq> None"
    and "instrs prog ! k = Ecall \<Longrightarrow> 0 < k \<and> (\<exists>n\<in>{1..14}. instrs prog ! (k - 1) = Li A7 (int n))"
    and "Suc k = length (instrs prog) \<Longrightarrow> instrs prog ! k = Ecall \<and> instrs prog ! (k - 1) = Li A7 2"
proof -
  have "instr_ok prog k" using assms by (simp add: wf_asm_def list_all_iff)
  note I = this [unfolded instr_ok_def Let_def]
  show "n < length (instrs prog) \<and> instrs prog ! n \<noteq> Ecall"
    if "l \<in> set (jumps (instrs prog ! k))" "label_pos (lab_num l) prog = Some n" using I that by (fastforce simp: list_all_iff)
  show "label_pos (lab_num l) prog \<noteq> None" if "l \<in> set (jumps (instrs prog ! k))" using I that by (auto simp: list_all_iff split: option.splits)
  show "0 < k \<and> (\<exists>n\<in>{1..14}. instrs prog ! (k - 1) = Li A7 (int n))" if "instrs prog ! k = Ecall"
    using I that by (fastforce simp: list_ex_iff)
  show "instrs prog ! k = Ecall \<and> instrs prog ! (k - 1) = Li A7 2" if "Suc k = length (instrs prog)" using I that by simp
qed

lemma pc_ok_step:
  assumes "wf_asm prog" and "exit_gone K" and "pc_ok prog w" and "ustep A K prog w = Go w'"
  shows "pc_ok prog w'"
proof -
  let ?is = "instrs prog" and ?i = "instrs prog ! upc w"
  have k: "upc w < length ?is" using assms(3) by (simp add: pc_ok_def)
  then have e: "execute A K prog ?i w = Go w'" using assms(4) by (simp add: ustep_def)
  have last: "Suc (upc w) < length ?is"
  proof (rule ccontr)
    assume "\<not> Suc (upc w) < length ?is"
    then have i: "?i = Ecall" "?is ! (upc w - 1) = Li A7 2" using wf_asmD(4) [OF assms(1) k] k by simp_all
    then have "uregs w A7 = 2" using assms(3) by (auto simp: pc_ok_def)
    with i(1) e assms(2) show False by (auto simp: exit_gone_def split: reply.splits) (metis reply.distinct(1))
  qed
  from execute_Go [OF e] show ?thesis
  proof (elim disjE conjE bexE)
    assume n: "upc w' = Suc (upc w)" "\<forall>d v. ?i = Li d v \<longrightarrow> uregs w' d = word_of_int v"
    show ?thesis
    proof (cases "?is ! Suc (upc w) = Ecall")
      case True
      with wf_asmD(3) [OF assms(1) last] obtain m where "m \<in> {1..14}" "?i = Li A7 (int m)" by auto
      with n last show ?thesis by (auto simp: pc_ok_def)
    qed (use n last in \<open>simp add: pc_ok_def\<close>)
  next
    assume "upc w' = upc w" "uregs w' = uregs w"
    then show ?thesis using assms(3) by (simp add: pc_ok_def)
  next
    fix l assume "l \<in> set (jumps ?i)" "label_pos (lab_num l) prog = Some (upc w')"
    from wf_asmD(1) [OF assms(1) k this] show ?thesis by (simp add: pc_ok_def)
  qed
qed

definition ureach :: "(nat \<Rightarrow> usize) \<Rightarrow> 'k os \<Rightarrow> asm \<Rightarrow> 'k user \<Rightarrow> 'k user \<Rightarrow> bool" where
  "ureach A K prog = (\<lambda>w w'. ustep A K prog w = Go w')\<^sup>*\<^sup>*"

lemma pc_ok_reach:
  assumes "wf_asm prog" and "exit_gone K" and "ureach A K prog w w'" and "upc w = 0"
  shows "pc_ok prog w'"
  using assms(3) unfolding ureach_def
proof (induction rule: rtranclp_induct)
  case base
  then show ?case using assms(1,4) by (simp add: pc_ok_def wf_asm_def)
next
  case (step y z)
  then show ?case using pc_ok_step [OF assms(1,2)] by blast
qed

section \<open>Properties\<close>

text \<open>
  C20. User programs are well typed.  Each of the ten programs refers only to labels that exist, on the side the reference says, jumps only
  to instructions and takes addresses only of data.  So, whatever the kernel answers, as long as \<open>SYS_EXIT\<close> does not return,
  no run of a program ever leaves its code or meets an unresolved label, and every \<open>ecall\<close> it makes carries the number of a system call.
\<close>

theorem user_programs_safe:
  assumes "exit_gone K" and "ureach A K (program_text x) w w'" and "upc w = 0"
  shows "wf_asm (program_text x) \<and> upc w' < length (instrs (program_text x)) \<and> ustep A K (program_text x) w' \<noteq> Stuck \<and>
     (instrs (program_text x) ! upc w' = Ecall \<longrightarrow> unat (uregs w' A7) \<in> {SYS_WRITE..SYS_EXEC})"
proof -
  let ?p = "program_text x"
  have ok: "pc_ok ?p w'" by (rule pc_ok_reach [OF program_texts_wf assms])
  then have k: "upc w' < length (instrs ?p)" by (simp add: pc_ok_def)
  have "execute A K ?p (instrs ?p ! upc w') w' \<noteq> Stuck" using execute_Stuck wf_asmD(2) [OF program_texts_wf k] by blast
  moreover have "unat (uregs w' A7) \<in> {SYS_WRITE..SYS_EXEC}" if "instrs ?p ! upc w' = Ecall"
    using ok that by (auto simp: pc_ok_def SYS_WRITE_def SYS_EXEC_def unat_of_nat)
  ultimately show ?thesis using k program_texts_wf by (simp add: ustep_def)
qed

definition null_os :: "unit os" where
  "null_os = \<lparr>os_call = (\<lambda>n a b c V k. if n = 2 then Gone k else Resume (-1) V k), os_fault = (\<lambda>va V k. None)\<rparr>"

theorem user_programs_safe_witness:
  "ustep (\<lambda>l. l) null_os (program_text Badsys) \<lparr>uregs = (\<lambda>r. 0), upc = 0, umem = (\<lambda>va. None), ukern = ()\<rparr> \<noteq> Stuck"
proof -
  have "exit_gone null_os" by (simp add: exit_gone_def null_os_def)
  from user_programs_safe [OF this, of "\<lambda>l. l" Badsys "\<lparr>uregs = (\<lambda>r. 0), upc = 0, umem = (\<lambda>va. None), ukern = ()\<rparr>"]
  show ?thesis by (simp add: ureach_def)
qed

end
