(* ===== verification/Greeter.thy ===== *)
theory Greeter
  imports User_Prog
begin

text \<open>
  The greeter of \<open>src/src/user.rs\<close>, run to its end on any kernel whose system calls behave as documented: what it prints, with the
  loop that writes the pid in decimal to the stack.
\<close>

section \<open>Runs\<close>

fun usteps :: "nat \<Rightarrow> (nat \<Rightarrow> usize) \<Rightarrow> 'k os \<Rightarrow> asm \<Rightarrow> 'k user \<Rightarrow> 'k ustep" where
  "usteps 0 A K prog w = Go w"
| "usteps (Suc n) A K prog w = (case ustep A K prog w of Go w' \<Rightarrow> usteps n A K prog w' | r \<Rightarrow> r)"

lemma usteps_numeral [simp]:
  "usteps (numeral m) A K prog w = (case ustep A K prog w of Go w' \<Rightarrow> usteps (pred_numeral m) A K prog w' | r \<Rightarrow> r)"
  by (simp add: numeral_eq_Suc)

lemma usteps_add: "usteps (m + n) A K prog w = (case usteps m A K prog w of Go w' \<Rightarrow> usteps n A K prog w' | r \<Rightarrow> r)"
  by (induction m arbitrary: w) (auto split: ustep.splits)

lemma usteps_trans: "usteps m A K prog w = Go w' \<Longrightarrow> usteps n A K prog w' = r \<Longrightarrow> usteps (m + n) A K prog w = r"
  by (simp add: usteps_add)

text \<open>The strings of a program, between their labels, and what the assembler and the loader do with them.\<close>

fun strings :: "asm \<Rightarrow> (nat \<times> u8 list \<times> nat) list" where
  "strings (Lab a # Ascii bs # Lab b # ls) = (a, bs, b) # strings (Lab b # ls)"
| "strings (_ # ls) = strings ls"
| "strings [] = []"

definition loaded :: "(nat \<Rightarrow> usize) \<Rightarrow> asm \<Rightarrow> view \<Rightarrow> bool" where
  "loaded A prog V \<longleftrightarrow> (\<forall>(a, bs, b)\<in>set (strings prog).
     A b = A a + length bs \<and> readable V (A a) (length bs) \<and> peek V (A a) (length bs) = bs)"

text \<open>The page at the top of the stack.\<close>

definition stack_page :: "view \<Rightarrow> bool" where
  "stack_page V \<longleftrightarrow> (\<forall>va. USER_STACK_TOP - PAGE_SIZE \<le> va \<and> va < USER_STACK_TOP \<longrightarrow>
     (\<exists>b. V va = Some (PTE_R OR PTE_W OR PTE_U, b)))"

text \<open>What the greeter relies on: the calls \<open>SYS_WRITE\<close>, \<open>SYS_EXIT\<close>, \<open>SYS_GETPID\<close> and \<open>SYS_SLEEP_MS\<close> leave its memory and its registers but
  \<open>a0\<close> alone; \<open>out\<close> is the console.\<close>

definition exit_message :: "usize \<Rightarrow> usize \<Rightarrow> string" where
  "exit_message n code = ''syscall: pid '' @ dec n @ '' exited with code '' @ dec code"

definition write_ok :: "view \<Rightarrow> usize \<Rightarrow> usize \<Rightarrow> bool" where
  "write_ok V ptr len \<longleftrightarrow> len \<le> WRITE_MAX \<and> readable V ptr len \<and> utf8_valid (peek V ptr len)"

definition serves :: "'k os \<Rightarrow> ('k \<Rightarrow> u8 list) \<Rightarrow> usize \<Rightarrow> bool" where
  "serves K out n \<longleftrightarrow> (\<forall>a b c V k.
     (\<exists>k'. os_call K 1 a b c V k = Resume (if write_ok V (unat a) (unat b) then b else -1) V k' \<and>
        out k' = out k @ (if write_ok V (unat a) (unat b) then crlf (peek V (unat a) (unat b)) else [])) \<and>
     (\<exists>k'. os_call K 2 a b c V k = Gone k' \<and>
        out k' = out k @ crlf (bytes_of (exit_message n (unat a)) @ [NL])) \<and>
     (\<exists>k'. os_call K 4 a b c V k = Resume (word_of_nat n) V k' \<and> out k' = out k) \<and>
     (\<exists>k' v. os_call K 5 a b c V k = Resume v V k' \<and> out k' = out k))"

lemma serves_call:
  assumes "serves K out n"
  obtains k1 where "os_call K 1 a b c V k = Resume (if write_ok V (unat a) (unat b) then b else -1) V k1"
    "out k1 = out k @ (if write_ok V (unat a) (unat b) then crlf (peek V (unat a) (unat b)) else [])"
  using assms unfolding serves_def by blast

lemma greeter_code: "instrs user_prog_greeter =
     [Li S0 3, La A0 (F 2), Li_diff A1 (F 3) (F 2), Li A7 1, Ecall, Li A0 30, Li A7 5, Ecall, Addi S0 S0 (-1), Bnez S0 (B 1),
      Li A7 4, Ecall, Addi Sp Sp (-32), Addi T1 Sp 32, Li T2 10, Mv T0 A0, Addi T1 T1 (-1), Li T3 10, Sb T3 0 T1,
      Remu T4 T0 T2, Divu T0 T0 T2, Addi T4 T4 48, Addi T1 T1 (-1), Sb T4 0 T1, Bnez T0 (B 30),
      Mv A0 T1, Addi T5 Sp 32, Sub A1 T5 T1, Li A7 1, Ecall, Addi Sp Sp 32, Li A0 0, Li A7 2, Ecall]"
  "label_pos (Suc 0) user_prog_greeter = Some (Suc 0)" "label_pos 30 user_prog_greeter = Some 19"
  by (simp_all add: user_prog_greeter_def)

abbreviation hello :: "u8 list" where
  "hello \<equiv> bytes_of ''user: hello from U-mode via ecall! my pid is ''"

text \<open>A program writes one of its strings.\<close>

lemma write_string:
  assumes K: "serves K out n" and L: "loaded A prog V" and s: "(a, bs, b) \<in> set (strings prog)" and u: "utf8_valid bs" "length bs \<le> WRITE_MAX"
  obtains k1 v where "os_call K 1 (word_of_nat (A a)) (word_of_nat (A b) - word_of_nat (A a)) c V k = Resume v V k1" "out k1 = out k @ crlf bs"
proof -
  have H: "A b = A a + length bs" "readable V (A a) (length bs)" "peek V (A a) (length bs) = bs" using L s by (auto simp: loaded_def)
  have d: "word_of_nat (A b) - word_of_nat (A a) = (word_of_nat (length bs) :: 64 word)" by (simp add: H(1))
  have n: "unat (word_of_nat m :: 64 word) = m" if "m \<le> VA_MAX" for m using that by (simp add: unat_of_nat pte_pow(8))
  have e: "unat (word_of_nat (A a) :: 64 word) = A a" "unat (word_of_nat (length bs) :: 64 word) = length bs"
    using H(2) by (auto intro!: n simp: readable_def)
  have ok: "write_ok V (A a) (length bs)" unfolding write_ok_def H(3) using H(2) u by simp
  obtain k1 where "os_call K 1 (word_of_nat (A a)) (word_of_nat (length bs)) c V k =
      Resume (if write_ok V (unat (word_of_nat (A a) :: 64 word)) (unat (word_of_nat (length bs) :: 64 word)) then word_of_nat (length bs) else -1) V k1"
    "out k1 = out k @ (if write_ok V (unat (word_of_nat (A a) :: 64 word)) (unat (word_of_nat (length bs) :: 64 word))
       then crlf (peek V (unat (word_of_nat (A a) :: 64 word)) (unat (word_of_nat (length bs) :: 64 word))) else [])"
    by (rule serves_call [OF K]) (rule that)
  then have "os_call K 1 (word_of_nat (A a)) (word_of_nat (length bs)) c V k = Resume (word_of_nat (length bs)) V k1" "out k1 = out k @ crlf bs"
    unfolding e using ok H(3) by simp_all
  then show thesis by (intro that) (simp_all only: d)
qed

lemma greeter_round:
  assumes K: "serves K out n" and L: "loaded A user_prog_greeter (umem w)" and pc: "upc w = 1"
  obtains w' where "usteps 9 A K user_prog_greeter w = Go w'" "upc w' = (if uregs w S0 - 1 \<noteq> 0 then 1 else 10)"
    "uregs w' S0 = uregs w S0 - 1" "uregs w' Sp = uregs w Sp" "umem w' = umem w" "out (ukern w') = out (ukern w) @ crlf hello"
proof -
  let ?len = "word_of_nat (A 3) - word_of_nat (A 2) :: 64 word"
  have s: "(2, hello, 3) \<in> set (strings user_prog_greeter)" by (simp add: user_prog_greeter_def)
  have u: "utf8_valid hello" "length hello \<le> WRITE_MAX" by (simp_all add: WRITE_MAX_def utf8_ascii ascii_def bytes_of_def in_range_def)
  obtain k1 v where k1: "os_call K 1 (word_of_nat (A 2)) ?len (uregs w A2) (umem w) (ukern w) = Resume v (umem w) k1"
    "out k1 = out (ukern w) @ crlf hello" by (rule write_string [OF K L s u]) (rule that)
  obtain k2 v' where k2: "os_call K 5 30 ?len (uregs w A2) (umem w) k1 = Resume v' (umem w) k2" "out k2 = out k1"
    using K unfolding serves_def by blast
  let ?r = "(uregs w)(A1 := ?len, A7 := 5, A0 := v', S0 := uregs w S0 - 1)"
  have "usteps 9 A K user_prog_greeter w = Go (w\<lparr>uregs := ?r, upc := (if uregs w S0 - 1 \<noteq> 0 then 1 else 10), ukern := k2\<rparr>)"
    using pc k1(1) k2(1) by (simp add: ustep_def greeter_code set_reg_def branch_def)
  then show thesis by (rule that) (use k1(2) k2(2) in simp_all)
qed

text \<open>Decimal digits.\<close>

lemma dec_step: "dec v = (if v < 10 then [digit v] else dec (v div 10) @ [digit (v mod 10)])"
  unfolding dec_def by (subst radix.simps) simp

lemma dec_length: "v < 10 ^ Suc k \<Longrightarrow> length (dec v) \<le> Suc k"
proof (induction k arbitrary: v)
  case 0
  then show ?case by (subst dec_step) simp
next
  case (Suc k)
  then have "v div 10 < 10 ^ Suc k" by (simp add: div_less_iff_less_mult mult.commute)
  with Suc.IH [of "v div 10"] show ?case by (subst dec_step) simp
qed

lemma digit_byte: "n < 10 \<Longrightarrow> bytes_of [digit n] = [word_of_nat (n + 48)]"
  by (simp add: bytes_of_def digit_def)

lemma word_mod_div:
  fixes v :: nat
  assumes "v < 2 ^ 64"
  shows "word_of_nat v mod (10 :: 64 word) = word_of_nat (v mod 10)" "word_of_nat v div (10 :: 64 word) = word_of_nat (v div 10)"
proof -
  have "unat (word_of_nat v mod (10 :: 64 word)) = v mod 10" "unat (word_of_nat v div (10 :: 64 word)) = v div 10"
    using assms by (simp_all add: unat_mod unat_div unat_of_nat)
  then show "word_of_nat v mod (10 :: 64 word) = word_of_nat (v mod 10)" "word_of_nat v div (10 :: 64 word) = word_of_nat (v div 10)"
    using assms div_le_dividend [of v 10] by (simp_all add: word_unat_eq_iff unat_of_nat)
qed

lemma overwrite_snoc:
  assumes "V (q + length bs) = Some (perm, b)"
  shows "overwrite (V(q + length bs \<mapsto> (perm, d))) q bs = overwrite V q (bs @ [d])"
  using assms by (auto simp: overwrite_def fun_eq_iff nth_append)

text \<open>One turn of the digit loop, and the loop.\<close>

lemma digit_turn:
  assumes pc: "upc w = 19" and r: "uregs w T0 = word_of_nat v" "uregs w T1 = word_of_nat (Suc q)" "uregs w T2 = 10" and v: "v < 2 ^ 64"
    and q: "q < 2 ^ 63" "umem w q = Some (PTE_R OR PTE_W OR PTE_U, b)"
  obtains w' where "usteps 6 A K user_prog_greeter w = Go w'" "upc w' = (if v div 10 = 0 then 25 else 19)"
    "uregs w' T0 = word_of_nat (v div 10)" "uregs w' T1 = word_of_nat q" "uregs w' T2 = 10" "uregs w' Sp = uregs w Sp" "uregs w' A2 = uregs w A2"
    "umem w' = (umem w)(q \<mapsto> (PTE_R OR PTE_W OR PTE_U, word_of_nat (v mod 10 + 48)))" "ukern w' = ukern w"
proof -
  let ?r = "(uregs w)(T0 := word_of_nat (v div 10), T4 := word_of_nat (v mod 10) + 48, T1 := word_of_nat q)"
  let ?V = "(umem w)(q \<mapsto> (PTE_R OR PTE_W OR PTE_U, word_of_nat (v mod 10 + 48)))"
  have q': "word_of_nat (Suc q) + word_of_int (- 1) = (word_of_nat q :: 64 word)" by simp
  have ad: "unat (word_of_nat q :: 64 word) = q" using q(1) by (simp add: unat_of_nat)
  have z: "(word_of_nat (v div 10) :: 64 word) = 0 \<longleftrightarrow> v div 10 = 0"
    using v by (simp add: word_of_nat_eq_0_iff) (auto dest: dvd_imp_le)
  have u: "ucast (word_of_nat (v mod 10) + 48 :: 64 word) = (word_of_nat (v mod 10 + 48) :: u8)"
  proof -
    have "v mod 10 + 48 < 58" by simp
    then show ?thesis by (simp add: word_unat_eq_iff unsigned_ucast_eq unat_of_nat take_bit_eq_mod unat_word_ariths)
  qed
  have st: "ustore (umem w) q (word_of_nat (v mod 10 + 48)) = Some ?V" using q(2) by (simp add: ustore_def pte_pow)
  have "usteps 6 A K user_prog_greeter w = Go (w\<lparr>uregs := ?r, umem := ?V, upc := (if v div 10 = 0 then 25 else 19)\<rparr>)"
    using pc r st by (simp add: ustep_def greeter_code set_reg_def branch_def word_mod_div [OF v] addr_def Let_def u ad z)
  then show thesis by (rule that) (use r(3) in simp_all)
qed

lemma stack_byte:
  assumes "stack_page V" and "USER_STACK_TOP - PAGE_SIZE \<le> va" and "va < USER_STACK_TOP"
  obtains b where "V va = Some (PTE_R OR PTE_W OR PTE_U, b)"
  using assms unfolding stack_page_def by blast

lemma stack_page_update: "stack_page V \<Longrightarrow> stack_page (V(q \<mapsto> (PTE_R OR PTE_W OR PTE_U, d)))"
  by (simp add: stack_page_def)

lemma digit_loop:
  assumes "upc w = 19" and "uregs w T0 = word_of_nat v" and "uregs w T1 = word_of_nat p" and "uregs w T2 = 10" and "v < 2 ^ 64"
    and "stack_page (umem w)" and "USER_STACK_TOP - PAGE_SIZE + length (dec v) \<le> p" and "p \<le> USER_STACK_TOP"
  shows "\<exists>n w'. usteps n A K user_prog_greeter w = Go w' \<and> upc w' = 25 \<and> uregs w' T1 = word_of_nat (p - length (dec v)) \<and>
     uregs w' Sp = uregs w Sp \<and> uregs w' A2 = uregs w A2 \<and> ukern w' = ukern w \<and>
     umem w' = overwrite (umem w) (p - length (dec v)) (bytes_of (dec v))"
  using assms
proof (induction v arbitrary: w p rule: less_induct)
  case (less v)
  have pos: "0 < length (dec v)" by (subst dec_step) simp
  with less.prems(7) obtain q where q: "p = Suc q" "USER_STACK_TOP - PAGE_SIZE \<le> q" by (cases p) auto
  have ltq: "q < USER_STACK_TOP" using less.prems(8) q(1) by simp
  then have q63: "q < 2 ^ 63" by (simp add: USER_STACK_TOP_def)
  obtain b where b: "umem w q = Some (PTE_R OR PTE_W OR PTE_U, b)" by (rule stack_byte [OF less.prems(6) q(2) ltq])
  have r1: "uregs w T1 = word_of_nat (Suc q)" using less.prems(3) q(1) by simp
  obtain w1 where w1: "usteps 6 A K user_prog_greeter w = Go w1" "upc w1 = (if v div 10 = 0 then 25 else 19)"
    "uregs w1 T0 = word_of_nat (v div 10)" "uregs w1 T1 = word_of_nat q" "uregs w1 T2 = 10" "uregs w1 Sp = uregs w Sp" "uregs w1 A2 = uregs w A2"
    "umem w1 = (umem w)(q \<mapsto> (PTE_R OR PTE_W OR PTE_U, word_of_nat (v mod 10 + 48)))" "ukern w1 = ukern w"
    by (rule digit_turn [OF less.prems(1,2) r1 less.prems(4,5) q63 b]) (rule that)
  show ?case
  proof (cases "v < 10")
    case True
    then have d: "dec v = [digit v]" "v div 10 = 0" "v mod 10 = v" by (subst dec_step, simp_all)
    have "umem w1 = overwrite (umem w) q (bytes_of (dec v))"
      using b by (auto simp: w1(8) d digit_byte [OF True] overwrite_def fun_eq_iff)
    then show ?thesis using w1 d q(1) by (intro exI [of _ 6] exI [of _ w1]) simp
  next
    case False
    then have d: "dec v = dec (v div 10) @ [digit (v mod 10)]" "v div 10 \<noteq> 0" "v div 10 < v" by (subst dec_step, simp_all)
    let ?n = "length (dec (v div 10))"
    have "stack_page (umem w1)" unfolding w1(8) by (rule stack_page_update [OF less.prems(6)])
    moreover have "USER_STACK_TOP - PAGE_SIZE + ?n \<le> q" "q \<le> USER_STACK_TOP" using less.prems(7) ltq d(1) q(1) by simp_all
    moreover have "v div 10 < 2 ^ 64" using less.prems(5) d(3) by simp
    moreover have "upc w1 = 19" using w1(2) d(2) by simp
    ultimately obtain n w' where w': "usteps n A K user_prog_greeter w1 = Go w'" "upc w' = 25" "uregs w' T1 = word_of_nat (q - ?n)"
      "uregs w' Sp = uregs w1 Sp" "uregs w' A2 = uregs w1 A2" "ukern w' = ukern w1" "umem w' = overwrite (umem w1) (q - ?n) (bytes_of (dec (v div 10)))"
      using less.IH [OF d(3), of w1 q] w1(3-5) by blast
    have e: "q - ?n + length (bytes_of (dec (v div 10))) = q" using \<open>USER_STACK_TOP - PAGE_SIZE + ?n \<le> q\<close> by simp
    have "bytes_of (dec v) = bytes_of (dec (v div 10)) @ bytes_of [digit (v mod 10)]" unfolding d(1) by (simp add: bytes_of_def)
    then have "umem w' = overwrite (umem w) (q - ?n) (bytes_of (dec v))"
      using overwrite_snoc [of "umem w" "q - ?n" "bytes_of (dec (v div 10))", unfolded e, OF b] w'(7) w1(8) by (simp add: digit_byte)
    then show ?thesis using usteps_trans [OF w1(1) w'(1)] w' w1 d(1) q(1) by (intro exI [of _ "6 + n"] exI [of _ w']) simp
  qed
qed

lemma greeter_pid:
  assumes K: "serves K out n" and n: "n < 2 ^ 64" and pc: "upc w = 10" and sp: "uregs w Sp = word_of_nat USER_STACK_TOP"
    and st: "stack_page (umem w)"
  obtains w' where "usteps 9 A K user_prog_greeter w = Go w'" "upc w' = 19" "uregs w' T0 = word_of_nat n"
    "uregs w' T1 = word_of_nat (USER_STACK_TOP - 1)" "uregs w' T2 = 10" "uregs w' Sp = word_of_nat (USER_STACK_TOP - 32)"
    "umem w' = (umem w)(USER_STACK_TOP - 1 \<mapsto> (PTE_R OR PTE_W OR PTE_U, NL))" "out (ukern w') = out (ukern w)"
proof -
  obtain k1 where k1: "os_call K 4 (uregs w A0) (uregs w A1) (uregs w A2) (umem w) (ukern w) = Resume (word_of_nat n) (umem w) k1"
    "out k1 = out (ukern w)" using K unfolding serves_def by blast
  obtain b where b: "umem w (USER_STACK_TOP - 1) = Some (PTE_R OR PTE_W OR PTE_U, b)"
    by (rule stack_byte [OF st, of "USER_STACK_TOP - 1"]) (simp_all add: USER_STACK_TOP_def PAGE_SIZE_def)
  let ?V = "(umem w)(USER_STACK_TOP - 1 \<mapsto> (PTE_R OR PTE_W OR PTE_U, NL))"
  have s: "ustore (umem w) (USER_STACK_TOP - 1) 10 = Some ?V" using b by (simp add: ustore_def pte_pow NL_def)
  let ?r = "(uregs w)(A7 := 4, A0 := word_of_nat n, Sp := word_of_nat (USER_STACK_TOP - 32), T2 := 10,
     T0 := word_of_nat n, T1 := word_of_nat (USER_STACK_TOP - 1), T3 := 10)"
  have "usteps 9 A K user_prog_greeter w = Go (w\<lparr>uregs := ?r, umem := ?V, ukern := k1, upc := 19\<rparr>)"
    using pc k1(1) s sp by (simp add: ustep_def greeter_code set_reg_def addr_def Let_def USER_STACK_TOP_def)
  then show thesis by (rule that) (simp_all add: k1(2))
qed

text \<open>The digits and the newline on the stack, as \<open>SYS_WRITE\<close> reads them.\<close>

lemma dec_ascii: "ascii (bytes_of (dec v))"
proof (induction v rule: less_induct)
  case (less v)
  have d: "ascii (bytes_of [digit n])" if "n < 10" for n using that by (simp add: digit_byte ascii_def in_range_def unat_of_nat unat_word_ariths)
  show ?case
  proof (cases "v < 10")
    case True
    then show ?thesis using d [OF True] by (subst dec_step) simp
  next
    case False
    then have "bytes_of (dec v) = bytes_of (dec (v div 10)) @ bytes_of [digit (v mod 10)]" by (subst dec_step) (simp add: bytes_of_def)
    then show ?thesis using less [of "v div 10"] False d [of "v mod 10"] by simp
  qed
qed

lemma peek_digits:
  assumes "stack_page V" and "q + length bs = USER_STACK_TOP - 1" and "USER_STACK_TOP - PAGE_SIZE \<le> q"
  defines "V' \<equiv> overwrite (V(USER_STACK_TOP - 1 \<mapsto> (PTE_R OR PTE_W OR PTE_U, NL))) q bs"
  shows "peek V' q (Suc (length bs)) = bs @ [NL]" and "readable V' q (Suc (length bs))"
proof -
  have t: "0 < USER_STACK_TOP" "USER_STACK_TOP mod PAGE_SIZE = 0" "USER_STACK_TOP \<le> VA_MAX" "PAGE_SIZE \<le> USER_STACK_TOP"
    by (simp_all add: USER_STACK_TOP_def PAGE_SIZE_def pte_pow(8))
  have m: "V va \<noteq> None" if "USER_STACK_TOP - PAGE_SIZE \<le> va" "va < USER_STACK_TOP" for va using assms(1) that by (auto simp: stack_page_def)
  have "V' (q + k) = Some (PTE_R OR PTE_W OR PTE_U, (bs @ [NL]) ! k)" if k: "k < Suc (length bs)" for k
  proof -
    obtain b where "V (q + k) = Some (PTE_R OR PTE_W OR PTE_U, b)"
      by (rule stack_byte [OF assms(1), of "q + k"]) (use k assms(2,3) t(1) in simp_all)
    then show ?thesis using k assms(2) by (cases "k = length bs") (auto simp: V'_def overwrite_def nth_append)
  qed
  then show "peek V' q (Suc (length bs)) = bs @ [NL]" by (intro nth_equalityI) (simp_all add: peek_def del: upt_Suc)
  have "V' va \<noteq> None" if "q - q mod PAGE_SIZE \<le> va" "va < q + Suc (length bs)" for va
  proof -
    have "USER_STACK_TOP - PAGE_SIZE \<le> q - q mod PAGE_SIZE"
      using assms(3) t by (simp add: minus_mod_eq_mult_div USER_STACK_TOP_def PAGE_SIZE_def)
    then have "V va \<noteq> None" using that m [of va] assms(2) t(1) by simp
    then show ?thesis by (auto simp: V'_def overwrite_def)
  qed
  then show "readable V' q (Suc (length bs))" using assms(2) t by (simp add: readable_def)
qed

lemma greeter_end:
  assumes K: "serves K out n" and pc: "upc w = 25" and r: "uregs w T1 = word_of_nat q" "uregs w Sp = word_of_nat (USER_STACK_TOP - 32)"
    and q: "q \<le> USER_STACK_TOP" and ok: "write_ok (umem w) q (USER_STACK_TOP - q)"
  obtains k where "usteps 9 A K user_prog_greeter w = Halted k"
    "out k = out (ukern w) @ crlf (peek (umem w) q (USER_STACK_TOP - q)) @
       crlf (bytes_of (exit_message n 0) @ [NL])"
proof -
  have un: "unat (word_of_nat m :: 64 word) = m" if "m < 2 ^ 64" for m using that by (simp add: unat_of_nat)
  have u: "unat (word_of_nat q :: 64 word) = q" "unat (word_of_nat (USER_STACK_TOP - q) :: 64 word) = USER_STACK_TOP - q"
    by (rule un; use q in \<open>simp add: USER_STACK_TOP_def\<close>)+
  obtain k1 v where k: "os_call K 1 (word_of_nat q) (word_of_nat (USER_STACK_TOP - q)) (uregs w A2) (umem w) (ukern w) = Resume v (umem w) k1"
    "out k1 = out (ukern w) @ (if write_ok (umem w) (unat (word_of_nat q :: 64 word)) (unat (word_of_nat (USER_STACK_TOP - q) :: 64 word))
       then crlf (peek (umem w) (unat (word_of_nat q :: 64 word)) (unat (word_of_nat (USER_STACK_TOP - q) :: 64 word))) else [])"
    by (rule serves_call [OF K]) (rule that)
  then have k1: "out k1 = out (ukern w) @ crlf (peek (umem w) q (USER_STACK_TOP - q))" using ok by (simp add: u)
  obtain k2 where k2: "os_call K 2 0 (word_of_nat (USER_STACK_TOP - q)) (uregs w A2) (umem w) k1 = Gone k2"
    "out k2 = out k1 @ crlf (bytes_of (exit_message n (unat (0 :: 64 word))) @ [NL])"
    using K unfolding serves_def by blast
  have d: "word_of_nat (USER_STACK_TOP - 32) + 32 - word_of_nat q = (word_of_nat (USER_STACK_TOP - q) :: 64 word)"
    using q by (simp add: of_nat_diff USER_STACK_TOP_def)
  have "usteps 9 A K user_prog_greeter w = Halted k2"
    using pc r k(1) k2(1) d by (simp add: ustep_def greeter_code set_reg_def)
  then show thesis by (rule that) (simp add: k1 k2(2))
qed

lemma crlf_plain: "NL \<notin> set bs \<Longrightarrow> crlf bs = bs"
  by (induction bs rule: crlf.induct) auto

lemma no_newline: "CHR 0x0A \<notin> set cs \<Longrightarrow> NL \<notin> set (bytes_of cs)"
proof
  assume "CHR 0x0A \<notin> set cs" "NL \<in> set (bytes_of cs)"
  then obtain c where c: "c \<in> set cs" "unat (word_of_nat (of_char c) :: u8) = 10" by (auto simp: bytes_of_def NL_def)
  then have "of_char c = (of_char (CHR 0x0A) :: nat)" unfolding unat_of_char by simp
  with c(1) \<open>CHR 0x0A \<notin> set cs\<close> show False by (simp only: of_char_eq_iff)
qed

lemma dec_no_newline: "CHR 0x0A \<notin> set (dec v)"
proof (induction v rule: less_induct)
  case (less v)
  have "CHR 0x0A \<noteq> digit n" if "n < 10" for n
  proof
    assume "CHR 0x0A = digit n"
    from this [symmetric] have "(of_char (digit n) :: nat) = 10" by simp
    with that show False by (simp add: digit_def)
  qed
  from this [of "v mod 10"] this [of v] less [of "v div 10"] show ?case by (subst dec_step) simp
qed

lemma crlf_text:
  "crlf hello = hello" "crlf (bytes_of (dec v)) = bytes_of (dec v)" "crlf (bytes_of (exit_message v c)) = bytes_of (exit_message v c)"
  by (intro crlf_plain no_newline; simp add: dec_no_newline exit_message_def)+

section \<open>Properties\<close>

text \<open>
  C17. The greeter runs to its end.  From its first instruction, with its image loaded and its stack mapped, on every kernel
  that serves its four system calls as documented, it halts, for every pid, after printing its greeting three
  times and its pid in decimal, digit by digit from the stack, and exits with code 0.
\<close>

theorem greeter_correct:
  assumes "serves K out n" and "n < 2 ^ 64" and "loaded A user_prog_greeter (umem w)" and "stack_page (umem w)"
    and "upc w = 0" and "uregs w Sp = word_of_nat USER_STACK_TOP"
  shows "\<exists>m k. usteps m A K user_prog_greeter w = Halted k \<and>
     out k = out (ukern w) @ concat (replicate 3 hello) @ bytes_of (dec n) @ [CR, NL] @
       bytes_of (exit_message n 0) @ [CR, NL]"
proof -
  let ?G = "\<lambda>m. usteps m A K user_prog_greeter" and ?top = USER_STACK_TOP
  let ?w0 = "w\<lparr>uregs := (uregs w)(S0 := 3), upc := 1\<rparr>"
  have 0: "?G 1 w = Go ?w0" using assms(5) by (simp add: ustep_def greeter_code set_reg_def)
  obtain w1 where w1: "?G 9 ?w0 = Go w1" "upc w1 = 1" "uregs w1 S0 = 2" "uregs w1 Sp = word_of_nat ?top" "umem w1 = umem w"
    "out (ukern w1) = out (ukern w) @ crlf hello" by (rule greeter_round [OF assms(1), of A ?w0]) (use assms(3,6) in auto)
  obtain w2 where w2: "?G 9 w1 = Go w2" "upc w2 = 1" "uregs w2 S0 = 1" "uregs w2 Sp = word_of_nat ?top" "umem w2 = umem w"
    "out (ukern w2) = out (ukern w1) @ crlf hello" by (rule greeter_round [OF assms(1), of A w1]) (use assms(3) w1 in auto)
  obtain w3 where w3: "?G 9 w2 = Go w3" "upc w3 = 10" "uregs w3 Sp = word_of_nat ?top" "umem w3 = umem w"
    "out (ukern w3) = out (ukern w2) @ crlf hello" by (rule greeter_round [OF assms(1), of A w2]) (use assms(3) w2 in auto)
  have st: "stack_page (umem w3)" using assms(4) w3(4) by simp
  obtain w4 where w4: "?G 9 w3 = Go w4" "upc w4 = 19" "uregs w4 T0 = word_of_nat n" "uregs w4 T1 = word_of_nat (?top - 1)"
    "uregs w4 T2 = 10" "uregs w4 Sp = word_of_nat (?top - 32)" "umem w4 = (umem w)(?top - 1 \<mapsto> (PTE_R OR PTE_W OR PTE_U, NL))"
    "out (ukern w4) = out (ukern w3)" by (rule greeter_pid [OF assms(1,2) w3(2,3) st]) (use w3(4) in auto)
  have len: "length (dec n) \<le> 20" using dec_length [of n 19] assms(2) by simp
  let ?q = "?top - 1 - length (dec n)" and ?bs = "bytes_of (dec n)"
  have q: "?q + length ?bs = ?top - 1" "?top - PAGE_SIZE \<le> ?q" "?top - ?q = Suc (length ?bs)" "?q \<le> ?top"
    using len by (simp_all add: USER_STACK_TOP_def PAGE_SIZE_def)
  have "\<exists>m w'. ?G m w4 = Go w' \<and> upc w' = 25 \<and> uregs w' T1 = word_of_nat ?q \<and> uregs w' Sp = uregs w4 Sp \<and> uregs w' A2 = uregs w4 A2 \<and>
      ukern w' = ukern w4 \<and> umem w' = overwrite (umem w4) ?q ?bs"
    by (rule digit_loop [OF w4(2-5) assms(2)]) (use stack_page_update [OF assms(4)] w4(7) len in \<open>simp_all add: USER_STACK_TOP_def PAGE_SIZE_def\<close>)
  then obtain m5 w5 where w5: "?G m5 w4 = Go w5" "upc w5 = 25" "uregs w5 T1 = word_of_nat ?q" "uregs w5 Sp = word_of_nat (?top - 32)"
    "ukern w5 = ukern w4" "umem w5 = overwrite ((umem w)(?top - 1 \<mapsto> (PTE_R OR PTE_W OR PTE_U, NL))) ?q ?bs" using w4(6,7) by auto
  note P = peek_digits [OF assms(4) q(1,2), folded w5(6)]
  have "ascii (?bs @ [NL])" using dec_ascii [of n] by (simp add: ascii_def in_range_def NL_def)
  then have ok: "write_ok (umem w5) ?q (?top - ?q)" using P len unfolding write_ok_def q(3) by (simp add: WRITE_MAX_def utf8_ascii)
  obtain k where k: "?G 9 w5 = Halted k" "out k = out (ukern w5) @ crlf (peek (umem w5) ?q (?top - ?q)) @
       crlf (bytes_of (exit_message n 0) @ [NL])"
    by (rule greeter_end [OF assms(1) w5(2-4) q(4) ok]) (rule that)
  have "?G (1 + (9 + (9 + (9 + (9 + (m5 + 9)))))) w = Halted k"
    by (intro usteps_trans [OF 0] usteps_trans [OF w1(1)] usteps_trans [OF w2(1)] usteps_trans [OF w3(1)] usteps_trans [OF w4(1)]
        usteps_trans [OF w5(1)] k(1))
  then show ?thesis using k(2) w5(5) w4(8) w3(5) w2(6) w1(6) P(1) q(3)
    by (intro exI [of _ "1 + (9 + (9 + (9 + (9 + (m5 + 9)))))"] exI [of _ k]) (simp add: numeral_3_eq_3 crlf_text)
qed

text \<open>A kernel that serves the greeter: its state is the console.\<close>

definition console_os :: "usize \<Rightarrow> u8 list os" where
  "console_os n =
     \<lparr>os_call = (\<lambda>num a b c V out.
        if num = 1 then
          if write_ok V (unat a) (unat b) then Resume b V (out @ crlf (peek V (unat a) (unat b))) else Resume (-1) V out
        else if num = 2 then Gone (out @ crlf (bytes_of (exit_message n (unat a)) @ [NL]))
        else if num = 4 then Resume (word_of_nat n) V out
        else if num = 5 then Resume 0 V out
        else Resume (-1) V out),
      os_fault = (\<lambda>va V out. None)\<rparr>"

lemma console_os_serves: "serves (console_os n) (\<lambda>k. k) n"
  by (simp add: serves_def console_os_def)

text \<open>A view with the top page of the stack and a page of text that holds some bytes.\<close>

definition demo_view :: "u8 list \<Rightarrow> view" where
  "demo_view bs va =
     (if USER_STACK_TOP - PAGE_SIZE \<le> va \<and> va < USER_STACK_TOP then Some (PTE_R OR PTE_W OR PTE_U, 0)
      else if USER_TEXT \<le> va \<and> va < USER_TEXT + PAGE_SIZE
      then Some (PTE_R OR PTE_X OR PTE_U, if va - USER_TEXT < length bs then bs ! (va - USER_TEXT) else 0) else None)"

lemma demo_string:
  assumes "bs = xs @ ys @ zs" and "length bs \<le> PAGE_SIZE"
  shows "readable (demo_view bs) (USER_TEXT + length xs) (length ys) \<and> peek (demo_view bs) (USER_TEXT + length xs) (length ys) = ys"
proof
  have u: "USER_TEXT = 0x40000000" "USER_STACK_TOP = 0x41000000" "PAGE_SIZE = 4096" by (simp_all add: USER_TEXT_def USER_STACK_TOP_def PAGE_SIZE_def)
  have l: "length xs + length ys \<le> 4096" using assms by (simp add: u)
  have "USER_TEXT = 262144 * PAGE_SIZE" by (simp add: u)
  then have "(USER_TEXT + length xs) mod PAGE_SIZE = length xs mod PAGE_SIZE" by (metis mod_mult_self3)
  then have page: "USER_TEXT \<le> USER_TEXT + length xs - (USER_TEXT + length xs) mod PAGE_SIZE"
    using mod_less_eq_dividend [of "length xs" PAGE_SIZE] by linarith
  then show "readable (demo_view bs) (USER_TEXT + length xs) (length ys)"
    using l unfolding readable_def by (auto simp: demo_view_def u pte_pow(8))
  have "snd (the (demo_view bs (USER_TEXT + length xs + k))) = ys ! k" if "k < length ys" for k
    using that l assms(1) by (simp add: demo_view_def u nth_append)
  then show "peek (demo_view bs) (USER_TEXT + length xs) (length ys) = ys" by (intro nth_equalityI) (simp_all add: peek_def)
qed

theorem greeter_correct_witness:
  "\<exists>m k. usteps m (\<lambda>l. if l = 2 then USER_TEXT else USER_TEXT + length hello) (console_os 42) user_prog_greeter
       \<lparr>uregs = (\<lambda>r. word_of_nat USER_STACK_TOP), upc = 0, umem = demo_view hello, ukern = []\<rparr> = Halted k \<and>
     k = concat (replicate 3 hello) @ bytes_of ''42'' @ [CR, NL] @ bytes_of (exit_message 42 0) @ [CR, NL]"
proof -
  let ?w = "\<lparr>uregs = (\<lambda>r. word_of_nat USER_STACK_TOP), upc = 0, umem = demo_view hello, ukern = []\<rparr>"
  let ?A = "\<lambda>l. if l = 2 then USER_TEXT else USER_TEXT + length hello"
  have s: "strings user_prog_greeter = [(2, hello, 3)]" by (simp add: user_prog_greeter_def)
  have "length hello \<le> PAGE_SIZE" by (simp add: PAGE_SIZE_def)
  then have L: "loaded ?A user_prog_greeter (demo_view hello)"
    using demo_string [of hello "[]" hello "[]"] unfolding loaded_def s by (simp del: length_bytes_of)
  have st: "stack_page (demo_view hello)" by (simp add: stack_page_def demo_view_def)
  have d: "dec 42 = ''42''" by code_simp
  show ?thesis using greeter_correct [OF console_os_serves, of 42 ?A ?w] L st by (simp add: d del: length_bytes_of)
qed

end
