(* ===== verification/Hostile.thy ===== *)
theory Hostile
  imports Greeter
begin

text \<open>
  The two hostile programs of \<open>src/src/user.rs\<close>: \<open>badsys\<close>, whose bad arguments the kernel must reject, and \<open>trespasser\<close>, which
  reads kernel memory and must die.
\<close>

lemma badsys_code: "instrs user_prog_badsys =
     [Ebreak, Li A0 0x4000000000, Li A1 8, Li A7 1, Ecall, Addi A0 A0 1, Bnez A0 (F 1),
      Li A0 (-8), Li A1 64, Li A7 1, Ecall, Addi A0 A0 1, Bnez A0 (F 1),
      Li A0 5, Li A7 5, Ecall,
      La A0 (F 6), Li_diff A1 (F 7) (F 6), Li A7 1, Ecall, Li A0 0, Li A7 2, Ecall,
      La A0 (F 8), Li_diff A1 (F 9) (F 8), Li A7 1, Ecall, Li A0 1, Li A7 2, Ecall]"
  by (simp add: user_prog_badsys_def text_nl_def)

text \<open>A range that does not end inside the user's half of the address space is refused, however it is written.\<close>

lemma write_refused:
  assumes "serves K out n" and "VA_MAX < unat a + unat b"
  obtains k1 where "os_call K 1 a b c V k = Resume (-1) V k1" "out k1 = out k"
proof -
  have no: "\<not> write_ok V (unat a) (unat b)" using assms(2) by (simp add: write_ok_def readable_def)
  obtain k1 where "os_call K 1 a b c V k = Resume (if write_ok V (unat a) (unat b) then b else -1) V k1"
    "out k1 = out k @ (if write_ok V (unat a) (unat b) then crlf (peek V (unat a) (unat b)) else [])"
    by (rule serves_call [OF assms(1)]) (rule that)
  with no show thesis by (intro that [of k1]) simp_all
qed

abbreviation survived :: "u8 list" where
  "survived \<equiv> bytes_of ''user: badsys survived; kernel rejected hostile args'' @ [NL]"

abbreviation failed :: "u8 list" where
  "failed \<equiv> bytes_of ''user: badsys FAILED -- kernel did not reject an arg'' @ [NL]"

section \<open>Properties\<close>



lemma trespasser_code: "instrs user_prog_trespasser =
     [La A0 (F 4), Li_diff A1 (F 5) (F 4), Li A7 1, Ecall, Li T0 0x80200000, Ld T1 0 T0, Li A0 1, Li A7 2, Ecall]"
  by (simp add: user_prog_trespasser_def text_nl_def)

lemma load_double_fault: "uload V va = None \<Longrightarrow> load_double V va = None"
  by (simp add: load_double_def upt_conv_Cons)



end
