(* ===== verification/Heap_Props.thy ===== *)
theory Heap_Props
  imports Heap Kalloc
begin

text \<open>
  The contract of the kernel heap, over the operations of \<open>Heap\<close>: seeding, allocation,
  deallocation, their round trip, and that nothing is lost to fragmentation once everything is
  freed.  The locale \<open>tile_allocator\<close> is the interface a client of the heap relies on.
\<close>

section \<open>The interface of the heap\<close>

text \<open>
  A state represents a tiling.  \<open>take\<close> and \<open>give\<close> are allocation and deallocation on tilings; the
  operations on states follow them and do not touch the bytes of live allocations.
\<close>

locale tile_allocator =
  fixes rel :: "tile list \<Rightarrow> 's \<Rightarrow> bool"
    and bytes :: "'s \<Rightarrow> memory"
    and allocate :: "'l \<Rightarrow> 's \<Rightarrow> (usize \<times> 's) result option"
    and release :: "usize \<Rightarrow> 's \<Rightarrow> 's result option"
    and take :: "'l \<Rightarrow> tile list \<Rightarrow> (usize \<times> tile list) option"
    and give :: "usize \<Rightarrow> tile list \<Rightarrow> tile list"
    and valid :: "'l \<Rightarrow> bool"
  assumes allocate_None: "rel ts s \<Longrightarrow> valid l \<Longrightarrow> take l ts = None \<Longrightarrow> allocate l s = Some (Ok (0, s))"
    and allocate_Some: "rel ts s \<Longrightarrow> valid l \<Longrightarrow> take l ts = Some (p, ts') \<Longrightarrow>
      \<exists>s'. allocate l s = Some (Ok (p, s')) \<and> rel ts' s' \<and> (\<forall>x\<in>payload ts. bytes s' x = bytes s x)"
    and release_Used: "rel ts s \<Longrightarrow> (a, n, Used p) \<in> set ts \<Longrightarrow>
      \<exists>s'. release p s = Some (Ok s') \<and> rel (give p ts) s' \<and>
           (\<forall>x\<in>payload (filter (\<lambda>t. t \<noteq> (a, n, Used p)) ts). bytes s' x = bytes s x)"
    and take_Used: "rel ts s \<Longrightarrow> valid l \<Longrightarrow> take l ts = Some (p, ts') \<Longrightarrow> \<exists>a n. (a, n, Used p) \<in> set ts'"
    and give_take: "rel ts s \<Longrightarrow> valid l \<Longrightarrow> take l ts = Some (p, ts') \<Longrightarrow> give p ts' = ts"
begin

lemma allocate_returns:
  assumes "rel ts s" and "valid l"
  shows "\<exists>p s'. allocate l s = Some (Ok (p, s'))"
proof (cases "take l ts")
  case None
  with allocate_None assms show ?thesis by blast
next
  case (Some r)
  with allocate_Some [OF assms, of "fst r" "snd r"] show ?thesis by auto
qed

lemma allocate_release:
  assumes "rel ts s" and "valid l" and "take l ts = Some (p, ts')"
  shows "\<exists>s1 s2. allocate l s = Some (Ok (p, s1)) \<and> release p s1 = Some (Ok s2) \<and> rel ts s2"
proof -
  from allocate_Some [OF assms] obtain s1 where s1: "allocate l s = Some (Ok (p, s1))" "rel ts' s1" by blast
  from take_Used [OF assms] obtain a n where "(a, n, Used p) \<in> set ts'" by blast
  from release_Used [OF s1(2) this] give_take [OF assms] s1(1) show ?thesis by auto
qed

end

section \<open>The heap implements the interface\<close>

definition heap_take :: "alloc_layout \<Rightarrow> tile list \<Rightarrow> (usize \<times> tile list) option" where
  "heap_take lay ts = alloc_tiles (heap_need lay) (max (layout_align lay) 16) ts"

text \<open>What a successful allocation does to a tiling.\<close>

lemma heap_take_SomeD:
  assumes R: "heap_rel lo ts hi h" and v: "layout_valid lay" and t: "heap_take lay ts = Some (p, ts')"
  obtains vs st m ws where "ts' = vs @ (st, m, Used p) # ws" and "dealloc_tiles p ts' = ts"
    and "layout_align lay dvd p" and "p + layout_size lay \<le> st + m" and "st + 16 \<le> p"
    and "{p..<p + layout_size lay} \<inter> payload ts = {}" and "lo < p"
proof -
  let ?al = "max (layout_align lay) 16" and ?need = "heap_need lay"
  from t obtain xs a n ys where s: "ts = xs @ (a, n, Free) # ys" "p = round_up (a + 16) ?al" "p + ?need \<le> a + n"
    "ts' = xs @ split_tile a n p (p + ?need) @ ys"
    unfolding heap_take_def by (blast dest: alloc_tiles_SomeD)
  have R': "tiling lo ts hi" "16 dvd lo" "coalesced ts" using R by (simp_all add: heap_rel_def)
  note req = layout_request(1) [OF v]
  from req have al: "0 < ?al" "16 dvd ?need" "16 \<le> ?need" by (auto simp: request_ok_def)
  from tiling_mem [OF R'(1) _ R'(2), of a n Free] s(1) have a: "lo \<le> a" "16 dvd a" "16 dvd n" by auto
  have p: "a + 16 \<le> p" "?al dvd p" using round_up_bounds [OF al(1), of "a + 16"] s(2) by auto
  have p16: "16 dvd p" using req p(2) pow2_dvd_16 [of ?al _ p] by (auto simp: request_ok_def)
  from merge_split [OF R'(3) [unfolded s(1)] p(1) _ s(3)] al(3)
  obtain vs ws st m where sp: "ts' = vs @ (st, m, Used p) # ws" "st + 16 \<le> p" "p + ?need \<le> st + m"
    "merge_back vs (merge_front (st, m, Free) ws) = ts"
    unfolding s(1,4) by auto
  have sz: "layout_size lay \<le> ?need" using round_up_bounds(1) [of 16 "max (layout_size lay) 1"] by (simp add: heap_need_def)
  have al2: "layout_align lay dvd p"
  proof -
    obtain k where "layout_align lay = 2 ^ k" using v by (auto simp: layout_valid_def)
    then have "layout_align lay dvd ?al"
    proof (cases "k \<le> 4")
      case True
      then have "(2::nat) ^ k dvd 2 ^ 4" by (rule le_imp_power_dvd)
      with \<open>layout_align lay = 2 ^ k\<close> show ?thesis by (simp add: max_def)
    next
      case False
      then have "(2::nat) ^ 4 \<le> 2 ^ k" by (intro power_increasing) simp_all
      with \<open>layout_align lay = 2 ^ k\<close> show ?thesis by (simp add: max_def)
    qed
    then show ?thesis using p(2) by (rule dvd_trans)
  qed
  have "tiling lo ts' hi"
  proof -
    from R'(1) s(1) obtain mid where "tiling lo xs mid" "mid = a" "tiling (a + n) ys hi"
      by (auto simp: tiling_append)
    with tiling_split [OF a(2,3) p16 p(1) _ _ s(3)] p16 al show ?thesis
      unfolding s(4) tiling_append by (auto simp: dvd_add)
  qed
  then have "dealloc_tiles p ts' = ts"
  proof (rule dealloc_tiles_split [OF _ R'(2)])
    show m: "(st, m, Used p) \<in> set ts'" by (simp add: sp(1))
    fix xs' ys' assume d: "ts' = xs' @ (st, m, Used p) # ys'" "dealloc_tiles p ts' = merge_back xs' (merge_front (st, m, Free) ys')"
    have "xs' = vs \<and> ys' = ws"
    proof -
      have "(st, m, Used p) \<notin> set vs" "(st, m, Used p) \<notin> set ws"
        using tiling_distinct [OF \<open>tiling lo ts' hi\<close>] by (auto simp: sp(1))
      then show ?thesis using append_Cons_eq_iff [of _ vs ws xs' ys'] d(1) sp(1) by auto
    qed
    with d(2) sp(4) show ?thesis by simp
  qed
  moreover have "{p..<p + layout_size lay} \<inter> payload ts = {}"
  proof -
    have "x < a \<or> a + n \<le> x" if x: "x \<in> payload ts" for x
    proof -
      from x obtain b j q where q: "(b, j, Used q) \<in> set ts" "q \<le> x" "x < b + j" by (auto simp: payload_def)
      from tiling_disjoint [OF R'(1) q(1), of a n Free] s(1) tiling_mem [OF R'(1) q(1) R'(2)] q show ?thesis by auto
    qed
    with p(1) s(3) sz show ?thesis by fastforce
  qed
  ultimately show thesis using sp al2 sz a(1) p(1) by (intro that) auto
qed

interpretation kheap: tile_allocator "\<lambda>ts. heap_rel lo ts hi" hmem alloc_inner dealloc_inner heap_take dealloc_tiles layout_valid
  for lo hi
proof unfold_locales
  fix ts h lay assume R: "heap_rel lo ts hi h" and v: "layout_valid lay"
  note r = alloc_inner_refines [OF R v, folded heap_take_def]
  show "heap_take lay ts = None \<Longrightarrow> alloc_inner lay h = Some (Ok (0, h))" using r by simp
  fix p ts' assume t: "heap_take lay ts = Some (p, ts')"
  then show "\<exists>h'. alloc_inner lay h = Some (Ok (p, h')) \<and> heap_rel lo ts' hi h' \<and> (\<forall>x\<in>payload ts. hmem h' x = hmem h x)"
    using r by simp
  show "\<exists>a n. (a, n, Used p) \<in> set ts'" by (rule heap_take_SomeD [OF R v t]) auto
  show "dealloc_tiles p ts' = ts" by (rule heap_take_SomeD [OF R v t])
qed (use dealloc_inner_refines in blast)

section \<open>Witness state\<close>

definition demo_heap :: heap where
  "demo_heap = \<lparr>hmem = store64 (store64 (\<lambda>_. 0) 0x1000 0x100) 0x1008 0, heap_head = 0x1000, heap_free_bytes = 0x100\<rparr>"

definition demo_lay :: alloc_layout where
  "demo_lay = \<lparr>layout_size = 24, layout_align = 8\<rparr>"

lemma demo_heap_rel: "heap_rel 0x1000 [(0x1000, 0x100, Free)] 0x1100 demo_heap"
proof -
  have "cells (hmem demo_heap) 0x1000 = (0x100, 0)"
    using cells_store_snd [of "0x1000" 0] cells_store_fst [of "0x1000" "0x100"]
    by (simp add: demo_heap_def usize_max_eq)
  then show ?thesis by (simp add: heap_rel_def coalesced_def) (simp add: demo_heap_def)
qed

lemma demo_lay_valid: "layout_valid demo_lay"
proof -
  have "layout_align demo_lay = 2 ^ 3" by (simp add: demo_lay_def)
  then have "\<exists>k<64. layout_align demo_lay = 2 ^ k" by (intro exI [of _ 3]) simp
  then show ?thesis by (simp add: layout_valid_def demo_lay_def div_ceil_def)
qed

lemma demo_take: "heap_take demo_lay [(0x1000, 0x100, Free)] = Some (0x1010, [(0x1000, 0x30, Used 0x1010), (0x1030, 0xd0, Free)])"
  by (simp add: heap_take_def heap_need_def demo_lay_def round_up_def split_tile_def)

lemma heap_init_run:
  assumes "layout_ok L" and "heap_head h = 0"
  shows "\<exists>h'. heap_init L h = Ok h' \<and> heap_rel (heap_start L) [(heap_start L, HEAP_SIZE, Free)] (alloc_start L) h' \<and>
     free_bytes h' = HEAP_SIZE"
proof -
  have al: "page_aligned (heap_start L)" and b: "0 < heap_start L" "alloc_start L \<le> 2 ^ 32"
    using assms(1) by (auto simp: layout_ok_def heap_start_def memlayout_consts)
  have st: "16 dvd heap_start L"
  proof -
    have "16 dvd PAGE_SIZE" by (simp add: PAGE_SIZE_def)
    then show ?thesis using al unfolding page_aligned_dvd by (rule dvd_trans)
  qed
  have hs: "16 dvd HEAP_SIZE" "32 \<le> HEAP_SIZE" "HEAP_SIZE \<le> usize_max" "0 \<le> usize_max"
    by (simp_all add: HEAP_SIZE_def usize_max_eq)
  let ?h = "h\<lparr>hmem := store64 (store64 (hmem h) (heap_start L) HEAP_SIZE) (heap_start L + 8) 0,
              heap_head := heap_start L, heap_free_bytes := HEAP_SIZE\<rparr>"
  have c: "cells (hmem ?h) (heap_start L) = (HEAP_SIZE, 0)"
    using st hs by (simp add: cells_store_fst cells_store_snd)
  have "heap_init L h = Ok ?h"
    using st hs(1) assms(2) by (simp add: heap_init_def Let_def is_multiple_of_iff HALIGN_def mod_eq_0_iff_dvd)
  moreover have "heap_rel (heap_start L) [(heap_start L, HEAP_SIZE, Free)] (alloc_start L) ?h"
    using c b st hs by (simp add: heap_rel_def coalesced_def alloc_start_def)
  ultimately show ?thesis by (simp add: free_bytes_def)
qed

text \<open>A client that writes only to its own bytes does not disturb the heap.\<close>

lemma heap_rel_client:
  assumes "heap_rel lo ts hi h" and m: "\<And>x. x \<notin> payload ts \<Longrightarrow> m x = hmem h x"
  shows "heap_rel lo ts hi (h\<lparr>hmem := m\<rparr>)"
proof -
  have T: "tiling lo ts hi" "16 dvd lo" using assms(1) by (simp_all add: heap_rel_def)
  have k: "cells m (key (a, n, k)) = cells (hmem h) (key (a, n, k))" if t: "(a, n, k) \<in> set ts" for a n k
  proof -
    have ok: "16 dvd a" "tile_ok (a, n, k)" using tiling_mem [OF T(1) t T(2)] by auto
    note kb = key_bounds [OF ok(2,1)]
    have "key (a, n, k) + i \<notin> payload ts" if "i < 16" for i
    proof
      assume "key (a, n, k) + i \<in> payload ts"
      then obtain b j p where u: "(b, j, Used p) \<in> set ts" "p \<le> key (a, n, k) + i" "key (a, n, k) + i < b + j"
        by (auto simp: payload_def)
      have "tile_ok (b, j, Used p)" using tiling_mem [OF T(1) u(1) T(2)] by simp
      with tiling_disjoint [OF T(1) t u(1)] u kb that show False by auto
    qed
    then have "load64 m (key (a, n, k)) = load64 (hmem h) (key (a, n, k))"
      "load64 m (key (a, n, k) + 8) = load64 (hmem h) (key (a, n, k) + 8)"
      by (auto intro!: load64_cong m simp: add.assoc)
    then show ?thesis by (simp add: cells_def)
  qed
  from k [of _ _ Free] have "chained (cells m) (heap_head h) (frees ts) 0 \<longleftrightarrow> chained (cells (hmem h)) (heap_head h) (frees ts) 0"
    by (intro chained_cong) (auto simp: mem_frees)
  moreover from k have "list_all (header_ok (cells m)) ts \<longleftrightarrow> list_all (header_ok (cells (hmem h))) ts"
    by (auto simp: list_all_iff header_ok_cong [of "cells m" _ "cells (hmem h)"])
  ultimately show ?thesis using assms(1) by (simp add: heap_rel_def)
qed

section \<open>Properties\<close>

text \<open>
  Seeding the heap.  On a valid layout \<open>heap::init\<close> succeeds on a heap that was never seeded, and
  the heap is then one free block covering the region between the kernel image and the pages of
  the page allocator.
\<close>

theorem heap_init_correct:
  assumes "layout_ok L" and "heap_head h = 0"
  shows "\<exists>h'. heap_init L h = Ok h' \<and> heap_rel (heap_start L) [(heap_start L, HEAP_SIZE, Free)] (alloc_start L) h' \<and>
     free_bytes h' = HEAP_SIZE"
  by (rule heap_init_run [OF assms])

theorem heap_init_correct_witness:
  "\<exists>h'. heap_init demo_layout (heap_new (\<lambda>_. 0)) = Ok h' \<and> free_bytes h' = HEAP_SIZE"
  using heap_init_correct [OF demo_layout_ok, of "heap_new (\<lambda>_. 0)"] by (auto simp: heap_new_def)

text \<open>
  C12. Allocation.  For every valid layout \<open>alloc_inner\<close> returns.  It returns null, with the heap
  unchanged, exactly when no free block can hold header and aligned payload.  Otherwise the pointer
  is not null and has the requested alignment, the requested bytes lie in a used tile of their own
  and overlap no live allocation, and the bytes of live allocations are unchanged.
\<close>

theorem alloc_inner_correct:
  assumes "heap_rel lo ts hi h" and "layout_valid lay"
  shows "\<exists>p h'. alloc_inner lay h = Some (Ok (p, h')) \<and>
     (p = 0 \<longleftrightarrow> (\<forall>(a, n)\<in>set (frees ts). a + n < round_up (a + 16) (max (layout_align lay) 16) + heap_need lay)) \<and>
     (p = 0 \<longrightarrow> h' = h) \<and>
     (p \<noteq> 0 \<longrightarrow> layout_align lay dvd p \<and>
        (\<exists>ts' a n. heap_rel lo ts' hi h' \<and> (a, n, Used p) \<in> set ts' \<and> p + layout_size lay \<le> a + n) \<and>
        {p..<p + layout_size lay} \<inter> payload ts = {} \<and> (\<forall>x\<in>payload ts. hmem h' x = hmem h x))"
proof (cases "heap_take lay ts")
  case None
  then show ?thesis using kheap.allocate_None [OF assms] by (simp add: heap_take_def alloc_tiles_None)
next
  case (Some r)
  then obtain p ts' where t: "heap_take lay ts = Some (p, ts')" by (cases r) auto
  from kheap.allocate_Some [OF assms t] obtain h' where h': "alloc_inner lay h = Some (Ok (p, h'))"
    "heap_rel lo ts' hi h'" "\<forall>x\<in>payload ts. hmem h' x = hmem h x" by blast
  have "\<not> (\<forall>(a, n)\<in>set (frees ts). a + n < round_up (a + 16) (max (layout_align lay) 16) + heap_need lay)"
    using t unfolding heap_take_def alloc_tiles_None [symmetric] by simp
  moreover obtain vs st m ws where w: "ts' = vs @ (st, m, Used p) # ws" "layout_align lay dvd p"
    "p + layout_size lay \<le> st + m" "{p..<p + layout_size lay} \<inter> payload ts = {}" "lo < p"
    by (rule heap_take_SomeD [OF assms t]) (rule that)
  moreover have "(st, m, Used p) \<in> set ts'" "p \<noteq> 0" using w(1,5) by simp_all
  ultimately show ?thesis using h' by (intro exI [of _ p] exI [of _ h'] conjI) blast+
qed

theorem alloc_inner_correct_witness:
  "\<exists>p h'. alloc_inner demo_lay demo_heap = Some (Ok (p, h')) \<and> p \<noteq> 0 \<and> 8 dvd p"
proof -
  from alloc_inner_correct [OF demo_heap_rel demo_lay_valid] obtain p h' where
    a: "alloc_inner demo_lay demo_heap = Some (Ok (p, h'))"
    and z: "p = 0 \<longleftrightarrow> (\<forall>(a, n)\<in>set (frees [(0x1000, 0x100, Free)]).
        a + n < round_up (a + 16) (max (layout_align demo_lay) 16) + heap_need demo_lay)"
    and "p \<noteq> 0 \<longrightarrow> layout_align demo_lay dvd p" by blast
  moreover have "p \<noteq> 0" unfolding z by (simp add: demo_lay_def round_up_def heap_need_def)
  ultimately show ?thesis by (auto simp: demo_lay_def)
qed

text \<open>
  C13. Deallocation.  Giving back a live pointer succeeds: its tile becomes free, merged with the free
  neighbours, the counter of free bytes is again the sum of the free blocks, and the bytes of the
  other live allocations are unchanged.
\<close>

theorem dealloc_inner_correct:
  assumes "heap_rel lo ts hi h" and "(a, n, Used p) \<in> set ts"
  shows "\<exists>h'. dealloc_inner p h = Some (Ok h') \<and> heap_rel lo (dealloc_tiles p ts) hi h' \<and>
     (\<forall>x\<in>payload (filter (\<lambda>t. t \<noteq> (a, n, Used p)) ts). hmem h' x = hmem h x)"
  by (rule kheap.release_Used [OF assms])

theorem dealloc_inner_correct_witness:
  "\<exists>h1 h2. alloc_inner demo_lay demo_heap = Some (Ok (0x1010, h1)) \<and> dealloc_inner 0x1010 h1 = Some (Ok h2) \<and>
     heap_rel 0x1000 [(0x1000, 0x100, Free)] 0x1100 h2"
proof -
  from kheap.allocate_Some [OF demo_heap_rel demo_lay_valid demo_take] obtain h1 where
    h1: "alloc_inner demo_lay demo_heap = Some (Ok (0x1010, h1))"
      "heap_rel 0x1000 [(0x1000, 0x30, Used 0x1010), (0x1030, 0xd0, Free)] 0x1100 h1" by blast
  from dealloc_inner_correct [OF h1(2), of "0x1000" "0x30" "0x1010"] obtain h2 where "dealloc_inner 0x1010 h1 = Some (Ok h2)"
    "heap_rel 0x1000 (dealloc_tiles 0x1010 [(0x1000, 0x30, Used 0x1010), (0x1030, 0xd0, Free)]) 0x1100 h2" by auto
  with h1(1) show ?thesis by (simp add: dealloc_tiles_def)
qed

text \<open>
  C34. Allocation and deallocation are inverse.  Freeing what was just allocated gives the heap's
  tiling, hence its free list, block by block, and its count of free bytes, back.
\<close>

theorem alloc_dealloc_roundtrip:
  assumes "heap_rel lo ts hi h" and "layout_valid lay" and "alloc_inner lay h = Some (Ok (p, h1))" and "p \<noteq> 0"
  shows "\<exists>h2. dealloc_inner p h1 = Some (Ok h2) \<and> heap_rel lo ts hi h2 \<and> free_bytes h2 = free_bytes h"
proof (cases "heap_take lay ts")
  case None
  with kheap.allocate_None [OF assms(1,2)] assms(3,4) show ?thesis by simp
next
  case (Some r)
  then obtain q ts' where t: "heap_take lay ts = Some (q, ts')" by (cases r) auto
  from kheap.allocate_release [OF assms(1,2) t] assms(3) obtain h2 where
    "dealloc_inner p h1 = Some (Ok h2)" "heap_rel lo ts hi h2" by auto
  with assms(1) show ?thesis by (auto simp: heap_rel_def free_bytes_def)
qed

theorem alloc_dealloc_roundtrip_witness:
  "\<exists>h1 h2. alloc_inner demo_lay demo_heap = Some (Ok (0x1010, h1)) \<and> dealloc_inner 0x1010 h1 = Some (Ok h2) \<and>
     free_bytes h2 = 0x100"
proof -
  from kheap.allocate_Some [OF demo_heap_rel demo_lay_valid demo_take] obtain h1 where
    h1: "alloc_inner demo_lay demo_heap = Some (Ok (0x1010, h1))" by blast
  from alloc_dealloc_roundtrip [OF demo_heap_rel demo_lay_valid h1] h1 show ?thesis
    by (auto simp: free_bytes_def demo_heap_def)
qed

text \<open>
  No fragmentation remains.  A heap with all its bytes free is one single block covering the
  whole region, however it was reached.
\<close>

theorem heap_all_free:
  assumes "heap_rel lo ts hi h" and "lo < hi" and "free_bytes h = hi - lo"
  shows "ts = [(lo, hi - lo, Free)] \<and> heap_head h = lo"
proof -
  have R: "tiling lo ts hi" "coalesced ts" "heap_free_bytes h = sum_list (map snd (frees ts))"
    "chained (cells (hmem h)) (heap_head h) (frees ts) 0"
    using assms(1) by (simp_all add: heap_rel_def)
  have no: "(a, n, Used p) \<notin> set ts" for a n p
  proof
    assume m: "(a, n, Used p) \<in> set ts"
    from tiling_sum(2) [OF R(1) m] R(3) assms(2,3) have "n = 0" by (simp add: free_bytes_def)
    moreover have "16 dvd lo" using assms(1) by (simp add: heap_rel_def)
    ultimately show False using tiling_mem [OF R(1) m] by auto
  qed
  obtain a n k ts1 where ts: "ts = (a, n, k) # ts1" using R(1) assms(2) by (cases ts) auto
  have "ts1 = []"
  proof (rule ccontr)
    assume "ts1 \<noteq> []"
    then obtain b j l ts2 where "ts1 = (b, j, l) # ts2" by (cases ts1) auto
    with R(2) no [of a n] no [of b j] ts show False by (cases k; cases l) (auto simp: coalesced_def)
  qed
  then show ?thesis using R no [of a n] by (cases k) (auto simp: ts)
qed

theorem heap_all_free_witness:
  "heap_rel 0x1000 [(0x1000, 0x100, Free)] 0x1100 demo_heap \<and> heap_head demo_heap = 0x1000"
  using heap_all_free [OF demo_heap_rel] demo_heap_rel by (simp add: free_bytes_def demo_heap_def)

end
