(* ===== verification/Trap.thy ===== *)
theory Trap
  imports Syscall
begin

text \<open>
  \<open>src/src/trap.rs\<close>: the dispatcher that every trap reaches, with the saved frame.  The result is an
  option because the UART's interrupt handler loops until its receiver is empty.
\<close>

definition trap_init :: "usize \<Rightarrow> csrs \<Rightarrow> csrs" where
  "trap_init kernelvec c = c\<lparr>sscratch := 0, stvec := kernelvec\<rparr>"

definition IRQ_S_TIMER :: usize where "IRQ_S_TIMER = 5"
definition IRQ_S_EXTERNAL :: usize where "IRQ_S_EXTERNAL = 9"
definition EXC_BREAKPOINT :: usize where "EXC_BREAKPOINT = 3"
definition EXC_ECALL_USER :: usize where "EXC_ECALL_USER = 8"
definition EXC_LOAD_PAGE_FAULT :: usize where "EXC_LOAD_PAGE_FAULT = 13"
definition EXC_STORE_PAGE_FAULT :: usize where "EXC_STORE_PAGE_FAULT = 15"

definition exception_name :: "usize \<Rightarrow> string" where
  "exception_name code =
     (if code = 0 then ''instruction address misaligned''
      else if code = 1 then ''instruction access fault''
      else if code = 2 then ''illegal instruction''
      else if code = 3 then ''breakpoint''
      else if code = 4 then ''load address misaligned''
      else if code = 5 then ''load access fault''
      else if code = 6 then ''store address misaligned''
      else if code = 7 then ''store access fault''
      else if code = 8 then ''environment call from U-mode''
      else if code = 9 then ''environment call from S-mode''
      else if code = 12 then ''instruction page fault''
      else if code = 13 then ''load page fault''
      else if code = 15 then ''store/AMO page fault''
      else ''unknown exception'')"

text \<open>The first half-word of an instruction, read through the hart's translation.\<close>

definition instruction_len :: "usize \<Rightarrow> csrs \<Rightarrow> phys \<Rightarrow> usize result" where
  "instruction_len addr c m =
     bindR (mmu_load c m addr) (\<lambda>lo.
     bindR (mmu_load c m (addr + 1)) (\<lambda>hi.
     let low_half = unat lo + 256 * unat hi in
     Ok (if low_half AND 3 = 3 then 4 else 2)))"

text \<open>How a trap is left.  \<open>Resched frame\<close>: an interrupted context that the timer switched out.\<close>

datatype trapout = Tret trap_frame | Tblocked kont trap_frame | Tlaunch user_launch | Resched kont trap_frame

definition of_sysout :: "sysout \<Rightarrow> trapout" where
  "of_sysout r = (case r of Sysret f \<Rightarrow> Tret f | Blocked k f \<Rightarrow> Tblocked k f | Launched u \<Rightarrow> Tlaunch u)"

definition handle_timer :: "'d machine \<Rightarrow> trap_frame \<Rightarrow> ('d, 'z) kernel_scheme \<Rightarrow>
    (trapout \<times> ('d, 'z) kernel_scheme) result" where
  "handle_timer E frame s =
     bindR (on_tick E s) (\<lambda>s.
     bindR (wakeup TICK_CHAN s) (\<lambda>s.
     bindR (on_tick_preempt s) (\<lambda>(r, s).
     Ok (case r of Return _ \<Rightarrow> Tret frame | Switch k \<Rightarrow> Resched k frame, s))))"

definition handle_external :: "'d machine \<Rightarrow> ('d, 'z) kernel_scheme \<Rightarrow>
    ('d, 'z) kernel_scheme result option" where
  "handle_external E s =
     (let (irq, d) = plic_claim E (dev s); s = s\<lparr>dev := d\<rparr> in
      case irq of
        None \<Rightarrow> Some (Ok s)
      | Some irq \<Rightarrow>
          map_option (\<lambda>r. bindR r (\<lambda>s. Ok (s\<lparr>dev := plic_complete E irq (dev s)\<rparr>)))
            (if irq = UART0_IRQ
             then map_option (\<lambda>r. bindR r (\<lambda>(d, s). Ok (s\<lparr>dev := d\<rparr>))) (uart_handle_interrupt E on_input (dev s) s)
             else Some (Ok (kprintln (''trap: unexpected external irq '' @ dec (unat irq)) s))))"

definition handle_breakpoint :: "bool \<Rightarrow> trap_frame \<Rightarrow> ('d, 'z) kernel_scheme \<Rightarrow>
    (trap_frame \<times> ('d, 'z) kernel_scheme) result" where
  "handle_breakpoint from_user frame s =
     (let s = kprintln (''trap: breakpoint at '' @ hex (tf_sepc frame) @
                        (if from_user then '' (U-mode)'' else '' (S-mode)'')) s in
      bindR (if from_user
             then with_sum (\<lambda>c. bindR (instruction_len (tf_sepc frame) c (ram s)) (\<lambda>n. Ok (n, c))) (csr s)
             else bindR (instruction_len (tf_sepc frame) (csr s) (ram s)) (\<lambda>n. Ok (n, csr s))) (\<lambda>(n, c).
      bindR (uadd (tf_sepc frame) n) (\<lambda>pc.
      Ok (frame\<lparr>tf_sepc := pc\<rparr>, s\<lparr>csr := c\<rparr>))))"

definition kill_current :: "usize \<Rightarrow> trap_frame \<Rightarrow> ('d, 'z) kernel_scheme \<Rightarrow>
    (trapout \<times> ('d, 'z) kernel_scheme) result" where
  "kill_current code frame s =
     bindR (current_pid s) (\<lambda>(i, s).
     bindR (exit (kprintln (''trap: killing pid '' @ dec i @ '': '' @ exception_name code @ '' at sepc='' @
                    hex (tf_sepc frame) @ '' stval='' @ hex (stval (csr s))) s)) (\<lambda>(r, s).
     Ok (case r of Return _ \<Rightarrow> Tret frame | Switch k \<Rightarrow> Tblocked k frame, s)))"

definition handle_exception :: "layout \<Rightarrow> images \<Rightarrow> usize \<Rightarrow> usize \<Rightarrow> trap_frame \<Rightarrow> ('d, 'z) kernel_scheme \<Rightarrow>
    (trapout \<times> ('d, 'z) kernel_scheme) result" where
  "handle_exception L P stk code frame s =
     (let from_user = (tf_sstatus frame AND SSTATUS_SPP = 0) in
      if code = EXC_BREAKPOINT then
        bindR (handle_breakpoint from_user frame s) (\<lambda>(frame, s). Ok (Tret frame, s))
      else if code = EXC_ECALL_USER then
        bindR (dispatch L P stk frame s) (\<lambda>(r, s). Ok (of_sysout r, s))
      else
        bindR (if (code = EXC_LOAD_PAGE_FAULT \<or> code = EXC_STORE_PAGE_FAULT) \<and> from_user
               then service_page_fault (stval (csr s)) s else Ok (False, s)) (\<lambda>(mapped, s).
        if mapped then Ok (Tret frame, s)
        else if from_user then kill_current code frame s
        else Panic (''unhandled exception: '' @ exception_name code @ '' (scause='' @ hex (scause (csr s)) @
               '') sepc='' @ hex (tf_sepc frame) @ '' stval='' @ hex (stval (csr s)) @ '' from S-mode'')))"

definition kerneltrap :: "'d machine \<Rightarrow> layout \<Rightarrow> images \<Rightarrow> usize \<Rightarrow> trap_frame \<Rightarrow> ('d, 'z) kernel_scheme \<Rightarrow>
    (trapout \<times> ('d, 'z) kernel_scheme) result option" where
  "kerneltrap E L P stk frame s =
     (let cause = scause (csr s); code = cause AND unot SCAUSE_INTERRUPT in
      if cause AND SCAUSE_INTERRUPT \<noteq> 0 then
        (if code = IRQ_S_TIMER then Some (handle_timer E frame s)
         else if code = IRQ_S_EXTERNAL then
           map_option (\<lambda>r. bindR r (\<lambda>s. Ok (Tret frame, s))) (handle_external E s)
         else Some (Panic (''unexpected interrupt, scause='' @ hex cause)))
      else Some (handle_exception L P stk code frame s))"

end
