(* ===== verification/Sync.thy ===== *)
theory Sync
  imports Self_Ops
begin

text \<open>
  \<open>src/src/sync.rs\<close>: the counting semaphore and the bounded channel built on sleep and wakeup.
  A semaphore is its address, which is its wait channel, and its locked counter.  A blocking call is cut at the
  \<open>swtch\<close> inside \<open>sleep\<close>, as in the rest of the kernel: \<open>sem_wait\<close> is one turn of its loop, \<open>sem_wait_back\<close> what follows
  the wakeup.  Locks can hang and counters can panic, so an operation returns a \<open>result option\<close>.

  \<open>chstep\<close> interleaves the sections of \<open>send\<close> and \<open>recv\<close>, cut wherever interrupts are enabled, with every step of the
  kernel's own state machine: preemption, dispatch, wakeups by devices, other threads starting and exiting.
\<close>

section \<open>Operations\<close>

fun bindO :: "'a result option \<Rightarrow> ('a \<Rightarrow> 'b result option) \<Rightarrow> 'b result option" where
  "bindO None f = None"
| "bindO (Some (Panic e)) f = Some (Panic e)"
| "bindO (Some (Ok x)) f = f x"

record semaphore =
  sem_at :: usize
  sem_count :: "usize spinlock"

definition sem_new :: "usize \<Rightarrow> usize \<Rightarrow> semaphore" where
  "sem_new at initial = \<lparr>sem_at = at, sem_count = spinlock_new initial\<rparr>"

definition sem_chan :: "semaphore \<Rightarrow> usize" where
  "sem_chan m = sem_at m"

definition sem_wait :: "semaphore \<Rightarrow> 'a sched_scheme \<Rightarrow> ((unit, unit) outcome \<times> semaphore \<times> 'a sched_scheme) result option" where
  "sem_wait m s =
     (let s = push_off s in
      bindO (with_lock (\<lambda>count. if 0 < count then (True, count - 1) else (False, count)) (sem_count m) s) (\<lambda>(taken, l, s).
      let m = m\<lparr>sem_count := l\<rparr> in
      Some (if taken then bindR (pop_off s) (\<lambda>s. Ok (Return (), m, s))
            else bindR (sleep (sem_chan m) s) (\<lambda>s. Ok (Switch (), m, s)))))"

definition sem_wait_back :: "semaphore \<Rightarrow> bool \<Rightarrow> 'a sched_scheme \<Rightarrow>
    ((unit, unit) outcome \<times> semaphore \<times> 'a sched_scheme) result option" where
  "sem_wait_back m ie s = bindO (Some (pop_off (sched_back ie s))) (sem_wait m)"

text \<open>\<open>signal\<close> up to its \<open>pop_off\<close>, and the whole of it.\<close>

definition sem_raise :: "semaphore \<Rightarrow> 'a sched_scheme \<Rightarrow> (semaphore \<times> 'a sched_scheme) result option" where
  "sem_raise m s =
     (let s = push_off s in
      map_option (\<lambda>(l, s).
        bindR (uadd (lock_value l) 1) (\<lambda>count.
        bindR (guard_drop (l\<lparr>lock_value := count\<rparr>) s) (\<lambda>(l, s).
        bindR (pop_off s) (\<lambda>s. Ok (m\<lparr>sem_count := l\<rparr>, s))))) (lock (sem_count m) s))"

definition sem_signal :: "semaphore \<Rightarrow> 'a sched_scheme \<Rightarrow> (semaphore \<times> 'a sched_scheme) result option" where
  "sem_signal m s =
     bindO (sem_raise m s) (\<lambda>(m, s). Some (bindR (wakeup (sem_chan m) s) (\<lambda>s. Ok (m, s))))"

record 'v channel =
  buf :: "'v list spinlock"
  ch_empty :: semaphore
  ch_full :: semaphore

definition channel_new :: "usize \<Rightarrow> usize \<Rightarrow> usize \<Rightarrow> 'v channel" where
  "channel_new empty_at full_at capacity =
     \<lparr>buf = spinlock_new [], ch_empty = sem_new empty_at capacity, ch_full = sem_new full_at 0\<rparr>"

definition chan_push :: "'v \<Rightarrow> 'v channel \<Rightarrow> 'a sched_scheme \<Rightarrow> ('v channel \<times> 'a sched_scheme) result option" where
  "chan_push v c s = bindO (with_lock (\<lambda>q. ((), q @ [v])) (buf c) s) (\<lambda>(_, l, s). Some (Ok (c\<lparr>buf := l\<rparr>, s)))"

definition chan_pop :: "'v channel \<Rightarrow> 'a sched_scheme \<Rightarrow> ('v \<times> 'v channel \<times> 'a sched_scheme) result option" where
  "chan_pop c s =
     bindO (with_lock (\<lambda>q. case q of [] \<Rightarrow> (None, []) | v # q \<Rightarrow> (Some v, q)) (buf c) s) (\<lambda>(item, l, s).
     Some (bindR (expectR item ''channel invariant: full semaphore without an item'') (\<lambda>v. Ok (v, c\<lparr>buf := l\<rparr>, s))))"

text \<open>\<open>send\<close> and \<open>recv\<close>, up to the switch when they block; \<open>send_rest\<close> and \<open>recv_rest\<close> follow the wait.\<close>

definition send_rest :: "'v \<Rightarrow> 'v channel \<Rightarrow> 'a sched_scheme \<Rightarrow> ('v channel \<times> 'a sched_scheme) result option" where
  "send_rest v c s =
     bindO (chan_push v c s) (\<lambda>(c, s).
     bindO (sem_signal (ch_full c) s) (\<lambda>(m, s). Some (Ok (c\<lparr>ch_full := m\<rparr>, s))))"

definition send :: "'v \<Rightarrow> 'v channel \<Rightarrow> 'a sched_scheme \<Rightarrow> ((unit, unit) outcome \<times> 'v channel \<times> 'a sched_scheme) result option" where
  "send v c s =
     bindO (sem_wait (ch_empty c) s) (\<lambda>(out, m, s).
     let c = c\<lparr>ch_empty := m\<rparr> in
     case out of
       Switch k \<Rightarrow> Some (Ok (Switch k, c, s))
     | Return _ \<Rightarrow> bindO (send_rest v c s) (\<lambda>(c, s). Some (Ok (Return (), c, s))))"

definition recv_rest :: "'v channel \<Rightarrow> 'a sched_scheme \<Rightarrow> ('v \<times> 'v channel \<times> 'a sched_scheme) result option" where
  "recv_rest c s =
     bindO (chan_pop c s) (\<lambda>(v, c, s).
     bindO (sem_signal (ch_empty c) s) (\<lambda>(m, s). Some (Ok (v, c\<lparr>ch_empty := m\<rparr>, s))))"

definition recv :: "'v channel \<Rightarrow> 'a sched_scheme \<Rightarrow> (('v, unit) outcome \<times> 'v channel \<times> 'a sched_scheme) result option" where
  "recv c s =
     bindO (sem_wait (ch_full c) s) (\<lambda>(out, m, s).
     let c = c\<lparr>ch_full := m\<rparr> in
     case out of
       Switch k \<Rightarrow> Some (Ok (Switch k, c, s))
     | Return _ \<Rightarrow> bindO (recv_rest c s) (\<lambda>(v, c, s). Some (Ok (Return v, c, s))))"

section \<open>What one section does\<close>

text \<open>Under a level of its own, a critical section leaves the scheduler's state as it was.\<close>

lemma with_lock_held:
  assumes "held s" and "\<not> locked l"
  shows "with_lock f l s = Some (Ok (fst (f (lock_value l)), l\<lparr>lock_value := snd (f (lock_value l))\<rparr>, s))"
proof -
  have ok: "irq_ok s" "Suc (noff s) < usize_max" "noff s = 1" using assms(1) by (simp_all add: held_def usize_max_eq)
  have "pop_off (push_off s) = Ok s" using ok by (subst pop_pushed [OF ok(1,2)]) (simp_all add: push_off_eq)
  then show ?thesis using assms(2)
    by (simp add: with_lock_def lock_def guard_drop_def spin_free Let_def split: prod.splits)
qed

abbreviation settled :: "'a sched_scheme \<Rightarrow> 'a sched_scheme" where
  "settled s \<equiv> s\<lparr>intena := intr_get (csr s)\<rparr>"

lemma pop_settled: "irq_idle s \<Longrightarrow> pop_off (push_off s) = Ok (settled s)"
  by (subst pop_pushed [OF irq_idleD]) (auto simp: push_off_eq irq_idle_def)

lemma with_lock_idle:
  assumes "irq_idle s" and "\<not> locked l"
  shows "with_lock f l s = Some (Ok (fst (f (lock_value l)), l\<lparr>lock_value := snd (f (lock_value l))\<rparr>, settled s))"
  using assms by (simp add: with_lock_def lock_def guard_drop_def spin_free Let_def pop_settled split: prod.splits)

definition sem_free :: "semaphore \<Rightarrow> bool" where
  "sem_free m \<longleftrightarrow> \<not> locked (sem_count m)"

abbreviation tokens :: "semaphore \<Rightarrow> usize" where
  "tokens m \<equiv> lock_value (sem_count m)"

abbreviation set_tokens :: "usize \<Rightarrow> semaphore \<Rightarrow> semaphore" where
  "set_tokens n m \<equiv> m\<lparr>sem_count := sem_count m\<lparr>lock_value := n\<rparr>\<rparr>"

lemma set_tokens_same: "tokens m = n \<Longrightarrow> set_tokens n m = m"
  by (cases m) auto

lemma sem_wait_run:
  assumes "irq_idle s" and "sem_free m"
  shows "sem_wait m s = (if 0 < tokens m then Some (Ok (Return (), set_tokens (tokens m - 1) m, settled s))
     else Some (bindR (sleep (sem_at m) (push_off s)) (\<lambda>s. Ok (Switch (), m, s))))"
  using assms with_lock_held [OF held_push [OF assms(1)], of "sem_count m" "\<lambda>count. if 0 < count then (True, count - 1) else (False, count)"]
  by (simp add: sem_wait_def Let_def sem_free_def sem_chan_def pop_settled set_tokens_same)

lemma sem_raise_run:
  assumes "irq_idle s" and "sem_free m" and "tokens m < usize_max"
  shows "sem_raise m s = Some (Ok (set_tokens (Suc (tokens m)) m, settled s))"
proof -
  have h: "held (push_off s)" by (rule held_push [OF assms(1)])
  then have ok: "irq_ok (push_off s)" "Suc (noff (push_off s)) < usize_max" "noff (push_off s) = 1"
    by (simp_all add: held_def usize_max_eq)
  have "pop_off (push_off (push_off s)) = Ok (push_off s)" using ok by (subst pop_pushed [OF ok(1,2)]) (simp_all add: push_off_eq [OF ok(1)])
  then show ?thesis using assms
    by (simp add: sem_raise_def Let_def lock_def spin_free sem_free_def guard_drop_def uadd_def pop_settled)
qed

section \<open>Threads on a channel\<close>

text \<open>What a thread is doing with the channel, and where in it: before its wait, before the access to the buffer, before
  raising the other counter, before waking its sleepers.\<close>

datatype 'v chan_op = Send 'v | Recv

datatype 'v chan_pc = Out | Wait "'v chan_op" | Buf "'v chan_op" | Raise "'v chan_op" | Wake "'v chan_op"

datatype side = Empty | Full

fun needs :: "'v chan_op \<Rightarrow> side" where
  "needs (Send v) = Empty"
| "needs Recv = Full"

fun gives :: "'v chan_op \<Rightarrow> side" where
  "gives (Send v) = Full"
| "gives Recv = Empty"

fun sem_of :: "side \<Rightarrow> 'v channel \<Rightarrow> semaphore" where
  "sem_of Empty c = ch_empty c"
| "sem_of Full c = ch_full c"

fun set_sem :: "side \<Rightarrow> semaphore \<Rightarrow> 'v channel \<Rightarrow> 'v channel" where
  "set_sem Empty m c = c\<lparr>ch_empty := m\<rparr>"
| "set_sem Full m c = c\<lparr>ch_full := m\<rparr>"

record ('v, 'a) chan_sys =
  sys :: "'a sched_scheme"
  ch :: "'v channel"
  pcs :: "nat \<Rightarrow> 'v chan_pc"
  sent :: "'v list"
  recvd :: "'v list"

inductive chstep :: "layout \<Rightarrow> ('v, 'a) chan_sys \<Rightarrow> ('v, 'a) chan_sys \<Rightarrow> bool" for L where
  Call: "current (sys C) = Some i \<Longrightarrow> pcs C i = Out \<Longrightarrow> chstep L C (C\<lparr>pcs := (pcs C)(i := Wait opr)\<rparr>)"
| Pass: "current (sys C) = Some i \<Longrightarrow> pcs C i = Wait opr \<Longrightarrow> sem_wait (sem_of (needs opr) (ch C)) (sys C) = Some (Ok (Return (), m, s)) \<Longrightarrow>
    chstep L C (C\<lparr>sys := s, ch := set_sem (needs opr) m (ch C), pcs := (pcs C)(i := Buf opr)\<rparr>)"
| Block: "current (sys C) = Some i \<Longrightarrow> pcs C i = Wait opr \<Longrightarrow> sem_wait (sem_of (needs opr) (ch C)) (sys C) = Some (Ok (Switch (), m, t)) \<Longrightarrow>
    scheduler_back t = Ok s \<Longrightarrow> chstep L C (C\<lparr>sys := s, ch := set_sem (needs opr) m (ch C)\<rparr>)"
| Push: "current (sys C) = Some i \<Longrightarrow> pcs C i = Buf (Send v) \<Longrightarrow> chan_push v (ch C) (sys C) = Some (Ok (c, s)) \<Longrightarrow>
    chstep L C (C\<lparr>sys := s, ch := c, pcs := (pcs C)(i := Raise (Send v)), sent := sent C @ [v]\<rparr>)"
| Pop: "current (sys C) = Some i \<Longrightarrow> pcs C i = Buf Recv \<Longrightarrow> chan_pop (ch C) (sys C) = Some (Ok (v, c, s)) \<Longrightarrow>
    chstep L C (C\<lparr>sys := s, ch := c, pcs := (pcs C)(i := Raise Recv), recvd := recvd C @ [v]\<rparr>)"
| Up: "current (sys C) = Some i \<Longrightarrow> pcs C i = Raise opr \<Longrightarrow> sem_raise (sem_of (gives opr) (ch C)) (sys C) = Some (Ok (m, s)) \<Longrightarrow>
    chstep L C (C\<lparr>sys := s, ch := set_sem (gives opr) m (ch C), pcs := (pcs C)(i := Wake opr)\<rparr>)"
| Done: "current (sys C) = Some i \<Longrightarrow> pcs C i = Wake opr \<Longrightarrow> wakeup (sem_chan (sem_of (gives opr) (ch C))) (sys C) = Ok s \<Longrightarrow>
    chstep L C (C\<lparr>sys := s, pcs := (pcs C)(i := Out)\<rparr>)"
| Preempted: "on_tick_preempt (sys C) = Ok (Switch k, t) \<Longrightarrow> scheduler_back t = Ok s \<Longrightarrow> chstep L C (C\<lparr>sys := s\<rparr>)"
| Ticked: "on_tick_preempt (sys C) = Ok (Return (), s) \<Longrightarrow> chstep L C (C\<lparr>sys := s\<rparr>)"
| Interrupt: "wakeup chan (sys C) = Ok s \<Longrightarrow> chstep L C (C\<lparr>sys := s\<rparr>)"
| Kernel: "sstep L (sys C) s \<Longrightarrow> (\<And>i. current (sys C) = Some i \<Longrightarrow> pcs C i = Out) \<Longrightarrow> chstep L C (C\<lparr>sys := s\<rparr>)"

section \<open>The invariant\<close>

text \<open>The tokens in flight: taken from one counter and not yet visible in the buffer or in the other counter.\<close>

fun in_flight :: "side \<Rightarrow> 'v chan_pc \<Rightarrow> bool" where
  "in_flight d (Buf opr) \<longleftrightarrow> needs opr = d"
| "in_flight d (Raise opr) \<longleftrightarrow> gives opr = d"
| "in_flight d _ \<longleftrightarrow> False"

definition flying :: "side \<Rightarrow> (nat \<Rightarrow> 'v chan_pc) \<Rightarrow> nat" where
  "flying d P = card {i. in_flight d (P i)}"

lemma flying_update:
  assumes "finite {i. P i \<noteq> Out}"
  shows "flying d (P(i := x)) + (if in_flight d (P i) then 1 else 0) = flying d P + (if in_flight d x then 1 else 0)"
proof -
  define A where "A = {j. in_flight d (P j)} - {i}"
  have "finite {j. in_flight d (P j)}" by (rule finite_subset [OF _ assms]) auto
  then have A: "finite A" "i \<notin> A" by (auto simp: A_def)
  have "{j. in_flight d ((P(i := x)) j)} = (if in_flight d x then insert i A else A)" by (auto simp: A_def)
  moreover have "{j. in_flight d (P j)} = (if in_flight d (P i) then insert i A else A)" by (auto simp: A_def)
  ultimately show ?thesis using A unfolding flying_def by simp
qed

text \<open>A thread inside the channel is alive, and asleep only in its wait.\<close>

definition awake_ok :: "'v channel \<Rightarrow> 'v chan_pc \<Rightarrow> process option \<Rightarrow> bool" where
  "awake_ok c P x \<longleftrightarrow> P \<noteq> Out \<longrightarrow> (\<exists>p. x = Some p \<and> pstate p \<noteq> Zombie \<and>
     (\<forall>k. pstate p = Sleeping k \<longrightarrow> (\<exists>opr. P = Wait opr \<and> k = sem_at (sem_of (needs opr) c))))"

definition asleep :: "side \<Rightarrow> ('v, 'a) chan_sys \<Rightarrow> nat \<Rightarrow> bool" where
  "asleep d C i \<longleftrightarrow> (\<exists>opr p k. pcs C i = Wait opr \<and> needs opr = d \<and> ptab (procs (sys C)) i = Some p \<and> pstate p = Sleeping k)"

definition waking :: "side \<Rightarrow> ('v, 'a) chan_sys \<Rightarrow> bool" where
  "waking d C \<longleftrightarrow> (\<exists>j opr. pcs C j = Wake opr \<and> gives opr = d)"

definition chan_inv :: "usize \<Rightarrow> ('v, 'a) chan_sys \<Rightarrow> bool" where
  "chan_inv cap C \<longleftrightarrow> sched_inv (sys C) \<and> finite {i. pcs C i \<noteq> Out} \<and>
     \<not> locked (buf (ch C)) \<and> (\<forall>d. sem_free (sem_of d (ch C))) \<and>
     tokens (ch_empty (ch C)) + flying Empty (pcs C) + length (lock_value (buf (ch C))) = cap \<and>
     tokens (ch_full (ch C)) + flying Full (pcs C) = length (lock_value (buf (ch C))) \<and>
     sent C = recvd C @ lock_value (buf (ch C)) \<and>
     (\<forall>i. awake_ok (ch C) (pcs C i) (ptab (procs (sys C)) i)) \<and>
     (\<forall>d i. asleep d C i \<longrightarrow> tokens (sem_of d (ch C)) = 0 \<or> waking d C)"

lemma chan_invD:
  assumes "chan_inv cap C"
  shows "sched_inv (sys C)" "finite {i. pcs C i \<noteq> Out}" "\<not> locked (buf (ch C))" "sem_free (sem_of d (ch C))"
    "tokens (ch_empty (ch C)) + flying Empty (pcs C) + length (lock_value (buf (ch C))) = cap"
    "tokens (ch_full (ch C)) + flying Full (pcs C) = length (lock_value (buf (ch C)))"
    "sent C = recvd C @ lock_value (buf (ch C))"
    "awake_ok (ch C) (pcs C i) (ptab (procs (sys C)) i)"
    "asleep d C i \<Longrightarrow> tokens (sem_of d (ch C)) = 0 \<or> waking d C" "irq_idle (sys C)"
  using assms unfolding chan_inv_def sched_inv_def by blast+

text \<open>What the kernel may do to a slot whose thread does not run a section: wake it, preempt it, dispatch it.\<close>

definition drift :: "process option \<Rightarrow> process option \<Rightarrow> bool" where
  "drift x y \<longleftrightarrow> (\<forall>p. x = Some p \<longrightarrow> pstate p \<noteq> Zombie \<longrightarrow> (\<exists>q. y = Some q \<and> pstate q \<in> {pstate p, Runnable, Running}))"

lemma quiet_drift: "quiet x y \<Longrightarrow> drift x y"
  unfolding quiet_def drift_def by fastforce

lemma calm_drift: "calm j s s' \<Longrightarrow> drift (ptab (procs s) j) (ptab (procs s') j)"
  by (simp add: calm_def quiet_drift)

lemma drift_to: "y = Some q \<Longrightarrow> pstate q \<in> {Runnable, Running} \<Longrightarrow> drift x y"
  by (auto simp: drift_def)

lemma sstep_drift:
  assumes "sstep L s s'" and "sched_inv s" and "current s \<noteq> Some j"
  shows "drift (ptab (procs s) j) (ptab (procs s') j)"
proof -
  have pick: "drift (ptab (procs s) j) (ptab (procs t) j)" if t: "scheduler_turn L s = Ok (Some i, t)" for i t
  proof (cases "i = j")
    case True
    then show ?thesis using turn_pick(6) [OF t, of "the (ptab (procs s) j)"]
      by (cases "ptab (procs s) j") (auto simp: drift_def)
  qed (use turn_pick(1) [OF t] in \<open>blast intro: quiet_drift\<close>)
  from sstep_calm_or_dispatch [OF assms] show ?thesis
  proof (elim disjE exE conjE)
    fix i t assume "scheduler_turn L s = Ok (Some i, t)" "procs s' = procs t"
    with pick [of i t] show ?thesis by simp
  qed (rule calm_drift)
qed

text \<open>Steps that only move the kernel.\<close>

lemma chan_inv_sys:
  assumes "chan_inv cap C" and "sched_inv s"
    and d: "\<And>i. pcs C i \<noteq> Out \<Longrightarrow> drift (ptab (procs (sys C)) i) (ptab (procs s) i) \<or>
      (\<exists>opr q. pcs C i = Wait opr \<and> tokens (sem_of (needs opr) (ch C)) = 0 \<and> ptab (procs s) i = Some q \<and>
         pstate q = Sleeping (sem_at (sem_of (needs opr) (ch C))))"
  shows "chan_inv cap (C\<lparr>sys := s\<rparr>)"
proof -
  note I = chan_invD [OF assms(1)]
  have was: "(\<exists>p. ptab (procs (sys C)) i = Some p \<and> pstate p = Sleeping k) \<or> tokens (sem_of (needs opr) (ch C)) = 0"
    if P: "pcs C i = Wait opr" and q: "ptab (procs s) i = Some q" "pstate q = Sleeping k" for i q k opr
    using d [of i] I(8) [of i] P q unfolding drift_def awake_ok_def by force
  have "awake_ok (ch C) (pcs C i) (ptab (procs s) i)" for i
  proof (cases "pcs C i = Out")
    case False
    then obtain p where p: "ptab (procs (sys C)) i = Some p" "pstate p \<noteq> Zombie"
      "\<And>k. pstate p = Sleeping k \<Longrightarrow> \<exists>opr. pcs C i = Wait opr \<and> k = sem_at (sem_of (needs opr) (ch C))"
      using I(8) [of i] unfolding awake_ok_def by blast
    from d [OF False] show ?thesis
    proof
      assume "drift (ptab (procs (sys C)) i) (ptab (procs s) i)"
      with p(1,2) obtain q where "ptab (procs s) i = Some q" "pstate q \<in> {pstate p, Runnable, Running}"
        unfolding drift_def by blast
      with p(2,3) show ?thesis unfolding awake_ok_def by auto
    qed (auto simp: awake_ok_def)
  qed (simp add: awake_ok_def)
  moreover have "tokens (sem_of e (ch C)) = 0 \<or> waking e (C\<lparr>sys := s\<rparr>)" if "asleep e (C\<lparr>sys := s\<rparr>) i" for e i
  proof -
    from that obtain opr q k where q: "pcs C i = Wait opr" "needs opr = e" "ptab (procs s) i = Some q" "pstate q = Sleeping k"
      unfolding asleep_def by auto
    with was [of i opr q k] have "asleep e C i \<or> tokens (sem_of e (ch C)) = 0" unfolding asleep_def by auto
    with I(9) show ?thesis by (auto simp: waking_def)
  qed
  ultimately show ?thesis using assms(2) I(2-7) unfolding chan_inv_def by simp
qed

text \<open>Steps of the running thread that leave every process as it is.\<close>

lemma chan_inv_move:
  assumes inv: "chan_inv cap C" and cur: "current (sys C) = Some i" and here: "\<And>opr. pcs C i \<noteq> Wake opr"
    and s: "sched_inv s" "procs s = procs (sys C)"
    and c: "\<not> locked (buf c)" "\<And>d. sem_free (sem_of d c)" "\<And>d. sem_at (sem_of d c) = sem_at (sem_of d (ch C))"
    and up: "\<And>d. tokens (sem_of d c) \<le> tokens (sem_of d (ch C)) \<or> (\<exists>opr. x = Wake opr \<and> gives opr = d)"
    and acc: "tokens (ch_empty c) + flying Empty ((pcs C)(i := x)) + length (lock_value (buf c)) = cap"
      "tokens (ch_full c) + flying Full ((pcs C)(i := x)) = length (lock_value (buf c))" "sn = rc @ lock_value (buf c)"
  shows "chan_inv cap (C\<lparr>sys := s, ch := c, pcs := (pcs C)(i := x), sent := sn, recvd := rc\<rparr>)" (is "chan_inv cap ?C")
proof -
  note I = chan_invD [OF inv]
  from I(1) cur obtain p where p: "ptab (procs (sys C)) i = Some p" "pstate p = Running"
    using tab_invD(4) [of _ _ "Some i"] by (fastforce simp: sched_inv_def tinv_def tab_inv_def)
  have "finite {j. pcs ?C j \<noteq> Out}" by (rule finite_subset [of _ "insert i {j. pcs C j \<noteq> Out}"]) (use I(2) in auto)
  moreover have "awake_ok c (((pcs C)(i := x)) j) (ptab (procs s) j)" for j
    using I(8) [of j] p c(3) by (cases "j = i") (auto simp: awake_ok_def s(2))
  moreover have "tokens (sem_of d c) = 0 \<or> waking d ?C" if a: "asleep d ?C j" for d j
  proof -
    have ji: "j \<noteq> i" using a p unfolding asleep_def by (auto simp: s(2))
    then have "asleep d C j" using a by (auto simp: asleep_def s(2))
    moreover have "waking d ?C" if w: "waking d C"
    proof -
      from w obtain j' opr where "pcs C j' = Wake opr" "gives opr = d" unfolding waking_def by blast
      moreover from this here have "j' \<noteq> i" by auto
      ultimately show ?thesis unfolding waking_def by (intro exI [of _ j'] exI [of _ opr]) simp
    qed
    moreover have "waking d ?C" if "x = Wake opr" "gives opr = d" for opr
      unfolding waking_def using that by (intro exI [of _ i] exI [of _ opr]) simp
    ultimately show ?thesis using I(9) [of d j] up [of d] by auto
  qed
  ultimately show ?thesis using s(1) c(1,2) acc unfolding chan_inv_def by simp
qed

lemma settled_inv: "sched_inv s \<Longrightarrow> sched_inv (settled s)"
  by (simp add: sched_inv_def tinv_def irq_idle_def irq_ok_def)

lemma sem_of_set: "sem_of d (set_sem e m c) = (if d = e then m else sem_of d c)" "buf (set_sem e m c) = buf c"
  by (cases d; cases e; simp)+

lemma sem_of_buf: "sem_of d (c\<lparr>buf := b\<rparr>) = sem_of d c"
  by (cases d) simp_all

lemma chan_inv_Call:
  assumes "chan_inv cap C" and "current (sys C) = Some i" and "pcs C i = Out"
  shows "chan_inv cap (C\<lparr>pcs := (pcs C)(i := Wait opr)\<rparr>)"
proof -
  note I = chan_invD [OF assms(1)] and F = flying_update [OF chan_invD(2) [OF assms(1)], of _ i "Wait opr"]
  have "chan_inv cap (C\<lparr>sys := sys C, ch := ch C, pcs := (pcs C)(i := Wait opr), sent := sent C, recvd := recvd C\<rparr>)"
    by (rule chan_inv_move [OF assms(1,2)]) (use I(1,3-7) F [of Empty] F [of Full] assms(3) in simp_all)
  then show ?thesis by simp
qed

lemma chan_inv_Pass:
  assumes "chan_inv cap C" and "current (sys C) = Some i" and "pcs C i = Wait opr"
    and "sem_wait (sem_of (needs opr) (ch C)) (sys C) = Some (Ok (Return (), m, s))"
  shows "chan_inv cap (C\<lparr>sys := s, ch := set_sem (needs opr) m (ch C), pcs := (pcs C)(i := Buf opr)\<rparr>)"
proof -
  note I = chan_invD [OF assms(1)] and F = flying_update [OF chan_invD(2) [OF assms(1)], of _ i "Buf opr"]
  let ?m = "sem_of (needs opr) (ch C)" and ?c = "set_sem (needs opr) m (ch C)"
  from assms(4) have m: "0 < tokens ?m" "m = set_tokens (tokens ?m - 1) ?m" "s = settled (sys C)"
    unfolding sem_wait_run [OF I(10,4)] by (auto split: if_splits simp: result_simps)
  have "chan_inv cap (C\<lparr>sys := s, ch := ?c, pcs := (pcs C)(i := Buf opr), sent := sent C, recvd := recvd C\<rparr>)"
  proof (rule chan_inv_move [OF assms(1,2)])
    show "sched_inv s" "procs s = procs (sys C)" using settled_inv [OF I(1)] by (simp_all add: m(3))
    show "sem_free (sem_of d ?c)" "sem_at (sem_of d ?c) = sem_at (sem_of d (ch C))"
      "tokens (sem_of d ?c) \<le> tokens (sem_of d (ch C)) \<or> (\<exists>o'. Buf opr = Wake o' \<and> gives o' = d)" for d
      using I(4) by (simp_all add: sem_of_set m(2) sem_free_def)
    show "tokens (ch_empty ?c) + flying Empty ((pcs C)(i := Buf opr)) + length (lock_value (buf ?c)) = cap"
      "tokens (ch_full ?c) + flying Full ((pcs C)(i := Buf opr)) = length (lock_value (buf ?c))"
      using I(5,6) F [of Empty] F [of Full] assms(3) m(1) by (cases opr; simp add: m(2))+
  qed (use assms(3) I(3,7) in \<open>simp_all add: sem_of_set\<close>)
  then show ?thesis by simp
qed

lemma chan_inv_Up:
  assumes "chan_inv cap C" and "cap \<le> usize_max" and "current (sys C) = Some i" and "pcs C i = Raise opr"
    and "sem_raise (sem_of (gives opr) (ch C)) (sys C) = Some (Ok (m, s))"
  shows "chan_inv cap (C\<lparr>sys := s, ch := set_sem (gives opr) m (ch C), pcs := (pcs C)(i := Wake opr)\<rparr>)"
proof -
  note I = chan_invD [OF assms(1)] and F = flying_update [OF chan_invD(2) [OF assms(1)], of _ i "Wake opr"]
  let ?m = "sem_of (gives opr) (ch C)" and ?c = "set_sem (gives opr) m (ch C)"
  have lt: "tokens ?m < usize_max" using I(5,6) F [of Empty] F [of Full] assms(2,4) by (cases opr) simp_all
  from assms(5) have m: "m = set_tokens (Suc (tokens ?m)) ?m" "s = settled (sys C)"
    unfolding sem_raise_run [OF I(10,4) lt] by simp_all
  have "chan_inv cap (C\<lparr>sys := s, ch := ?c, pcs := (pcs C)(i := Wake opr), sent := sent C, recvd := recvd C\<rparr>)"
  proof (rule chan_inv_move [OF assms(1,3)])
    show "sched_inv s" "procs s = procs (sys C)" using settled_inv [OF I(1)] by (simp_all add: m(2))
    show "sem_free (sem_of d ?c)" "sem_at (sem_of d ?c) = sem_at (sem_of d (ch C))"
      "tokens (sem_of d ?c) \<le> tokens (sem_of d (ch C)) \<or> (\<exists>o'. Wake opr = Wake o' \<and> gives o' = d)" for d
      using I(4) by (auto simp: sem_of_set m(1) sem_free_def)
    show "tokens (ch_empty ?c) + flying Empty ((pcs C)(i := Wake opr)) + length (lock_value (buf ?c)) = cap"
      "tokens (ch_full ?c) + flying Full ((pcs C)(i := Wake opr)) = length (lock_value (buf ?c))"
      using I(5,6) F [of Empty] F [of Full] assms(4) by (cases opr; simp add: m(1))+
  qed (use assms(4) I(3,7) in \<open>simp_all add: sem_of_set\<close>)
  then show ?thesis by simp
qed

lemma chan_push_run:
  assumes "irq_idle s" and "\<not> locked (buf c)"
  shows "chan_push v c s = Some (Ok (c\<lparr>buf := (buf c)\<lparr>lock_value := lock_value (buf c) @ [v]\<rparr>\<rparr>, settled s))"
  using assms by (simp add: chan_push_def with_lock_idle)

lemma chan_pop_run:
  assumes "irq_idle s" and "\<not> locked (buf c)" and "lock_value (buf c) = v # q"
  shows "chan_pop c s = Some (Ok (v, c\<lparr>buf := (buf c)\<lparr>lock_value := q\<rparr>\<rparr>, settled s))"
  using assms by (simp add: chan_pop_def with_lock_idle expectR_def)

lemma chan_inv_Push:
  assumes "chan_inv cap C" and "current (sys C) = Some i" and "pcs C i = Buf (Send v)"
    and "chan_push v (ch C) (sys C) = Some (Ok (c, s))"
  shows "chan_inv cap (C\<lparr>sys := s, ch := c, pcs := (pcs C)(i := Raise (Send v)), sent := sent C @ [v]\<rparr>)"
proof -
  note I = chan_invD [OF assms(1)] and F = flying_update [OF chan_invD(2) [OF assms(1)], of _ i "Raise (Send v)"]
  from assms(4) have m: "c = (ch C)\<lparr>buf := (buf (ch C))\<lparr>lock_value := lock_value (buf (ch C)) @ [v]\<rparr>\<rparr>" "s = settled (sys C)"
    unfolding chan_push_run [OF I(10,3)] by simp_all
  have "chan_inv cap (C\<lparr>sys := s, ch := c, pcs := (pcs C)(i := Raise (Send v)), sent := sent C @ [v], recvd := recvd C\<rparr>)"
    by (rule chan_inv_move [OF assms(1,2)])
       (use settled_inv [OF I(1)] I(3-7) F [of Empty] F [of Full] assms(3) in \<open>simp_all add: sem_of_buf m\<close>)
  then show ?thesis by simp
qed

lemma pop_ready:
  assumes "chan_inv cap C" and "pcs C i = Buf Recv"
  shows "lock_value (buf (ch C)) \<noteq> []"
  using chan_invD(6) [OF assms(1)] flying_update [OF chan_invD(2) [OF assms(1)], of Full i Out] assms(2) by auto

lemma chan_inv_Pop:
  assumes "chan_inv cap C" and "current (sys C) = Some i" and "pcs C i = Buf Recv"
    and "chan_pop (ch C) (sys C) = Some (Ok (v, c, s))"
  shows "chan_inv cap (C\<lparr>sys := s, ch := c, pcs := (pcs C)(i := Raise Recv), recvd := recvd C @ [v]\<rparr>)"
proof -
  note I = chan_invD [OF assms(1)] and F = flying_update [OF chan_invD(2) [OF assms(1)], of _ i "Raise Recv"]
  from pop_ready [OF assms(1,3)] obtain w q where q: "lock_value (buf (ch C)) = w # q" by (cases "lock_value (buf (ch C))") auto
  from assms(4) have m: "c = (ch C)\<lparr>buf := (buf (ch C))\<lparr>lock_value := q\<rparr>\<rparr>" "s = settled (sys C)" "v = w"
    unfolding chan_pop_run [OF I(10,3) q] by simp_all
  have "chan_inv cap (C\<lparr>sys := s, ch := c, pcs := (pcs C)(i := Raise Recv), sent := sent C, recvd := recvd C @ [v]\<rparr>)"
    by (rule chan_inv_move [OF assms(1,2)])
       (use settled_inv [OF I(1)] I(3-7) F [of Empty] F [of Full] assms(3) q in \<open>simp_all add: sem_of_buf m\<close>)
  then show ?thesis by simp
qed

lemma scheduler_back_procs: "scheduler_back t = Ok s \<Longrightarrow> procs s = procs t"
  by (auto simp: scheduler_back_def Let_def result_simps pop_off_def)

text \<open>The slot of a thread that has just handed the hart over.\<close>

lemma released_slot:
  assumes "set_current_state st i s = Ok t1" and "sched_out t1 = Ok t" and "current s = Some i"
  obtains q where "ptab (procs t) i = Some q" "pstate q = st"
proof -
  from assms(1) obtain p where p: "ptab (procs s) i = Some p" "t1 = set_proc i (p\<lparr>pstate := st\<rparr>) s"
    by (auto simp: set_current_state_def result_simps)
  then have t1: "ptab (procs t1) i = Some (p\<lparr>pstate := st\<rparr>)" "current t1 = Some i"
    using ptab_update [OF p(1)] assms(3) by (simp_all add: set_proc_def)
  from assms(2) show thesis
  proof (rule sched_out_eq)
    fix j r assume "current t1 = Some j" "ptab (procs t1) j = Some r"
      "t = (set_proc j (r\<lparr>sched_intena := intena t1, pcontext := hart t1\<rparr>) t1)\<lparr>hart := scheduler_ctx t1\<rparr>"
    with t1 ptab_update [OF t1(1)] show thesis by (intro that [of "r\<lparr>sched_intena := intena t1, pcontext := hart t1\<rparr>"]) (auto simp: set_proc_def)
  qed
qed

lemma chan_inv_Block:
  assumes "chan_inv cap C" and "current (sys C) = Some i" and "pcs C i = Wait opr"
    and "sem_wait (sem_of (needs opr) (ch C)) (sys C) = Some (Ok (Switch (), m, t))" and "scheduler_back t = Ok s"
  shows "chan_inv cap (C\<lparr>sys := s, ch := set_sem (needs opr) m (ch C)\<rparr>)"
proof -
  note I = chan_invD [OF assms(1)]
  let ?m = "sem_of (needs opr) (ch C)"
  from assms(4) have m: "tokens ?m = 0" "sleep (sem_at ?m) (push_off (sys C)) = Ok t" "m = ?m"
    unfolding sem_wait_run [OF I(10,4)] by (auto split: if_splits simp: result_simps)
  have same: "set_sem (needs opr) m (ch C) = ch C" by (cases opr) (simp_all add: m(3))
  from m(2) assms(2) obtain t1 where "set_current_state (Sleeping (sem_at ?m)) i (push_off (sys C)) = Ok t1" "sched_out t1 = Ok t"
    by (auto simp: sleep_def result_simps)
  then obtain q where q: "ptab (procs t) i = Some q" "pstate q = Sleeping (sem_at ?m)" by (rule released_slot) (use assms(2) in auto)
  have "chan_inv cap (C\<lparr>sys := s\<rparr>)"
  proof (rule chan_inv_sys [OF assms(1) sleep_inv [OF I(1) m(2) assms(5)]])
    fix j
    show "drift (ptab (procs (sys C)) j) (ptab (procs s) j) \<or>
      (\<exists>opr q. pcs C j = Wait opr \<and> tokens (sem_of (needs opr) (ch C)) = 0 \<and> ptab (procs s) j = Some q \<and>
         pstate q = Sleeping (sem_at (sem_of (needs opr) (ch C))))"
    proof (cases "j = i")
      case True
      with q m(1) assms(3) show ?thesis by (intro disjI2 exI [of _ opr] exI [of _ q]) (simp add: scheduler_back_procs [OF assms(5)])
    next
      case False
      with calm_sleep [OF m(2), of j] assms(2) show ?thesis by (simp add: calm_drift scheduler_back_procs [OF assms(5)])
    qed
  qed
  then show ?thesis unfolding same by simp
qed

lemma chan_inv_Done:
  assumes "chan_inv cap C" and "current (sys C) = Some i" and "pcs C i = Wake opr"
    and "wakeup (sem_chan (sem_of (gives opr) (ch C))) (sys C) = Ok s"
  shows "chan_inv cap (C\<lparr>sys := s, pcs := (pcs C)(i := Out)\<rparr>)" (is "chan_inv cap ?C")
proof -
  note I = chan_invD [OF assms(1)] and F = flying_update [OF chan_invD(2) [OF assms(1)], of _ i Out]
  let ?k = "sem_at (sem_of (gives opr) (ch C))"
  from wakeup_eq [OF irq_idleD(1) irq_idleD(2) assms(4)] I(10)
  have tab: "ptab (procs s) = map_option (wake ?k) \<circ> ptab (procs (sys C))" by (simp add: ptab_map sem_chan_def)
  have "chan_inv cap (C\<lparr>sys := s\<rparr>)"
    by (rule chan_inv_sys [OF assms(1) wakeup_inv(1) [OF I(1) assms(4)]]) (simp add: calm_drift calm_wakeup [OF assms(4)])
  note J = chan_invD [OF this, simplified]
  have none: "\<not> asleep (gives opr) (C\<lparr>sys := s\<rparr>) j" for j
  proof
    assume "asleep (gives opr) (C\<lparr>sys := s\<rparr>) j"
    then obtain o' q k where q: "pcs C j = Wait o'" "needs o' = gives opr" "ptab (procs s) j = Some q" "pstate q = Sleeping k"
      unfolding asleep_def by auto
    with J(8) [of j] have "k = ?k" unfolding awake_ok_def by auto
    moreover from q(3) obtain p where "q = wake ?k p" unfolding tab by auto
    moreover have "pstate (wake ?k p) \<noteq> Sleeping ?k" for p by (simp add: wake_def)
    ultimately show False using q(4) by simp
  qed
  have "finite {j. pcs ?C j \<noteq> Out}" by (rule finite_subset [OF _ I(2)]) auto
  moreover have "awake_ok (ch C) (((pcs C)(i := Out)) j) (ptab (procs s) j)" for j using J(8) [of j] by (simp add: awake_ok_def)
  moreover have "tokens (sem_of d (ch C)) = 0 \<or> waking d ?C" if a: "asleep d ?C j" for d j
  proof -
    from a have "asleep d (C\<lparr>sys := s\<rparr>) j" by (auto simp: asleep_def split: if_splits)
    with none [of j] J(9) [of d j] have "tokens (sem_of d (ch C)) = 0 \<or> waking d (C\<lparr>sys := s\<rparr>) \<and> d \<noteq> gives opr" by auto
    moreover have "waking d ?C" if "waking d (C\<lparr>sys := s\<rparr>)" "d \<noteq> gives opr"
    proof -
      from that obtain j' o' where w: "pcs C j' = Wake o'" "gives o' = d" unfolding waking_def by auto
      with that(2) assms(3) have "j' \<noteq> i" by auto
      with w show ?thesis unfolding waking_def by (intro exI [of _ j'] exI [of _ o']) simp
    qed
    ultimately show ?thesis by blast
  qed
  ultimately show ?thesis using J(1) I(3-7) F [of Empty] F [of Full] assms(3) unfolding chan_inv_def by simp
qed

lemma chan_inv_tick:
  assumes "chan_inv cap C" and "on_tick_preempt (sys C) = Ok (r, t)"
    and "r = Return () \<and> s = t \<or> (\<exists>k. r = Switch k \<and> scheduler_back t = Ok s)"
  shows "chan_inv cap (C\<lparr>sys := s\<rparr>)"
proof -
  note I = chan_invD [OF assms(1)]
  from assms(2,3) have "sstep L (sys C) s" for L by (auto intro: sstep.intros)
  then have inv: "sched_inv s" using I(1) by (rule sstep_inv)
  have eq: "procs s = procs t" using assms(3) by (auto simp: scheduler_back_procs)
  show ?thesis
  proof (rule chan_inv_sys [OF assms(1) inv], rule disjI1)
    fix j
    show "drift (ptab (procs (sys C)) j) (ptab (procs s) j)"
    proof (cases "current (sys C) = Some j")
      case False
      then show ?thesis using calm_preempt [OF I(10) assms(2), of j] by (simp add: calm_drift eq)
    next
      case True
      from preempt_eq [OF I(10) assms(2)] show ?thesis
      proof
        assume "yield_now (settled (sys C)) = Ok (r, t)"
        with True obtain t1 where "set_current_state Runnable j (push_off (settled (sys C))) = Ok t1" "sched_out t1 = Ok t"
          by (auto simp: yield_now_def Let_def result_simps)
        then obtain q where "ptab (procs t) j = Some q" "pstate q = Runnable" by (rule released_slot) (use True in auto)
        then show ?thesis by (simp add: eq drift_def)
      qed (auto simp: eq drift_def)
    qed
  qed
qed

lemma chstep_inv: "chstep L C C' \<Longrightarrow> chan_inv cap C \<Longrightarrow> cap \<le> usize_max \<Longrightarrow> chan_inv cap C'"
proof (induction rule: chstep.induct)
  case (Call C i opr) then show ?case by (auto intro: chan_inv_Call)
next
  case (Pass C i opr m s) then show ?case by (auto intro: chan_inv_Pass)
next
  case (Block C i opr m t s) then show ?case by (auto intro: chan_inv_Block)
next
  case (Push C i v c s) then show ?case by (auto intro: chan_inv_Push)
next
  case (Pop C i v c s) then show ?case by (auto intro: chan_inv_Pop)
next
  case (Up C i opr m s) then show ?case by (auto intro: chan_inv_Up)
next
  case (Done C i opr s) then show ?case by (auto intro: chan_inv_Done)
next
  case (Preempted C k t s) then show ?case by (auto intro: chan_inv_tick)
next
  case (Ticked C s) then show ?case by (auto intro: chan_inv_tick)
next
  case (Interrupt chan C s)
  then show ?case by (intro chan_inv_sys wakeup_inv(1) [OF chan_invD(1)] disjI1 calm_drift calm_wakeup) auto
next
  case (Kernel C s)
  then have "sched_inv s" using sstep_inv chan_invD(1) by blast
  with Kernel show ?case by (intro chan_inv_sys disjI1 sstep_drift [OF Kernel(1)] chan_invD(1)) auto
qed

definition chan_start :: "usize \<Rightarrow> usize \<Rightarrow> usize \<Rightarrow> 'a sched_scheme \<Rightarrow> ('v, 'a) chan_sys" where
  "chan_start empty_at full_at cap s =
     \<lparr>sys = s, ch = channel_new empty_at full_at cap, pcs = (\<lambda>i. Out), sent = [], recvd = []\<rparr>"

lemma chan_start_inv: "sched_inv s \<Longrightarrow> chan_inv cap (chan_start ea fa cap s :: ('v, 'a) chan_sys)"
proof -
  have "sem_free (sem_of d (channel_new ea fa cap :: 'v channel))" for d
    by (cases d) (simp_all add: channel_new_def spinlock_new_def sem_new_def sem_free_def)
  then show "sched_inv s \<Longrightarrow> chan_inv cap (chan_start ea fa cap s :: ('v, 'a) chan_sys)"
    by (simp add: chan_inv_def chan_start_def flying_def awake_ok_def asleep_def)
       (simp add: channel_new_def spinlock_new_def sem_new_def)
qed

lemma reach_chan_inv:
  assumes "(chstep L)\<^sup>*\<^sup>* (chan_start ea fa cap s) C" and "sched_inv s" and "cap \<le> usize_max"
  shows "chan_inv cap C"
  using assms(1) by (induction rule: rtranclp_induct) (auto intro: chan_start_inv assms chstep_inv)

text \<open>The next section of the running thread returns: no panic, no lock that never comes free.\<close>

definition section_runs :: "'v channel \<Rightarrow> 'v chan_pc \<Rightarrow> 'a sched_scheme \<Rightarrow> bool" where
  "section_runs c P s \<longleftrightarrow> (case P of
     Out \<Rightarrow> True
   | Wait opr \<Rightarrow> (\<exists>out m t. sem_wait (sem_of (needs opr) c) s = Some (Ok (out, m, t)))
   | Buf (Send v) \<Rightarrow> (\<exists>c' t. chan_push v c s = Some (Ok (c', t)))
   | Buf Recv \<Rightarrow> (\<exists>v c' t. chan_pop c s = Some (Ok (v, c', t)))
   | Raise opr \<Rightarrow> (\<exists>m t. sem_raise (sem_of (gives opr) c) s = Some (Ok (m, t)))
   | Wake opr \<Rightarrow> (\<exists>t. wakeup (sem_chan (sem_of (gives opr) c)) s = Ok t))"

lemma wakeup_runs: "irq_idle s \<Longrightarrow> \<exists>t. wakeup k s = Ok t"
  using push_off_masks [OF irq_idleD(1), of s]
  by (auto simp: wakeup_def Let_def sched_data_def pop_pushed [OF irq_idleD])

lemma running_slot:
  assumes "sched_inv s" and "current s = Some i"
  obtains p where "runs i p s"
  using assms by (auto simp: sched_inv_def tinv_def tab_inv_def runs_def)

lemma section_runs_inv:
  assumes "chan_inv cap C" and "cap \<le> usize_max" and "current (sys C) = Some i"
  shows "section_runs (ch C) (pcs C i) (sys C)"
proof -
  note I = chan_invD [OF assms(1)]
  obtain p where p: "runs i p (sys C)" by (rule running_slot [OF I(1) assms(3)])
  show ?thesis
  proof (cases "pcs C i")
    case (Wait opr)
    then show ?thesis by (simp add: section_runs_def sem_wait_run [OF I(10,4)] sleep_eq [OF p])
  next
    case (Buf opr)
    obtain v q where "lock_value (buf (ch C)) = v # q" if "opr = Recv"
      using pop_ready [OF assms(1)] Buf by (cases "lock_value (buf (ch C))") auto
    with Buf show ?thesis using chan_pop_run [OF I(10,3), of v q]
      by (cases opr) (simp_all add: section_runs_def chan_push_run [OF I(10,3)])
  next
    case (Raise opr)
    have "tokens (sem_of (gives opr) (ch C)) < usize_max"
      using I(5,6) flying_update [OF I(2), of Empty i Out] flying_update [OF I(2), of Full i Out] assms(2) Raise by (cases opr) simp_all
    with Raise show ?thesis by (simp add: section_runs_def sem_raise_run [OF I(10,4)])
  qed (use wakeup_runs [OF I(10)] in \<open>simp_all add: section_runs_def\<close>)
qed

text \<open>A whole call that neither blocks nor is preempted.\<close>

lemma sem_signal_run:
  assumes "irq_idle s" and "sem_free m" and "tokens m < usize_max"
  obtains s' where "sem_signal m s = Some (Ok (set_tokens (Suc (tokens m)) m, s'))" "irq_idle s'" "current s' = current s"
    "procs s' = map (map_option (wake (sem_at m))) (procs s)"
proof -
  have idle: "irq_idle (settled s)" using assms(1) by (simp add: irq_idle_def irq_ok_def)
  from wakeup_runs [OF idle] obtain s' where s': "wakeup (sem_at m) (settled s) = Ok s'" by blast
  note w = wakeup_eq [OF irq_idleD [OF idle] s']
  show thesis
  proof (rule that)
    show "sem_signal m s = Some (Ok (set_tokens (Suc (tokens m)) m, s'))"
      using s' by (simp add: sem_signal_def sem_raise_run [OF assms] sem_chan_def)
    show "irq_idle s'" "current s' = current s" "procs s' = map (map_option (wake (sem_at m))) (procs s)"
      using w assms(1) by (simp_all add: irq_idle_def irq_ok_def)
  qed
qed

definition chan_free :: "'v channel \<Rightarrow> bool" where
  "chan_free c \<longleftrightarrow> \<not> locked (buf c) \<and> sem_free (ch_empty c) \<and> sem_free (ch_full c)"

lemma send_run:
  assumes "irq_idle s" and "chan_free c" and "0 < tokens (ch_empty c)" and "tokens (ch_full c) < usize_max"
  obtains s' where "send v c s = Some (Ok (Return (), c\<lparr>buf := (buf c)\<lparr>lock_value := lock_value (buf c) @ [v]\<rparr>,
       ch_empty := set_tokens (tokens (ch_empty c) - 1) (ch_empty c), ch_full := set_tokens (Suc (tokens (ch_full c))) (ch_full c)\<rparr>, s'))"
    "irq_idle s'" "procs s' = map (map_option (wake (sem_at (ch_full c)))) (procs s)"
proof -
  have f: "sem_free (ch_empty c)" "sem_free (ch_full c)" "\<not> locked (buf c)" using assms(2) by (simp_all add: chan_free_def)
  have idle: "irq_idle (settled s)" "irq_idle (settled (settled s))" using assms(1) by (simp_all add: irq_idle_def irq_ok_def)
  from sem_signal_run [OF idle(2) f(2) assms(4)] obtain s' where
    s': "sem_signal (ch_full c) (settled (settled s)) = Some (Ok (set_tokens (Suc (tokens (ch_full c))) (ch_full c), s'))" "irq_idle s'"
    "procs s' = map (map_option (wake (sem_at (ch_full c)))) (procs s)" by auto
  show thesis
    by (rule that [OF _ s'(2,3)]) (use assms(3) f(3) s'(1) in
      \<open>simp add: send_def send_rest_def sem_wait_run [OF assms(1) f(1)] chan_push_run [OF idle(1)]\<close>)
qed

lemma recv_run:
  assumes "irq_idle s" and "chan_free c" and "0 < tokens (ch_full c)" and "tokens (ch_empty c) < usize_max" and "lock_value (buf c) = v # q"
  obtains s' where "recv c s = Some (Ok (Return v, c\<lparr>buf := (buf c)\<lparr>lock_value := q\<rparr>,
       ch_empty := set_tokens (Suc (tokens (ch_empty c))) (ch_empty c), ch_full := set_tokens (tokens (ch_full c) - 1) (ch_full c)\<rparr>, s'))"
    "irq_idle s'" "procs s' = map (map_option (wake (sem_at (ch_empty c)))) (procs s)"
proof -
  have f: "sem_free (ch_empty c)" "sem_free (ch_full c)" "\<not> locked (buf c)" using assms(2) by (simp_all add: chan_free_def)
  have idle: "irq_idle (settled s)" "irq_idle (settled (settled s))" using assms(1) by (simp_all add: irq_idle_def irq_ok_def)
  from sem_signal_run [OF idle(2) f(1) assms(4)] obtain s' where
    s': "sem_signal (ch_empty c) (settled (settled s)) = Some (Ok (set_tokens (Suc (tokens (ch_empty c))) (ch_empty c), s'))" "irq_idle s'"
    "procs s' = map (map_option (wake (sem_at (ch_empty c)))) (procs s)" by auto
  have "chan_pop (c\<lparr>ch_full := set_tokens (tokens (ch_full c) - 1) (ch_full c)\<rparr>) (settled s) =
      Some (Ok (v, c\<lparr>ch_full := set_tokens (tokens (ch_full c) - 1) (ch_full c), buf := (buf c)\<lparr>lock_value := q\<rparr>\<rparr>, settled (settled s)))"
    using chan_pop_run [OF idle(1), of "c\<lparr>ch_full := set_tokens (tokens (ch_full c) - 1) (ch_full c)\<rparr>" v q] f(3) assms(5) by simp
  then show thesis
    by (intro that [OF _ s'(2,3)]) (use assms(3) s'(1) in \<open>simp add: recv_def recv_rest_def sem_wait_run [OF assms(1) f(2)]\<close>)
qed

section \<open>Properties\<close>

text \<open>
  C3. The channel under every interleaving.  Whatever the threads and the kernel do, with preemption
  anywhere interrupts are on, the items received followed by the items in the buffer are exactly the items sent, in order;
  the buffer never exceeds its capacity; and the next section of the running thread always
  returns: no counter overflows, no lock hangs, and no receiver that passed its wait ever finds the buffer empty.
\<close>

theorem channel_correct:
  assumes "(chstep L)\<^sup>*\<^sup>* (chan_start ea fa cap s) C" and "sched_inv s" and "cap \<le> usize_max"
  shows "sent C = recvd C @ lock_value (buf (ch C)) \<and> length (lock_value (buf (ch C))) \<le> cap \<and>
     (\<forall>i. current (sys C) = Some i \<longrightarrow> section_runs (ch C) (pcs C i) (sys C))"
proof -
  note inv = reach_chan_inv [OF assms]
  show ?thesis using chan_invD(5,7) [OF inv] section_runs_inv [OF inv assms(3)] by simp
qed

theorem channel_correct_witness:
  "\<exists>(s :: sched) C. (chstep demo_layout)\<^sup>*\<^sup>* (chan_start 1 2 4 s) C \<and> sent C = [7 :: nat] \<and> sent C = recvd C @ lock_value (buf (ch C))"
proof -
  obtain s :: sched where s: "sched_inv s" "current s = Some 0"
    by (rule demo_start [where n = 1 and L = demo_layout]) (simp, simp add: usize_max_eq, rule that)
  let ?c = "channel_new 1 2 4 :: nat channel"
  let ?C = "chan_start 1 2 4 s :: (nat, unit) chan_sys"
  have f: "sem_free (ch_empty ?c)" "tokens (ch_empty ?c) = 4" "\<not> locked (buf ?c)"
    by (simp_all add: channel_new_def sem_new_def spinlock_new_def sem_free_def)
  have idle: "irq_idle s" "irq_idle (settled s)" using s(1) by (simp_all add: sched_inv_def irq_idle_def irq_ok_def)
  let ?C1 = "?C\<lparr>pcs := (\<lambda>i. Out)(0 := Wait (Send 7))\<rparr>" and ?c2 = "?c\<lparr>ch_empty := set_tokens 3 (ch_empty ?c)\<rparr>"
  let ?C2 = "?C\<lparr>sys := settled s, ch := ?c2, pcs := (\<lambda>i. Out)(0 := Buf (Send 7))\<rparr>"
  have 1: "chstep demo_layout ?C ?C1" using chstep.Call [of ?C 0 demo_layout "Send 7"] s(2) by (simp add: chan_start_def)
  have 2: "chstep demo_layout ?C1 ?C2"
    using chstep.Pass [of ?C1 0 "Send 7" "set_tokens 3 (ch_empty ?c)" "settled s" demo_layout] s(2) f sem_wait_run [OF idle(1) f(1)]
    by (simp add: chan_start_def)
  obtain C3 where 3: "chstep demo_layout ?C2 C3" "sent C3 = [7]"
    using chstep.Push [of ?C2 0 7 _ _ demo_layout] s(2) chan_push_run [OF idle(2), of ?c2 7] f(3)
    by (simp add: chan_start_def)
  from 1 2 3(1) have "(chstep demo_layout)\<^sup>*\<^sup>* ?C C3" by (meson converse_rtranclp_into_rtranclp rtranclp.rtrancl_refl)
  with channel_correct [OF this s(1)] 3(2) show ?thesis by (auto simp: usize_max_eq)
qed

text \<open>
  C24. No lost wakeup.  A sender asleep in the channel means that the buffer is full, or that some thread has passed its
  wait, is not asleep and has still to finish its access; a receiver asleep means that
  the buffer is empty, or again that such a thread exists.
\<close>

theorem channel_no_lost_wakeup:
  assumes "(chstep L)\<^sup>*\<^sup>* (chan_start ea fa cap s) C" and "sched_inv s" and "cap \<le> usize_max" and "asleep d C i"
  shows "length (lock_value (buf (ch C))) = (case d of Empty \<Rightarrow> cap | Full \<Rightarrow> 0) \<or>
     (\<exists>j p opr. pcs C j \<in> {Buf opr, Raise opr, Wake opr} \<and> ptab (procs (sys C)) j = Some p \<and> pstate p \<in> {Runnable, Running})"
proof -
  note I = chan_invD [OF reach_chan_inv [OF assms(1-3)]]
  have active: ?thesis if j: "pcs C j \<in> {Buf opr, Raise opr, Wake opr}" for j opr
  proof -
    from j I(8) [of j] obtain p where "ptab (procs (sys C)) j = Some p" "pstate p \<noteq> Zombie" "\<And>k. pstate p \<noteq> Sleeping k"
      unfolding awake_ok_def by force
    with j show ?thesis by (cases "pstate p") blast+
  qed
  have fly: ?thesis if "in_flight d (pcs C j)" for j
    using that active [of j] by (cases "pcs C j") auto
  from I(9) [OF assms(4)] show ?thesis
  proof
    assume "waking d C"
    then show ?thesis using active unfolding waking_def by blast
  next
    assume z: "tokens (sem_of d (ch C)) = 0"
    show ?thesis
    proof (cases "flying d (pcs C) = 0")
      case True
      with z I(5,6) show ?thesis by (cases d) auto
    next
      case False
      then obtain j where "in_flight d (pcs C j)" unfolding flying_def by (metis (mono_tags, lifting) card_eq_0_iff empty_Collect_eq)
      then show ?thesis by (rule fly)
    qed
  qed
qed

theorem channel_no_lost_wakeup_witness:
  "\<exists>(s :: sched) C. (chstep demo_layout)\<^sup>*\<^sup>* (chan_start 1 2 4 s :: (nat, unit) chan_sys) C \<and> asleep Full C 0 \<and>
     lock_value (buf (ch C)) = []"
proof -
  obtain s :: sched where s: "sched_inv s" "current s = Some 0" "kernel_root s \<noteq> 0"
    by (rule demo_start [where n = 1 and L = demo_layout]) (simp, simp add: usize_max_eq, rule that)
  let ?c = "channel_new 1 2 4 :: nat channel"
  let ?C = "chan_start 1 2 4 s :: (nat, unit) chan_sys"
  have f: "sem_free (ch_full ?c)" "tokens (ch_full ?c) = 0" "sem_at (ch_full ?c) = 2"
    by (simp_all add: channel_new_def sem_new_def spinlock_new_def sem_free_def)
  have idle: "irq_idle s" using s(1) by (simp add: sched_inv_def)
  obtain p where p: "runs 0 p s" by (rule running_slot [OF s(1,2)])
  obtain t where t: "sleep 2 (push_off s) = Ok t" using sleep_eq [OF p, of 2] by blast
  then obtain t1 where t1: "set_current_state (Sleeping 2) 0 (push_off s) = Ok t1" "sched_out t1 = Ok t"
    using s(2) by (auto simp: sleep_def result_simps)
  then obtain q where q: "ptab (procs t) 0 = Some q" "pstate q = Sleeping 2" by (rule released_slot) (use s(2) in auto)
  from release_inv [OF s(1,2) t1(1)] have "tinv None t1" "held t1" by simp_all
  from sched_out_inv(2) [OF this t1(2)] have "held t" .
  moreover have "kernel_root t \<noteq> 0" using s(3) t1 by (auto simp: set_current_state_def sched_out_def result_simps set_proc_def)
  ultimately obtain s' where s': "scheduler_back t = Ok s'" "procs s' = procs t" using scheduler_back_ok by blast
  let ?C1 = "?C\<lparr>pcs := (\<lambda>i. Out)(0 := Wait Recv)\<rparr>" and ?C2 = "?C\<lparr>sys := s', pcs := (\<lambda>i. Out)(0 := Wait Recv)\<rparr>"
  have 1: "chstep demo_layout ?C ?C1" using chstep.Call [of ?C 0 demo_layout Recv] s(2) by (simp add: chan_start_def)
  have 2: "chstep demo_layout ?C1 ?C2"
    using chstep.Block [of ?C1 0 Recv "ch_full ?c" t s' demo_layout] s(2) f sem_wait_run [OF idle f(1)] t s'(1)
    by (simp add: chan_start_def)
  have "asleep Full ?C2 0" using q s'(2) by (simp add: asleep_def)
  moreover from 1 2 have r: "(chstep demo_layout)\<^sup>*\<^sup>* ?C ?C2" by (meson converse_rtranclp_into_rtranclp rtranclp.rtrancl_refl)
  ultimately show ?thesis using channel_no_lost_wakeup [OF r s(1), of Full 0] by (intro exI [of _ s] exI [of _ ?C2]) (auto simp: usize_max_eq split: if_splits)
qed

text \<open>
  Sending and receiving.  On a channel with a free slot, \<open>send\<close> returns at once: the item is at the back of the buffer, a free
  slot has become a filled one, and every receiver asleep has been made runnable.  A \<open>recv\<close> that follows returns the
  oldest item and gives the slot back.
\<close>

theorem send_recv_roundtrip:
  assumes "irq_idle s" and "chan_free c" and "0 < tokens (ch_empty c)" and "tokens (ch_empty c) \<le> usize_max"
    and "tokens (ch_full c) < usize_max"
  shows "\<exists>c' s' s''. send v c s = Some (Ok (Return (), c', s')) \<and> lock_value (buf c') = lock_value (buf c) @ [v] \<and>
     tokens (ch_full c') = Suc (tokens (ch_full c)) \<and> tokens (ch_empty c') = tokens (ch_empty c) - 1 \<and>
     procs s' = map (map_option (wake (sem_at (ch_full c)))) (procs s) \<and>
     recv c' s' = Some (Ok (Return (hd (lock_value (buf c) @ [v])),
       c\<lparr>buf := (buf c)\<lparr>lock_value := tl (lock_value (buf c) @ [v])\<rparr>\<rparr>, s''))"
proof -
  let ?c = "c\<lparr>buf := (buf c)\<lparr>lock_value := lock_value (buf c) @ [v]\<rparr>,
       ch_empty := set_tokens (tokens (ch_empty c) - 1) (ch_empty c), ch_full := set_tokens (Suc (tokens (ch_full c))) (ch_full c)\<rparr>"
  obtain s' where s': "send v c s = Some (Ok (Return (), ?c, s'))" "irq_idle s'"
    "procs s' = map (map_option (wake (sem_at (ch_full c)))) (procs s)" by (rule send_run [OF assms(1-3,5)]) (rule that)
  obtain w q where q: "lock_value (buf c) @ [v] = w # q" by (cases "lock_value (buf c) @ [v]") auto
  have ok: "chan_free ?c" "0 < tokens (ch_full ?c)" "tokens (ch_empty ?c) < usize_max" "lock_value (buf ?c) = w # q"
    using assms(2-4) q by (simp_all add: chan_free_def sem_free_def)
  obtain s'' where "recv ?c s' = Some (Ok (Return w, ?c\<lparr>buf := (buf ?c)\<lparr>lock_value := q\<rparr>,
       ch_empty := set_tokens (Suc (tokens (ch_empty ?c))) (ch_empty ?c), ch_full := set_tokens (tokens (ch_full ?c) - 1) (ch_full ?c)\<rparr>, s''))"
    by (rule recv_run [OF s'(2) ok]) (rule that)
  moreover have "set_tokens (tokens (ch_empty c)) (ch_empty c) = ch_empty c" "set_tokens (tokens (ch_full c)) (ch_full c) = ch_full c"
    by (simp_all add: set_tokens_same)
  ultimately show ?thesis using s' q assms(3) by (intro exI [of _ ?c] exI [of _ s'] exI [of _ s'']) simp
qed

theorem send_recv_roundtrip_witness:
  "\<exists>c' s' s''. send 7 (channel_new 1 2 4 :: nat channel) (demo_sched 1) = Some (Ok (Return (), c', s')) \<and>
     recv c' s' = Some (Ok (Return 7, channel_new 1 2 4, s''))"
proof -
  have "irq_idle (demo_sched 1)" using demo_inv [of 1] by (simp add: sched_inv_def usize_max_eq)
  from send_recv_roundtrip [OF this, of "channel_new 1 2 4" "7 :: nat"] show ?thesis
    by (auto simp: chan_free_def sem_free_def channel_new_def sem_new_def spinlock_new_def usize_max_eq)
qed

end
