(* ===== verification/Serve.thy ===== *)
theory Serve
  imports Greeter Sync
begin

text \<open>
  The kernel under the user programs: \<open>dispatch\<close> of \<open>src/src/syscall.rs\<close> answers the calls of the greeter the way
  \<open>Greeter\<close> assumes, on the view of the calling process.
\<close>

section \<open>The kernel serves these calls\<close>

lemma sys_write_view:
  assumes "runs i p s" and "proc_space L p s"
  obtains s' where "sys_write ptr len s = Ok (if write_ok (pview p s) ptr len then len else ERR, s')" "ram s' = ram s" "procs s' = procs s"
    "console s' = console s @ (if write_ok (pview p s) ptr len then crlf (peek (pview p s) ptr len) else [])"
proof (cases "len \<le> WRITE_MAX \<and> readable (pview p s) ptr len \<and> utf8_valid (peek (pview p s) ptr len)")
  case True
  then show thesis using copy_from_user_view [OF assms, of ptr len]
    by (intro that [of "kprint (peek (pview p s) ptr len) (if ptr + len \<le> VA_MAX then s\<lparr>intena := intr_get (csr s)\<rparr> else s)"])
       (simp_all add: sys_write_def write_ok_def from_utf8_def kprint_def)
next
  case False
  then show thesis using copy_from_user_view [OF assms, of ptr len]
    by (intro that [of "if len \<le> WRITE_MAX \<and> ptr + len \<le> VA_MAX then s\<lparr>intena := intr_get (csr s)\<rparr> else s"])
       (auto simp: sys_write_def write_ok_def from_utf8_def)
qed

lemma current_pid_run: "runs i p s \<Longrightarrow> current_pid s = Ok (pid p, s\<lparr>intena := intr_get (csr s)\<rparr>)"
  using push_off_masks [OF irq_idleD(1), of s] pop_settled [of s]
  by (simp add: current_pid_def Let_def sched_data_def runs_def ptab_slot_at)

lemma push_off_ticks [simp]: "ticks (push_off s) = ticks s"
  by (simp add: push_off_def Let_def)

lemma exit_run:
  assumes "runs i p s"
  obtains t where "exit s = Ok (Switch K_dead, t)" "console t = console s" "ram t = ram s"
proof -
  have idle: "irq_idle s" and cur: "current s = Some i" and p: "ptab (procs s) i = Some p" using assms by (simp_all add: runs_def)
  let ?s1 = "set_proc i (p\<lparr>pstate := Zombie\<rparr>) (push_off s)"
  have h: "held (push_off s)" by (rule held_push [OF idle])
  then have ok: "irq_ok ?s1" "Suc (noff ?s1) < usize_max" "noff ?s1 = 1" "\<not> intr_get (csr ?s1)"
    by (simp_all add: held_def irq_ok_def set_proc_def usize_max_eq)
  let ?s2 = "?s1\<lparr>procs := map (map_option (wake EXIT_CHAN)) (procs ?s1)\<rparr>"
  have "pop_off ((push_off ?s1)\<lparr>procs := map (map_option (wake EXIT_CHAN)) (procs ?s1)\<rparr>) = Ok ?s2"
    using ok(3) by (subst pop_pushed [OF ok(1,2)]) (simp_all add: push_off_eq [OF ok(1)])
  then have w: "wakeup EXIT_CHAN ?s1 = Ok ?s2" using push_off_masks [OF ok(1)] by (simp add: wakeup_def Let_def sched_data_def)
  have p2: "ptab (procs ?s2) i = Some (p\<lparr>pstate := Zombie\<rparr>)"
    using ptab_update [OF p] by (simp add: ptab_map set_proc_def wake_def)
  have c2: "current ?s2 = Some i" "noff ?s2 = 1" "\<not> intr_get (csr ?s2)" using cur ok by (simp_all add: set_proc_def)
  let ?t = "(set_proc i (p\<lparr>pstate := Zombie, sched_intena := intena ?s2, pcontext := hart ?s2\<rparr>) ?s2)\<lparr>hart := scheduler_ctx ?s2\<rparr>"
  have "sched_out ?s2 = Ok ?t" using c2 ptab_slot_at [OF p2]
    by (simp add: sched_out_def holding_one_def sched_data_def expectR_def assertR_def saved_intena_def)
  moreover have "set_current_state Zombie i (push_off s) = Ok ?s1" using p by (simp add: set_current_state_def ptab_slot_at expectR_def)
  moreover have "\<not> intr_get (csr (push_off s))" using h by (simp add: held_def irq_ok_def)
  ultimately have "exit s = Ok (Switch K_dead, ?t)" using cur w by (simp add: exit_def Let_def sched_data_def expectR_def)
  then show thesis by (rule that) (simp_all add: set_proc_def)
qed


lemma sleep_ms_bound: "1 \<le> sleep_ms_ticks ms" "sleep_ms_ticks ms \<le> Suc (usize_max div 1000)"
proof -
  have "div_ceil n 1000 \<le> Suc (n div 1000)" for n by (simp add: div_ceil_def)
  moreover have "saturating_mul ms TICK_HZ \<le> usize_max" by (simp add: saturating_mul_def)
  ultimately have "div_ceil (saturating_mul ms TICK_HZ) 1000 \<le> Suc (usize_max div 1000)" by (meson Suc_le_mono div_le_mono le_trans)
  then show "1 \<le> sleep_ms_ticks ms" "sleep_ms_ticks ms \<le> Suc (usize_max div 1000)" by (simp_all add: sleep_ms_ticks_def)
qed

lemma sleep_ms_run:
  assumes "runs i p s" and "ticks s \<le> usize_max div 2"
  obtains t q where "sleep_ticks (sleep_ms_ticks ms) s = Ok (Switch (K_ticks (ticks s + sleep_ms_ticks ms)), t)"
    "console t = console s" "ram t = ram s" "ptab (procs t) i = Some q" "pstate q = Sleeping TICK_CHAN"
proof -
  have p: "ptab (procs s) i = Some p" using assms(1) by (simp add: runs_def)
  have "ticks s + sleep_ms_ticks ms \<le> usize_max" using sleep_ms_bound(2) [of ms] assms(2) by (simp add: usize_max_eq)
  then have u: "uadd (ticks s) (sleep_ms_ticks ms) = Ok (ticks s + sleep_ms_ticks ms)" by (simp add: uadd_def)
  let ?q = "p\<lparr>pstate := Sleeping TICK_CHAN, sched_intena := intena (push_off s), pcontext := hart s\<rparr>"
  let ?t = "(set_proc i ?q (push_off s))\<lparr>hart := scheduler_ctx s\<rparr>"
  have "sleep_ticks (sleep_ms_ticks ms) s = Ok (Switch (K_ticks (ticks s + sleep_ms_ticks ms)), ?t)"
    using u sleep_ms_bound(1) [of ms] sleep_eq [OF assms(1), of TICK_CHAN] by (simp add: sleep_ticks_def sleep_turn_def)
  moreover have "ptab (procs ?t) i = Some ?q" using ptab_update [OF p] by (simp add: set_proc_def)
  moreover have "pstate ?q = Sleeping TICK_CHAN" by simp
  ultimately show thesis by (intro that [of ?t ?q]) (simp_all add: set_proc_def)
qed

lemma dispatch_calls:
  assumes "runs i p s" and "proc_space L p s" and "tf_sepc frame + 4 \<le> usize_max" and "ticks s \<le> usize_max div 2"
  defines "V \<equiv> pview p s" and "frame' \<equiv> frame\<lparr>tf_sepc := tf_sepc frame + 4\<rparr>"
  shows "tf_a7 frame = SYS_WRITE \<Longrightarrow> \<exists>s'. dispatch L P stk frame s =
        Ok (Sysret (frame'\<lparr>tf_a0 := (if write_ok V (tf_a0 frame) (tf_a1 frame) then tf_a1 frame else ERR)\<rparr>), s') \<and> pview p s' = V \<and>
        console s' = console s @ (if write_ok V (tf_a0 frame) (tf_a1 frame) then crlf (peek V (tf_a0 frame) (tf_a1 frame)) else [])"
    and "tf_a7 frame = SYS_GETPID \<Longrightarrow> \<exists>s'. dispatch L P stk frame s = Ok (Sysret (frame'\<lparr>tf_a0 := pid p\<rparr>), s') \<and>
        pview p s' = V \<and> console s' = console s"
    and "tf_a7 frame = SYS_SLEEP_MS \<Longrightarrow> \<exists>target s' q. dispatch L P stk frame s = Ok (Blocked (K_ticks target) frame', s') \<and> ticks s < target \<and>
        ptab (procs s') i = Some q \<and> pstate q = Sleeping TICK_CHAN \<and> pview p s' = V \<and> console s' = console s"
    and "tf_a7 frame = SYS_EXIT \<Longrightarrow> \<exists>s'. dispatch L P stk frame s = Ok (Blocked K_dead frame', s') \<and>
        console s' = console s @ crlf (bytes_of (exit_message (pid p) (tf_a0 frame)) @ [NL])"
proof -
  note nums = SYS_WRITE_def SYS_EXIT_def SYS_YIELD_def SYS_GETPID_def SYS_SLEEP_MS_def SYS_READ_def SYS_UNAME_def SYS_OPEN_def SYS_FREAD_def
    SYS_CLOSE_def SYS_SBRK_def SYS_FORK_def SYS_WAIT_def SYS_EXEC_def
  have pc: "uadd (tf_sepc frame) 4 = Ok (tf_sepc frame + 4)" using assms(3) by (simp add: uadd_def)
  have r1: "runs i p (s\<lparr>intena := intr_get (csr s)\<rparr>)" using assms(1) by (simp add: runs_def irq_idle_def irq_ok_def)
  show "\<exists>s'. dispatch L P stk frame s =
        Ok (Sysret (frame'\<lparr>tf_a0 := (if write_ok V (tf_a0 frame) (tf_a1 frame) then tf_a1 frame else ERR)\<rparr>), s') \<and> pview p s' = V \<and>
        console s' = console s @ (if write_ok V (tf_a0 frame) (tf_a1 frame) then crlf (peek V (tf_a0 frame) (tf_a1 frame)) else [])"
    if "tf_a7 frame = SYS_WRITE"
  proof -
    obtain s' where "sys_write (tf_a0 frame) (tf_a1 frame) s = Ok (if write_ok V (tf_a0 frame) (tf_a1 frame) then tf_a1 frame else ERR, s')"
      "ram s' = ram s" "console s' = console s @ (if write_ok V (tf_a0 frame) (tf_a1 frame) then crlf (peek V (tf_a0 frame) (tf_a1 frame)) else [])"
      using sys_write_view [OF assms(1,2), of "tf_a0 frame" "tf_a1 frame"] unfolding V_def by metis
    then show ?thesis using that pc by (simp add: dispatch_def frame'_def Let_def pview_def V_def)
  qed
  show "\<exists>s'. dispatch L P stk frame s = Ok (Sysret (frame'\<lparr>tf_a0 := pid p\<rparr>), s') \<and> pview p s' = V \<and> console s' = console s"
    if "tf_a7 frame = SYS_GETPID"
    using that pc current_pid_run [OF assms(1)] by (simp add: dispatch_def frame'_def Let_def pview_def V_def nums)
  show "\<exists>target s' q. dispatch L P stk frame s = Ok (Blocked (K_ticks target) frame', s') \<and> ticks s < target \<and>
        ptab (procs s') i = Some q \<and> pstate q = Sleeping TICK_CHAN \<and> pview p s' = V \<and> console s' = console s"
    if "tf_a7 frame = SYS_SLEEP_MS"
  proof -
    obtain t q where "sleep_ticks (sleep_ms_ticks (tf_a0 frame)) s = Ok (Switch (K_ticks (ticks s + sleep_ms_ticks (tf_a0 frame))), t)"
      "console t = console s" "ram t = ram s" "ptab (procs t) i = Some q" "pstate q = Sleeping TICK_CHAN" by (rule sleep_ms_run [OF assms(1,4)]) (rule that)
    then show ?thesis using that pc sleep_ms_bound(1) [of "tf_a0 frame"]
      by (simp add: dispatch_def frame'_def Let_def pview_def V_def nums ret0_def)
  qed
  show "\<exists>s'. dispatch L P stk frame s = Ok (Blocked K_dead frame', s') \<and>
        console s' = console s @ crlf (bytes_of (exit_message (pid p) (tf_a0 frame)) @ [NL])" if "tf_a7 frame = SYS_EXIT"
  proof -
    let ?s = "kprintln (exit_message (pid p) (tf_a0 frame)) (s\<lparr>intena := intr_get (csr s)\<rparr>)"
    have "runs i p ?s" using r1 by (simp add: runs_def irq_idle_def irq_ok_def kprintln_def kprint_def)
    then obtain t where "exit ?s = Ok (Switch K_dead, t)" "console t = console ?s" by (rule exit_run)
    then show ?thesis using that pc current_pid_run [OF assms(1)]
      by (simp add: dispatch_def frame'_def Let_def nums ret0_def exit_message_def kprintln_def kprint_def)
  qed
qed

section \<open>Properties\<close>



end
