(* ===== verification/Boot.thy ===== *)
theory Boot
  imports Heap_Props Trap Serve
begin

text \<open>
  \<open>src/src/main.rs\<close>: \<open>kmain\<close> from the firmware's hand-over to the scheduler, with the self-tests it runs on the way, and
  the bodies of the threads it starts.  \<open>kmain\<close> is cut into its paragraphs, composed at the end of the first section.

  The addresses \<open>vec\<close> of the trap vector, the images \<open>P\<close> and the kernel stacks \<open>stks\<close>, which are heap blocks, are
  parameters; \<open>frame\<close> is what the trap vector saves for the breakpoint, and \<open>wfi\<close> what one wait for an
  interrupt does to the system.  The test of the heap goes through the allocator the way \<open>Box\<close>, \<open>Vec\<close> and
  \<open>String\<close> of the Rust library do: a \<open>Vec\<close> collected from a range of known length is allocated once, a
  growing \<open>String\<close> doubles its capacity, and \<open>realloc\<close> is the default of \<open>GlobalAlloc\<close>, allocate, copy, release.
\<close>

section \<open>The boot sequence\<close>

record 'd boot = "'d kernel" +
  kheap :: heap
  BUSY :: "usize list"
  STOP :: bool

definition boot_banner :: "'d machine \<Rightarrow> layout \<Rightarrow> usize \<Rightarrow> usize \<Rightarrow> ('d, 'z) kernel_scheme \<Rightarrow> ('d, 'z) kernel_scheme result" where
  "boot_banner E L hartid dtb s =
     (let s = s\<lparr>dev := uart_init E (dev s)\<rparr>;
          s = kprintln '''' s;
          s = kprintln (''osmium kernel booting on hart '' @ dec hartid @ '' (dtb at '' @ hex dtb @ '')'') s;
          ((major, minor), d) = spec_version E (dev s);
          (i, d) = impl_id E d;
          (v, d) = impl_version E d;
          s = kprintln (''  sbi: v'' @ dec major @ ''.'' @ dec minor @ '' via '' @ impl_name i @
                '' (impl version '' @ hex v @ '')'') (s\<lparr>dev := d\<rparr>) in
      bindR (usub (kernel_end L) (kernel_start L)) (\<lambda>n.
      Ok (kprintln (''  kernel image: '' @ hex (kernel_start L) @ ''..'' @ hex (kernel_end L) @
            '' ('' @ dec (n div 1024) @ '' KiB)'') s)))"

definition boot_traps :: "usize \<Rightarrow> ('d, 'z) kernel_scheme \<Rightarrow> ('d, 'z) kernel_scheme" where
  "boot_traps vec s =
     (let c = (csr s)\<lparr>sie := csr_set (sie (csr s)) (SIE_SEIE OR SIE_STIE OR SIE_SSIE)\<rparr> in
      kprintln ''  traps: stvec -> kernelvec'' (s\<lparr>csr := trap_init vec c\<rparr>))"

text \<open>\<open>ebreak\<close>: the hart enters the trap vector with the cause of a breakpoint.\<close>

definition boot_ebreak :: "'d machine \<Rightarrow> layout \<Rightarrow> images \<Rightarrow> trap_frame \<Rightarrow> ('d, 'z) kernel_scheme \<Rightarrow>
    ('d, 'z) kernel_scheme result option" where
  "boot_ebreak E L P frame s =
     bindO (kerneltrap E L P 0 frame (s\<lparr>csr := (csr s)\<lparr>scause := EXC_BREAKPOINT, sepc_csr := tf_sepc frame\<rparr>\<rparr>)) (\<lambda>(out, s).
     Some (Ok (kprintln ''  traps: survived an ebreak round-trip'' s)))"

definition from_be :: "nat \<Rightarrow> nat" where
  "from_be x = x mod 256 * 2 ^ 24 + x div 256 mod 256 * 2 ^ 16 + x div 65536 mod 256 * 256 + x div 16777216 mod 256"

definition dtb_reserved :: "usize \<Rightarrow> ('d, 'z) kernel_scheme \<Rightarrow> ((usize \<times> usize) option \<times> ('d, 'z) kernel_scheme) result" where
  "dtb_reserved dtb s =
     (let magic = from_be (load32 (mem (ram s)) dtb) in
      if DRAM_BASE \<le> dtb \<and> magic = 0xd00dfeed then
        bindR (uadd dtb 4) (\<lambda>a.
        let size = from_be (load32 (mem (ram s)) a);
            s = kprintln (''  dtb: reserving '' @ dec size @ '' bytes at '' @ hex dtb) s in
        bindR (uadd dtb size) (\<lambda>e. Ok (Some (dtb, e), s)))
      else Ok (None, kprintln (''  dtb: no valid device tree at '' @ hex dtb @ ''; nothing reserved'') s))"

definition boot_kalloc :: "layout \<Rightarrow> (usize \<times> usize) option \<Rightarrow> ('d, 'z) kernel_scheme \<Rightarrow> ('d, 'z) kernel_scheme result" where
  "boot_kalloc L reserved s =
     bindR (kalloc_init L reserved (ram s)) (\<lambda>m.
     bindR (umul (free_pages m) PAGE_SIZE) (\<lambda>bytes.
     Ok (kprintln (''  kalloc: '' @ dec (free_pages m) @ '' free pages ('' @ dec (bytes div (1024 * 1024)) @ '' MiB)'') (s\<lparr>ram := m\<rparr>))))"

definition kalloc_self_test :: "layout \<Rightarrow> ('d, 'z) kernel_scheme \<Rightarrow> ('d, 'z) kernel_scheme result" where
  "kalloc_self_test L s =
     bindR (kalloc_alloc (ram s)) (\<lambda>(p, m).
     bindR (expectR p ''out of pages'') (\<lambda>a.
     bindR (kalloc_alloc m) (\<lambda>(p, m).
     bindR (expectR p ''out of pages'') (\<lambda>b.
     bindR (assertR (a \<noteq> b) ''assertion `left != right` failed'') (\<lambda>_.
     bindR (assertR (list_all (\<lambda>i. mem m (a + i) = 0) [0..<PAGE_SIZE]) ''assertion failed: page is zero'') (\<lambda>_.
     bindR (kalloc_free L a m) (\<lambda>m.
     bindR (kalloc_free L b m) (\<lambda>m.
     Ok (kprintln ''  kalloc: alloc/free self-test ok'' (s\<lparr>ram := m\<rparr>))))))))))"

text \<open>\<open>vm::init\<close> and \<open>vm::init_hart\<close> of \<open>src/src/vm.rs\<close> on the kernel's state.\<close>

definition vm_init :: "layout \<Rightarrow> 'a sched_scheme \<Rightarrow> 'a sched_scheme result" where
  "vm_init L s = bindR (kvmmake L (ram s)) (\<lambda>(root, m). Ok (s\<lparr>ram := m, kernel_root := root\<rparr>))"

definition vm_start_hart :: "('d, 'z) kernel_scheme \<Rightarrow> ('d, 'z) kernel_scheme result" where
  "vm_start_hart s =
     bindR (vm_init_hart (kernel_root s) (csr s)) (\<lambda>c.
     Ok (kprintln (''  vm: sv39 paging on (root table '' @ hex (kernel_root s) @ '')'') (s\<lparr>csr := c\<rparr>)))"

text \<open>\<open>vm::translate(root, va).unwrap()\<close>.\<close>

definition translated :: "'a sched_scheme \<Rightarrow> usize \<Rightarrow> (usize \<times> usize) result" where
  "translated s va =
     bindR (translate (kernel_root s) va (ram s)) (\<lambda>t. expectR t ''called `Option::unwrap()` on a `None` value'')"

definition vm_self_test :: "layout \<Rightarrow> ('d, 'z) kernel_scheme \<Rightarrow> ('d, 'z) kernel_scheme result" where
  "vm_self_test L s =
     bindR (translated s (text_start L)) (\<lambda>(pa, pte).
     bindR (assertR (pa = text_start L) ''text must be identity-mapped'') (\<lambda>_.
     bindR (assertR (pte AND PTE_X \<noteq> 0 \<and> pte AND PTE_W = 0) ''text must be R-X'') (\<lambda>_.
     bindR (translated s (rodata_start L)) (\<lambda>(_, pte).
     bindR (assertR (pte AND (PTE_W OR PTE_X) = 0) ''rodata must be R--'') (\<lambda>_.
     bindR (translated s (data_start L)) (\<lambda>(_, pte).
     bindR (assertR (pte AND PTE_W \<noteq> 0 \<and> pte AND PTE_X = 0) ''data must be RW-'') (\<lambda>_.
     bindR (translated s UART0) (\<lambda>(_, pte).
     bindR (assertR (pte AND PTE_W \<noteq> 0) ''uart must be writable'') (\<lambda>_.
     bindR (translate (kernel_root s) 0x40000000 (ram s)) (\<lambda>t.
     bindR (assertR (t = None) ''hole must be unmapped'') (\<lambda>_.
     Ok (kprintln ''  vm: translation self-test ok'' s))))))))))))"

text \<open>An allocation through the Rust library, which panics on a null pointer, and \<open>GlobalAlloc::realloc\<close>.\<close>

definition new_block :: "usize \<Rightarrow> usize \<Rightarrow> heap \<Rightarrow> (usize \<times> heap) result option" where
  "new_block n align h =
     bindO (alloc_inner \<lparr>layout_size = n, layout_align = align\<rparr> h) (\<lambda>(p, h).
     Some (bindR (assertR (p \<noteq> 0) (''memory allocation of '' @ dec n @ '' bytes failed'')) (\<lambda>_. Ok (p, h))))"

definition realloc :: "usize \<Rightarrow> usize \<Rightarrow> usize \<Rightarrow> usize \<Rightarrow> heap \<Rightarrow> (usize \<times> heap) result option" where
  "realloc p old align new h =
     bindO (new_block new align h) (\<lambda>(q, h).
     bindO (dealloc_inner p (h\<lparr>hmem := copy_nonoverlapping (hmem h) p q (min old new)\<rparr>)) (\<lambda>h. Some (Ok (q, h))))"

definition store_elems :: "usize \<Rightarrow> usize list \<Rightarrow> heap \<Rightarrow> heap" where
  "store_elems p vs h = h\<lparr>hmem := fold (\<lambda>(i, v) m. store64 m (p + 8 * i) v) (enumerate 0 vs) (hmem h)\<rparr>"

definition store_text :: "usize \<Rightarrow> u8 list \<Rightarrow> heap \<Rightarrow> heap" where
  "store_text p bs h = h\<lparr>hmem := fold (\<lambda>(i, b) m. m(p + i := b)) (enumerate 0 bs) (hmem h)\<rparr>"

definition heap_self_test :: "heap \<Rightarrow> heap result option" where
  "heap_self_test h =
     (let before = free_bytes h in
      bindO (new_block 8 8 h) (\<lambda>(boxed, h).
      let h = h\<lparr>hmem := store64 (hmem h) boxed 0xdeadbeef\<rparr> in
      bindO (new_block (8 * 1000) 8 h) (\<lambda>(v, h).
      let h = store_elems v [0..<1000] h;
          kept = filter (\<lambda>x. x mod 3 = 0) [0..<1000];
          h = store_elems v kept h;
          s = bytes_of ''heap strings work: '' in
      bindO (new_block (length s) 1 h) (\<lambda>(p, h).
      let h = store_text p s h in
      bindO (realloc p (length s) 1 (2 * length s) h) (\<lambda>(p, h).
      let h = store_text (p + length s) (bytes_of ''yes'') h;
          s = s @ bytes_of ''yes'' in
      bindO (Some (assertR (load64 (hmem h) boxed = 0xdeadbeef) ''assertion `left == right` failed'')) (\<lambda>_.
      bindO (Some (assertR (length kept = 334) ''assertion `left == right` failed'')) (\<lambda>_.
      bindO (Some (assertR (length s = 22) ''assertion `left == right` failed'')) (\<lambda>_.
      bindO (dealloc_inner p h) (\<lambda>h.
      bindO (dealloc_inner v h) (\<lambda>h.
      bindO (dealloc_inner boxed h) (\<lambda>h.
      bindO (Some (assertR (free_bytes h = before) ''heap leaked or lost bytes'')) (\<lambda>_.
      Some (Ok h)))))))))))))"

definition boot_heap :: "layout \<Rightarrow> 'd boot \<Rightarrow> 'd boot result option" where
  "boot_heap L s =
     bindO (Some (heap_init L (kheap s))) (\<lambda>h.
     bindO (heap_self_test h) (\<lambda>h.
     Some (Ok (kprintln (''  heap: '' @ dec (free_bytes h div 1024) @ '' KiB free, Box/Vec/String self-test ok'') (s\<lparr>kheap := h\<rparr>)))))"

definition boot_fs :: "('d, 'z) kernel_scheme \<Rightarrow> ('d, 'z) kernel_scheme result" where
  "boot_fs s =
     (let s = s\<lparr>files := fs_init (files s)\<rparr> in
      bindR (expectR (fs_lookup (bytes_of ''motd'') (files s)) ''motd missing'') (\<lambda>idx.
      let (buf, n) = read_at idx 0 (replicate 8 0) (files s) in
      bindR (assertR (take n buf = bytes_of ''welcome '') ''ramfs read returned wrong bytes'') (\<lambda>_.
      bindR (assertR (fs_lookup (bytes_of ''nonesuch'') (files s) = None) ''phantom file'') (\<lambda>_.
      Ok (kprintln (''  fs: ramfs mounted, '' @ dec (length (fs_list (files s))) @ '' files'') s)))))"

definition boot_devices :: "'d machine \<Rightarrow> ('d, 'z) kernel_scheme \<Rightarrow> ('d, 'z) kernel_scheme" where
  "boot_devices E s =
     kprintln (''  plic: routing uart irq '' @ dec (unat UART0_IRQ) @ '' to hart 0'')
       (s\<lparr>dev := enable_rx_interrupt E (plic_init_hart E (plic_init E (dev s)))\<rparr>)"

partial_function (option) wait_ticks :: "('s \<Rightarrow> 's result option) \<Rightarrow> ('s \<Rightarrow> usize) \<Rightarrow> usize \<Rightarrow> 's \<Rightarrow> 's result option" where
  "wait_ticks wfi now target s =
     (if now s < target
      then case wfi s of
             None \<Rightarrow> None
           | Some (Panic e) \<Rightarrow> Some (Panic e)
           | Some (Ok s) \<Rightarrow> wait_ticks wfi now target s
      else Some (Ok s))"

text \<open>A wait that ends with the timer's interrupt: the trap masks interrupts, and the return from it restores \<open>sstatus\<close>.\<close>

definition timer_wfi :: "'d machine \<Rightarrow> layout \<Rightarrow> images \<Rightarrow> trap_frame \<Rightarrow> 'd boot \<Rightarrow> 'd boot result option" where
  "timer_wfi E L P frame s =
     bindO (kerneltrap E L P 0 frame (s\<lparr>csr := (intr_off (csr s))\<lparr>scause := SCAUSE_INTERRUPT OR IRQ_S_TIMER\<rparr>\<rparr>)) (\<lambda>(_, t).
     Some (Ok (t\<lparr>csr := (csr t)\<lparr>sstatus := sstatus (csr s)\<rparr>\<rparr>)))"

definition boot_timer :: "'d machine \<Rightarrow> ('d boot \<Rightarrow> 'd boot result option) \<Rightarrow> 'd boot \<Rightarrow> 'd boot result option" where
  "boot_timer E wfi s =
     bindO (Some (timer_init E (dev s))) (\<lambda>d.
     let s = s\<lparr>dev := d, csr := intr_on (csr s)\<rparr> in
     bindO (Some (uadd (ticks s) 3)) (\<lambda>target.
     bindO (wait_ticks wfi ticks target s) (\<lambda>s.
     let (ms, d) = uptime_ms E (dev s) in
     Some (Ok (kprintln (''  timer: '' @ dec TICK_HZ @ '' Hz ticks running, uptime '' @ dec ms @ '' ms'') (s\<lparr>dev := d\<rparr>))))))"

text \<open>The threads, in the order they are started: a kernel thread, or a user process with its program.\<close>

definition boot_threads :: "(string \<times> program option) list" where
  "boot_threads =
     [(''ping'', None), (''pong'', None), (''busy0'', None), (''busy1'', None), (''monitor'', None),
      (''producer'', None), (''consumer'', None),
      (''u-greeter'', Some Greeter), (''u-trespasser'', Some Trespasser), (''u-badsys'', Some Badsys),
      (''u-uname'', Some Uname), (''u-catfile'', Some Catfile), (''u-heapgrow'', Some Heapgrow),
      (''u-forker'', Some Forker), (''u-forkexec'', Some Forkexec),
      (''init'', None)]"

fun boot_spawn :: "images \<Rightarrow> (string \<times> program option) \<times> usize \<Rightarrow> 'a sched_scheme \<Rightarrow> 'a sched_scheme result" where
  "boot_spawn P ((name, None), stk) s = bindR (spawn stk name (Kernel_body name) s) (\<lambda>(_, s). Ok s)"
| "boot_spawn P ((name, Some x), stk) s =
     bindR (image P x) (\<lambda>prog. bindR (spawn_user stk name prog s) (\<lambda>(_, s). Ok s))"

definition boot_spawns :: "images \<Rightarrow> usize list \<Rightarrow> 'a sched_scheme \<Rightarrow> 'a sched_scheme result" where
  "boot_spawns P stks s = foldR (boot_spawn P) (zip boot_threads stks) s"

text \<open>Lines 80 to 177: memory, the heap and the file system, each with its test.\<close>

definition boot_memory :: "layout \<Rightarrow> usize \<Rightarrow> 'd boot \<Rightarrow> 'd boot result option" where
  "boot_memory L dtb s =
     bindO (Some (dtb_reserved dtb s)) (\<lambda>(reserved, s).
     bindO (Some (boot_kalloc L reserved s)) (\<lambda>s.
     bindO (Some (kalloc_self_test L s)) (\<lambda>s.
     bindO (Some (vm_init L s)) (\<lambda>s.
     bindO (Some (vm_start_hart s)) (\<lambda>s.
     bindO (Some (vm_self_test L s)) (\<lambda>s.
     bindO (boot_heap L s) (\<lambda>s. Some (boot_fs s))))))))"

definition kmain :: "'d machine \<Rightarrow> layout \<Rightarrow> images \<Rightarrow> usize \<Rightarrow> trap_frame \<Rightarrow> ('d boot \<Rightarrow> 'd boot result option) \<Rightarrow>
    usize list \<Rightarrow> usize \<Rightarrow> usize \<Rightarrow> 'd boot \<Rightarrow> 'd boot result option" where
  "kmain E L P vec frame wfi stks hartid dtb s =
     bindO (Some (boot_banner E L hartid dtb s)) (\<lambda>s.
     bindO (boot_ebreak E L P frame (boot_traps vec s)) (\<lambda>s.
     bindO (boot_memory L dtb s) (\<lambda>s.
     bindO (boot_timer E wfi (boot_devices E s)) (\<lambda>s.
     bindO (Some (boot_spawns P stks s)) (\<lambda>s.
     Some (Ok (kprintln ''  proc: entering scheduler'' s)))))))"

text \<open>The panic handler, up to the loop that parks the hart.\<close>

definition panic_handler :: "string \<Rightarrow> ('d, 'z) kernel_scheme \<Rightarrow> ('d, 'z) kernel_scheme" where
  "panic_handler info s =
     kprint (NL # bytes_of (''!!! KERNEL PANIC: '' @ info) @ [NL]) (s\<lparr>csr := intr_off (csr s)\<rparr>)"

section \<open>The threads\<close>

function ping :: "string \<Rightarrow> nat \<Rightarrow> ('d, 'z) kernel_scheme \<Rightarrow> ((unit, nat) outcome \<times> ('d, 'z) kernel_scheme) result" where
  "ping name round s =
     (if round < 3 then
        bindR (current_pid s) (\<lambda>(i, s).
        bindR (yield_now (kprintln (''  thread '' @ name @ '' (pid '' @ dec i @ ''): round '' @ dec round) s)) (\<lambda>(out, s).
        case out of
          Switch _ \<Rightarrow> Ok (Switch round, s)
        | Return _ \<Rightarrow> ping name (round + 1) s))
      else Ok (Return (), s))"
  by pat_completeness auto
termination
  by (relation "measure (\<lambda>(name, round, s). 3 - round)") auto

declare ping.simps [simp del]

definition ping_back :: "string \<Rightarrow> nat \<Rightarrow> bool \<Rightarrow> ('d, 'z) kernel_scheme \<Rightarrow>
    ((unit, nat) outcome \<times> ('d, 'z) kernel_scheme) result" where
  "ping_back name round ie s = bindR (yield_back ie s) (ping name (round + 1))"

text \<open>One turn of the loop of \<open>busy0\<close> and \<open>busy1\<close>; \<open>None\<close> when it has ended.\<close>

definition busy_turn :: "nat \<Rightarrow> 'd boot \<Rightarrow> 'd boot option" where
  "busy_turn i s = (if STOP s then None else Some (s\<lparr>BUSY := (BUSY s)[i := wrapping_add (BUSY s ! i) 1]\<rparr>))"

definition monitor_check :: "'d boot \<Rightarrow> 'd boot result" where
  "monitor_check s =
     (let s = s\<lparr>STOP := True\<rparr>; b0 = BUSY s ! 0; b1 = BUSY s ! 1 in
      bindR (assertR (0 < b0 \<and> 0 < b1) ''a busy thread never ran'') (\<lambda>_.
      Ok (kprintln (''  proc: preemptive multitasking verified (busy0='' @ dec b0 @ '', busy1='' @ dec b1 @ '')'') s)))"

definition monitor_then :: "((unit, kont) outcome \<times> 'd boot) result \<Rightarrow> ((unit, kont) outcome \<times> 'd boot) result" where
  "monitor_then r =
     bindR r (\<lambda>(out, s).
     case out of
       Switch k \<Rightarrow> Ok (Switch k, s)
     | Return _ \<Rightarrow> bindR (monitor_check s) (\<lambda>s. Ok (Return (), s)))"

definition monitor :: "'d boot \<Rightarrow> ((unit, kont) outcome \<times> 'd boot) result" where
  "monitor s = monitor_then (sleep_ticks 20 s)"

definition monitor_back :: "usize \<Rightarrow> bool \<Rightarrow> 'd boot \<Rightarrow> ((unit, kont) outcome \<times> 'd boot) result" where
  "monitor_back target ie s = monitor_then (sleep_back target ie s)"

datatype init_kont = At_tick kont | In_shell shell_kont

definition init_check :: "'d boot \<Rightarrow> 'd boot result" where
  "init_check s =
     bindR (assertR (STOP s) ''monitor never ran'') (\<lambda>_.
     bindR (process_list s) (\<lambda>(ps, s).
     bindR (assertR (list_all (\<lambda>(_, name, _). name = ''init'') ps) ''threads failed to exit and be reaped'') (\<lambda>_.
     Ok (kprintln ''ALL BOOT TESTS PASSED'' (kprintln '''' s)))))"

definition init_then :: "'d machine \<Rightarrow> images \<Rightarrow> usize \<Rightarrow> ((unit, kont) outcome \<times> 'd boot) result \<Rightarrow> (init_kont \<times> 'd boot) result option" where
  "init_then E P stk r =
     bindO (Some r) (\<lambda>(out, s).
     case out of
       Switch k \<Rightarrow> Some (Ok (At_tick k, s))
     | Return _ \<Rightarrow>
         bindO (Some (init_check s)) (\<lambda>s.
         bindO (shell_main E P (kheap s) stk s) (\<lambda>(k, s). Some (Ok (In_shell k, s)))))"

definition init :: "'d machine \<Rightarrow> images \<Rightarrow> usize \<Rightarrow> 'd boot \<Rightarrow> (init_kont \<times> 'd boot) result option" where
  "init E P stk s = init_then E P stk (sleep_ticks 60 s)"

definition init_back :: "'d machine \<Rightarrow> images \<Rightarrow> usize \<Rightarrow> usize \<Rightarrow> bool \<Rightarrow> 'd boot \<Rightarrow> (init_kont \<times> 'd boot) result option" where
  "init_back E P stk target ie s = init_then E P stk (sleep_back target ie s)"

end
