(* ===== verification/Boot_Props.thy ===== *)
theory Boot_Props
  imports Boot
begin

text \<open>
  The boot sequence of \<open>Boot\<close> passes its own tests: on every memory layout the linker can produce, with or without a device
  tree, no assertion of the sections on pages, page tables, heap and files fails.  The threads it starts are all
  there when the scheduler takes over; \<open>Producer\<close> has the assertion of the channel test.
\<close>

section \<open>The tests\<close>

lemma kprintln_fields [simp]:
  "ram (kprintln t s) = ram s" "kernel_root (kprintln t s) = kernel_root s" "csr (kprintln t s) = csr s"
  "files (kprintln t s) = files s" "dev (kprintln t s) = dev s" "procs (kprintln t s) = procs s"
  "current (kprintln t s) = current s" "next_pid (kprintln t s) = next_pid s" "noff (kprintln t s) = noff s" "ticks (kprintln t s) = ticks s"
  by (simp_all add: kprintln_def kprint_def)

lemma kalloc_self_test_ok:
  assumes "kalloc_inv L (ram s)" and "2 \<le> length (free_list (ram s))"
  obtains m where "kalloc_self_test L s = Ok (kprintln ''  kalloc: alloc/free self-test ok'' (s\<lparr>ram := m\<rparr>))" and "kalloc_inv L m"
    and "set (free_list m) = set (free_list (ram s))" and "length (free_list m) = length (free_list (ram s))"
    and "\<forall>x<alloc_start L. mem m x = mem (ram s) x"
proof -
  obtain a b ps where fl: "free_list (ram s) = a # b # ps" using assms(2)
    by (cases "free_list (ram s)"; cases "tl (free_list (ram s))") auto
  from kmem.inv_distinct [OF assms(1)] kmem.inv_usable [OF assms(1)] have ab: "a \<noteq> b" "a \<notin> set ps" "b \<notin> set ps" "alloc_page L a" "alloc_page L b"
    by (auto simp: fl)
  from kmem.allocate_pop [OF assms(1) fl] obtain m1 where m1: "kalloc_alloc (ram s) = Ok (Some a, m1)" "kalloc_inv L m1"
    "free_list m1 = b # ps" "mem m1 = write_bytes (mem (ram s)) a 0 PAGE_SIZE" by blast
  from kmem.allocate_pop [OF m1(2,3)] obtain m2 where m2: "kalloc_alloc m1 = Ok (Some b, m2)" "kalloc_inv L m2"
    "free_list m2 = ps" "mem m2 = write_bytes (mem m1) b 0 PAGE_SIZE" by blast
  have z: "mem m2 (a + i) = 0" if "i < PAGE_SIZE" for i using that by (simp add: m2(4) m1(4) write_bytes_def)
  from kmem.release_push [OF m2(2) ab(4)] ab(2) m2(3) obtain m3 where m3: "kalloc_free L a m2 = Ok m3" "kalloc_inv L m3"
    "free_list m3 = a # ps" by auto
  from kmem.release_push [OF m3(2) ab(5)] ab m3(3) obtain m4 where m4: "kalloc_free L b m3 = Ok m4" "kalloc_inv L m4"
    "free_list m4 = b # a # ps" by auto
  have "list_all (\<lambda>i. mem m2 (a + i) = 0) [0..<PAGE_SIZE]" using z by (simp add: list_all_iff)
  moreover have "\<forall>x<alloc_start L. mem m4 x = mem (ram s) x"
    using kalloc_free_low [OF m3(1)] kalloc_free_low [OF m4(1)] ab(4,5) by (auto simp: m2(4) m1(4) write_bytes_def alloc_page_def)
  ultimately show thesis using m1(1) m2(1) m3(1) m4 ab(1) fl by (intro that [of m4]) (simp_all add: kalloc_self_test_def insert_commute)
qed

lemma vm_self_test_ok:
  assumes L: "layout_ok L" and I: "identity_map L (kernel_root s) (kernel_perm L) (ram s)"
  shows "vm_self_test L s = Ok (kprintln ''  vm: translation self-test ok'' s)"
proof -
  have T: "translate (kernel_root s) w (ram s) = Ok (Some (w, leaf_pte (w - w mod PAGE_SIZE) p))"
    if "kernel_perm L w = Some p" "w < PHYS_TOP" for w p
    using kernel_translate [OF I, of w] that by (simp add: memlayout_consts pte_pow)
  have perm: "kernel_perm L (text_start L) = Some (PTE_R OR PTE_X)" "kernel_perm L (rodata_start L) = Some PTE_R"
    "kernel_perm L (data_start L) = Some (PTE_R OR PTE_W)" "kernel_perm L UART0 = Some (PTE_R OR PTE_W)"
    "kernel_perm L 0x40000000 = None"
    using L by (auto simp: kernel_perm_def layout_ok_def memlayout_consts alloc_start_def heap_start_def)
  have b: "text_start L < PHYS_TOP" "rodata_start L < PHYS_TOP" "data_start L < PHYS_TOP" "UART0 < PHYS_TOP"
    using L by (auto simp: layout_ok_def memlayout_consts alloc_start_def heap_start_def)
  have hole: "translate (kernel_root s) 0x40000000 (ram s) = Ok None"
    using kernel_translate [OF I, of "0x40000000"] perm(5) by (simp add: pte_pow)
  note fl = leaf_pte_flags(2) [OF kernel_perms_ok(1)] leaf_pte_flags(2) [OF kernel_perms_ok(2)] leaf_pte_flags(2) [OF kernel_perms_ok(3)]
  have both: "e AND (PTE_W OR PTE_X) = 0 \<longleftrightarrow> e AND PTE_W = 0 \<and> e AND PTE_X = 0" for e
    by (auto simp: bit_eq_iff bit_and_iff bit_or_iff)
  show ?thesis
    by (simp add: vm_self_test_def translated_def both T [OF perm(1) b(1)] T [OF perm(2) b(2)] T [OF perm(3) b(3)] T [OF perm(4) b(4)] hole
        pte_test fl bit_or_iff bit_pte_flag)
qed

lemma boot_fs_ok:
  assumes "files s = fs_new"
  shows "boot_fs s = Ok (kprintln (''  fs: ramfs mounted, '' @ dec 3 @ '' files'') (s\<lparr>files := fs_init fs_new\<rparr>))"
proof -
  have "fs_lookup (bytes_of ''motd'') (fs_init fs_new) = Some 0" "fs_lookup (bytes_of ''nonesuch'') (fs_init fs_new) = None"
    by code_simp+
  moreover have "take (snd (read_at 0 0 (replicate 8 0) (fs_init fs_new))) (fst (read_at 0 0 (replicate 8 0) (fs_init fs_new))) = bytes_of ''welcome ''"
    by code_simp
  moreover have "length (fs_list (fs_init fs_new)) = 3" by code_simp
  ultimately show ?thesis using assms by (simp add: boot_fs_def case_prod_beta)
qed

text \<open>The heap test: each step follows the tiling, and the box keeps its value.\<close>

lemma new_block_run:
  assumes "heap_rel lo ts hi h" and "layout_valid \<lparr>layout_size = n, layout_align = al\<rparr>"
    and "heap_take \<lparr>layout_size = n, layout_align = al\<rparr> ts = Some (p, ts')"
  obtains h' where "new_block n al h = Some (Ok (p, h'))" and "heap_rel lo ts' hi h'" and "\<forall>x\<in>payload ts. hmem h' x = hmem h x"
proof -
  from kheap.allocate_Some [OF assms] obtain h' where h': "alloc_inner \<lparr>layout_size = n, layout_align = al\<rparr> h = Some (Ok (p, h'))"
    "heap_rel lo ts' hi h'" "\<forall>x\<in>payload ts. hmem h' x = hmem h x" by blast
  have "p \<noteq> 0" using assms by (elim heap_take_SomeD) auto
  with h' show thesis by (intro that [of h']) (simp_all add: new_block_def)
qed

lemma store_elems_outside: "x < p \<or> p + 8 * length vs \<le> x \<Longrightarrow> hmem (store_elems p vs h) x = hmem h x"
proof -
  have "fold (\<lambda>(i, v) m. store64 m (p + 8 * i) v) (enumerate k vs) m x = m x" if "x < p + 8 * k \<or> p + 8 * (k + length vs) \<le> x" for k m
    using that
  proof (induction vs arbitrary: k m)
    case (Cons v vs)
    then show ?case using Cons.IH [of "Suc k"] by (auto simp: store64_outside)
  qed simp
  from this [of 0] show "x < p \<or> p + 8 * length vs \<le> x \<Longrightarrow> hmem (store_elems p vs h) x = hmem h x" by (simp add: store_elems_def)
qed

lemma store_text_outside: "x < p \<or> p + length bs \<le> x \<Longrightarrow> hmem (store_text p bs h) x = hmem h x"
proof -
  have "fold (\<lambda>(i, b) m. m(p + i := b)) (enumerate k bs) m x = m x" if "x < p + k \<or> p + (k + length bs) \<le> x" for k m
    using that
  proof (induction bs arbitrary: k m)
    case (Cons b bs)
    then show ?case using Cons.IH [of "Suc k"] by auto
  qed simp
  from this [of 0] show "x < p \<or> p + length bs \<le> x \<Longrightarrow> hmem (store_text p bs h) x = hmem h x" by (simp add: store_text_def)
qed

text \<open>A run of the test is followed on a heap that starts at \<open>H\<close>, whose first tile is the box.\<close>

definition boxed_heap :: "usize \<Rightarrow> tile list \<Rightarrow> usize \<Rightarrow> heap \<Rightarrow> bool" where
  "boxed_heap H ts hi h \<longleftrightarrow> heap_rel H ((H, 32, Used (H + 16)) # ts) hi h \<and> load64 (hmem h) (H + 16) = 0xdeadbeef"

lemma boxed_keep:
  assumes "boxed_heap H ts hi h" and "heap_rel H ((H, 32, Used (H + 16)) # ts') hi h'"
    and "\<forall>x\<in>{H + 16..<H + 32}. hmem h' x = hmem h x"
  shows "boxed_heap H ts' hi h'"
proof -
  have "load64 (hmem h') (H + 16) = load64 (hmem h) (H + 16)" using assms(3) by (intro load64_cong) simp
  with assms(1,2) show ?thesis by (simp add: boxed_heap_def)
qed

lemma boxed_payload: "{H + 16..<H + 32} \<subseteq> payload ((H, 32, Used (H + 16)) # ts)"
proof
  fix x assume "x \<in> {H + 16..<H + 32}"
  then have "(H, 32, Used (H + 16)) \<in> set ((H, 32, Used (H + 16)) # ts) \<and> H + 16 \<le> x \<and> x < H + 32" by simp
  then show "x \<in> payload ((H, 32, Used (H + 16)) # ts)" unfolding payload_def by blast
qed

lemma boxed_block:
  assumes "boxed_heap H ts hi h" and "layout_valid \<lparr>layout_size = n, layout_align = al\<rparr>"
    and "heap_take \<lparr>layout_size = n, layout_align = al\<rparr> ((H, 32, Used (H + 16)) # ts) = Some (p, (H, 32, Used (H + 16)) # ts')"
  obtains h' where "new_block n al h = Some (Ok (p, h'))" and "boxed_heap H ts' hi h'"
proof -
  have R: "heap_rel H ((H, 32, Used (H + 16)) # ts) hi h" using assms(1) by (simp add: boxed_heap_def)
  obtain h' where h': "new_block n al h = Some (Ok (p, h'))" "heap_rel H ((H, 32, Used (H + 16)) # ts') hi h'"
    "\<forall>x\<in>payload ((H, 32, Used (H + 16)) # ts). hmem h' x = hmem h x" by (rule new_block_run [OF R assms(2,3)]) (rule that)
  then show thesis using boxed_keep [OF assms(1) h'(2)] boxed_payload [of H ts] by (intro that) blast+
qed

lemma boxed_write:
  assumes "boxed_heap H ts hi h" and "(a, n, Used p) \<in> set ts" and "\<And>x. x < p \<or> a + n \<le> x \<Longrightarrow> m x = hmem h x"
  shows "boxed_heap H ts hi (h\<lparr>hmem := m\<rparr>)"
proof -
  have R: "heap_rel H ((H, 32, Used (H + 16)) # ts) hi h" using assms(1) by (simp add: boxed_heap_def)
  have "x \<in> payload ((H, 32, Used (H + 16)) # ts)" if "p \<le> x" "x < a + n" for x using assms(2) that by (auto simp: payload_def)
  then have "heap_rel H ((H, 32, Used (H + 16)) # ts) hi (h\<lparr>hmem := m\<rparr>)"
    using assms(3) by (intro heap_rel_client [OF R]) (meson not_le)
  moreover have "H + 32 \<le> p"
  proof -
    have T: "tiling (H + 32) ts hi" "16 dvd H + 32" using R by (auto simp: heap_rel_def dvd_add)
    from tiling_mem [OF T(1) assms(2) T(2)] show ?thesis by simp
  qed
  ultimately show ?thesis using boxed_keep [OF assms(1), of ts "h\<lparr>hmem := m\<rparr>"] assms(3) by simp
qed

lemma boxed_release:
  assumes "boxed_heap H ts hi h" and "(a, n, Used p) \<in> set ts" and "dealloc_tiles p ((H, 32, Used (H + 16)) # ts) = (H, 32, Used (H + 16)) # ts'"
  obtains h' where "dealloc_inner p h = Some (Ok h')" and "boxed_heap H ts' hi h'"
proof -
  let ?t = "(H, 32, Used (H + 16))"
  have R: "heap_rel H (?t # ts) hi h" using assms(1) by (simp add: boxed_heap_def)
  then have "distinct (?t # ts)" unfolding heap_rel_def by (blast dest: tiling_distinct)
  then have ne: "?t \<noteq> (a, n, Used p)" using assms(2) by auto
  from kheap.release_Used [OF R, of a n p] assms(2,3) obtain h' where h': "dealloc_inner p h = Some (Ok h')" "heap_rel H (?t # ts') hi h'"
    "\<forall>x\<in>payload (filter (\<lambda>t. t \<noteq> (a, n, Used p)) (?t # ts)). hmem h' x = hmem h x" by auto
  then show thesis using boxed_keep [OF assms(1) h'(2)] boxed_payload [of H] ne by (intro that) (simp, simp, blast)
qed

lemma boxed_elems:
  assumes "boxed_heap H ts hi h" and "(a, n, Used p) \<in> set ts" and "p + 8 * length vs \<le> a + n"
  shows "boxed_heap H ts hi (store_elems p vs h)"
proof -
  have "store_elems p vs h = h\<lparr>hmem := hmem (store_elems p vs h)\<rparr>" by (simp add: store_elems_def)
  moreover have "hmem (store_elems p vs h) x = hmem h x" if "x < p \<or> a + n \<le> x" for x
    using store_elems_outside [of x p vs h] that assms(3) by linarith
  ultimately show ?thesis using boxed_write [OF assms(1,2), of "hmem (store_elems p vs h)"] by simp
qed

lemma boxed_text:
  assumes "boxed_heap H ts hi h" and "(a, n, Used p) \<in> set ts" and "p \<le> q" and "q + length bs \<le> a + n"
  shows "boxed_heap H ts hi (store_text q bs h)"
proof -
  have "store_text q bs h = h\<lparr>hmem := hmem (store_text q bs h)\<rparr>" by (simp add: store_text_def)
  moreover have "hmem (store_text q bs h) x = hmem h x" if "x < p \<or> a + n \<le> x" for x
    using store_text_outside [of x q bs h] that assms(3,4) by linarith
  ultimately show ?thesis using boxed_write [OF assms(1,2), of "hmem (store_text q bs h)"] by simp
qed

lemma round_up_16: "16 dvd x \<Longrightarrow> round_up x 16 = x"
  by (auto simp: round_up_def elim!: dvdE)

lemma test_layouts:
  "layout_valid \<lparr>layout_size = 8, layout_align = 8\<rparr>" "layout_valid \<lparr>layout_size = 8000, layout_align = 8\<rparr>"
  "layout_valid \<lparr>layout_size = 19, layout_align = 1\<rparr>" "layout_valid \<lparr>layout_size = 38, layout_align = 1\<rparr>"
proof -
  have "\<exists>k<64. (8 :: nat) = 2 ^ k" "\<exists>k<64. (1 :: nat) = 2 ^ k" by (intro exI [of _ 3], simp) (intro exI [of _ 0], simp)
  then show "layout_valid \<lparr>layout_size = 8, layout_align = 8\<rparr>" "layout_valid \<lparr>layout_size = 8000, layout_align = 8\<rparr>"
    "layout_valid \<lparr>layout_size = 19, layout_align = 1\<rparr>" "layout_valid \<lparr>layout_size = 38, layout_align = 1\<rparr>"
    by (simp_all add: layout_valid_def div_ceil_def)
qed

text \<open>The tiles of the test on a heap at \<open>H\<close>.\<close>

abbreviation box_tile :: "usize \<Rightarrow> tile" where "box_tile H \<equiv> (H, 32, Used (H + 16))"
abbreviation vec_tile :: "usize \<Rightarrow> tile" where "vec_tile H \<equiv> (H + 32, 8016, Used (H + 48))"
abbreviation old_tile :: "usize \<Rightarrow> tile" where "old_tile H \<equiv> (H + 8048, 48, Used (H + 8064))"
abbreviation str_tile :: "usize \<Rightarrow> tile" where "str_tile H \<equiv> (H + 8096, 64, Used (H + 8112))"

lemma test_rounding:
  assumes "16 dvd H"
  shows "round_up (H + 16) 16 = H + 16" "round_up (48 + H) 16 = 48 + H" "round_up (8064 + H) 16 = 8064 + H"
    "round_up (8112 + H) 16 = 8112 + H"
    "round_up 8 16 = 16" "round_up 8000 16 = 8000" "round_up 19 16 = 32" "round_up 38 16 = 48"
  using assms by (auto intro!: round_up_16 dvd_add) (simp_all add: round_up_def)

lemma test_take:
  assumes "16 dvd H"
  shows "heap_take \<lparr>layout_size = 8, layout_align = 8\<rparr> [(H, HEAP_SIZE, Free)] = Some (H + 16, [box_tile H, (H + 32, 0x7fffe0, Free)])"
    "heap_take \<lparr>layout_size = 8000, layout_align = 8\<rparr> [box_tile H, (H + 32, 0x7fffe0, Free)] =
       Some (H + 48, [box_tile H, vec_tile H, (H + 8048, 0x7fe090, Free)])"
    "heap_take \<lparr>layout_size = 19, layout_align = 1\<rparr> [box_tile H, vec_tile H, (H + 8048, 0x7fe090, Free)] =
       Some (H + 8064, [box_tile H, vec_tile H, old_tile H, (H + 8096, 0x7fe060, Free)])"
    "heap_take \<lparr>layout_size = 38, layout_align = 1\<rparr> [box_tile H, vec_tile H, old_tile H, (H + 8096, 0x7fe060, Free)] =
       Some (H + 8112, [box_tile H, vec_tile H, old_tile H, str_tile H, (H + 8160, 0x7fe020, Free)])"
  by (simp_all add: heap_take_def heap_need_def split_tile_def HEAP_SIZE_def Let_def test_rounding [OF assms])

lemma test_give:
  "dealloc_tiles (H + 8064) [box_tile H, vec_tile H, old_tile H, str_tile H, (H + 8160, 0x7fe020, Free)] =
     [box_tile H, vec_tile H, (H + 8048, 48, Free), str_tile H, (H + 8160, 0x7fe020, Free)]"
  "dealloc_tiles (H + 8112) [box_tile H, vec_tile H, (H + 8048, 48, Free), str_tile H, (H + 8160, 0x7fe020, Free)] =
     [box_tile H, vec_tile H, (H + 8048, 0x7fe090, Free)]"
  "dealloc_tiles (H + 48) [box_tile H, vec_tile H, (H + 8048, 0x7fe090, Free)] = [box_tile H, (H + 32, 0x7fffe0, Free)]"
  "dealloc_tiles (H + 16) [box_tile H, (H + 32, 0x7fffe0, Free)] = [(H, HEAP_SIZE, Free)]"
  by (simp_all add: dealloc_tiles_def HEAP_SIZE_def)

text \<open>Allocating and releasing, with the box in place.\<close>

lemma test_fill:
  assumes R: "heap_rel H [(H, HEAP_SIZE, Free)] hi h"
  obtains h1 h2 h3 where "new_block 8 8 h = Some (Ok (H + 16, h1))"
    and "new_block 8000 8 (h1\<lparr>hmem := store64 (hmem h1) (H + 16) 0xdeadbeef\<rparr>) = Some (Ok (H + 48, h2))"
    and "new_block 19 1 (store_elems (H + 48) (filter (\<lambda>x. x mod 3 = 0) [0..<1000]) (store_elems (H + 48) [0..<1000] h2)) = Some (Ok (H + 8064, h3))"
    and "boxed_heap H [vec_tile H, old_tile H, (H + 8096, 0x7fe060, Free)] hi h3"
proof -
  have al: "16 dvd H" using R by (simp add: heap_rel_def)
  note tk = test_take [OF al]
  obtain h1 where h1: "new_block 8 8 h = Some (Ok (H + 16, h1))" "heap_rel H [box_tile H, (H + 32, 0x7fffe0, Free)] hi h1"
    by (rule new_block_run [OF R test_layouts(1) tk(1)]) (rule that)
  let ?h1 = "h1\<lparr>hmem := store64 (hmem h1) (H + 16) 0xdeadbeef\<rparr>"
  have "store64 (hmem h1) (H + 16) 0xdeadbeef x = hmem h1 x" if "x \<notin> payload [box_tile H, (H + 32, 0x7fffe0, Free)]" for x
  proof -
    have "x \<notin> {H + 16..<H + 32}" using boxed_payload [of H "[(H + 32, 0x7fffe0, Free)]"] that by blast
    then show ?thesis by (intro store64_outside) auto
  qed
  from heap_rel_client [OF h1(2) this] have "heap_rel H [box_tile H, (H + 32, 0x7fffe0, Free)] hi ?h1" by simp
  then have b1: "boxed_heap H [(H + 32, 0x7fffe0, Free)] hi ?h1" by (simp add: boxed_heap_def load64_store64 usize_max_eq)
  obtain h2 where h2: "new_block 8000 8 ?h1 = Some (Ok (H + 48, h2))" "boxed_heap H [vec_tile H, (H + 8048, 0x7fe090, Free)] hi h2"
    by (rule boxed_block [OF b1 test_layouts(2) tk(2)]) (rule that)
  have "length (filter (\<lambda>x. x mod 3 = 0) [0..<1000]) \<le> 1000" using length_filter_le [of _ "[0..<1000]"] by simp
  then have b2: "boxed_heap H [vec_tile H, (H + 8048, 0x7fe090, Free)] hi
      (store_elems (H + 48) (filter (\<lambda>x. x mod 3 = 0) [0..<1000]) (store_elems (H + 48) [0..<1000] h2))"
    by (intro boxed_elems [OF boxed_elems [OF h2(2)], where p1 = "H + 48"]) auto
  show thesis by (rule boxed_block [OF b2 test_layouts(3) tk(3)]) (rule that [OF h1(1) h2(1)])
qed

lemma test_drain:
  assumes "boxed_heap H [vec_tile H, (H + 8048, 48, Free), str_tile H, (H + 8160, 0x7fe020, Free)] hi h"
  obtains h1 h2 h3 where "dealloc_inner (H + 8112) h = Some (Ok h1)" and "dealloc_inner (H + 48) h1 = Some (Ok h2)"
    and "dealloc_inner (H + 16) h2 = Some (Ok h3)" and "heap_rel H [(H, HEAP_SIZE, Free)] hi h3"
proof -
  obtain h1 where h1: "dealloc_inner (H + 8112) h = Some (Ok h1)" "boxed_heap H [vec_tile H, (H + 8048, 0x7fe090, Free)] hi h1"
    by (rule boxed_release [OF assms _ test_give(2)]) (auto intro: that)
  obtain h2 where h2: "dealloc_inner (H + 48) h1 = Some (Ok h2)" "boxed_heap H [(H + 32, 0x7fffe0, Free)] hi h2"
    by (rule boxed_release [OF h1(2) _ test_give(3)]) (auto intro: that)
  then have "heap_rel H [box_tile H, (H + 32, 0x7fffe0, Free)] hi h2" by (simp add: boxed_heap_def)
  from kheap.release_Used [OF this, of H 32 "H + 16"] test_give(4) [of H] obtain h3 where "dealloc_inner (H + 16) h2 = Some (Ok h3)"
    "heap_rel H [(H, HEAP_SIZE, Free)] hi h3" by auto
  then show thesis using h1(1) h2(1) by (intro that)
qed

lemma heap_rel_free_bytes: "heap_rel lo [(a, n, Free)] hi h \<Longrightarrow> free_bytes h = n"
  by (simp add: heap_rel_def free_bytes_def)

lemma length_multiples: "length (filter (\<lambda>x. x mod 3 = 0) [0..<n]) = (n + 2) div 3"
proof (induction n)
  case (Suc n)
  have "(Suc n + 2) div 3 = (n + 2) div 3 + (if n mod 3 = 0 then 1 else 0)" by presburger
  with Suc show ?case by simp
qed simp

lemma heap_self_test_ok:
  assumes R: "heap_rel H [(H, HEAP_SIZE, Free)] hi h"
  obtains h' where "heap_self_test h = Some (Ok h')" and "heap_rel H [(H, HEAP_SIZE, Free)] hi h'"
proof -
  let ?kept = "filter (\<lambda>x. x mod 3 = 0) [0..<1000] :: nat list"
  let ?s = "bytes_of ''heap strings work: ''"
  have al: "16 dvd H" using R by (simp add: heap_rel_def)
  obtain h1 h2 h3 where f: "new_block 8 8 h = Some (Ok (H + 16, h1))"
    "new_block 8000 8 (h1\<lparr>hmem := store64 (hmem h1) (H + 16) 0xdeadbeef\<rparr>) = Some (Ok (H + 48, h2))"
    "new_block 19 1 (store_elems (H + 48) ?kept (store_elems (H + 48) [0..<1000] h2)) = Some (Ok (H + 8064, h3))"
    and b3: "boxed_heap H [vec_tile H, old_tile H, (H + 8096, 0x7fe060, Free)] hi h3" by (rule test_fill [OF R]) (rule that)
  let ?h3 = "store_text (H + 8064) ?s h3"
  have len: "length ?s = 19" "length (bytes_of ''yes'') = 3" "length (?s @ bytes_of ''yes'') = 22" by simp_all
  have sz: "(8 :: nat) * 1000 = 8000" "(2 :: nat) * 19 = 38" by simp_all
  have b: "boxed_heap H [vec_tile H, old_tile H, (H + 8096, 0x7fe060, Free)] hi ?h3"
    by (rule boxed_text [OF b3, where a = "H + 8048" and n = 48 and p = "H + 8064"]) (auto simp: len)
  obtain h4 where h4: "new_block 38 1 ?h3 = Some (Ok (H + 8112, h4))"
    "boxed_heap H [vec_tile H, old_tile H, str_tile H, (H + 8160, 0x7fe020, Free)] hi h4"
    by (rule boxed_block [OF b test_layouts(4) test_take(4) [OF al]]) (rule that)
  let ?h4 = "h4\<lparr>hmem := copy_nonoverlapping (hmem h4) (H + 8064) (H + 8112) 19\<rparr>"
  have "boxed_heap H [vec_tile H, old_tile H, str_tile H, (H + 8160, 0x7fe020, Free)] hi ?h4"
    by (rule boxed_write [OF h4(2), where a = "H + 8096" and n = 64 and p = "H + 8112"]) (auto simp: copy_nonoverlapping_def)
  then obtain h5 where h5: "dealloc_inner (H + 8064) ?h4 = Some (Ok h5)"
    "boxed_heap H [vec_tile H, (H + 8048, 48, Free), str_tile H, (H + 8160, 0x7fe020, Free)] hi h5"
    by (rule boxed_release [OF _ _ test_give(1)]) (auto intro: that)
  let ?h5 = "store_text (H + 8112 + 19) (bytes_of ''yes'') h5"
  have b5: "boxed_heap H [vec_tile H, (H + 8048, 48, Free), str_tile H, (H + 8160, 0x7fe020, Free)] hi ?h5"
    by (rule boxed_text [OF h5(2), where a = "H + 8096" and n = 64 and p = "H + 8112"]) (auto simp: len)
  obtain h6 h7 h8 where d: "dealloc_inner (H + 8112) ?h5 = Some (Ok h6)" "dealloc_inner (H + 48) h6 = Some (Ok h7)"
    "dealloc_inner (H + 16) h7 = Some (Ok h8)" "heap_rel H [(H, HEAP_SIZE, Free)] hi h8" by (rule test_drain [OF b5]) (rule that)
  have kept: "length ?kept = 334" using length_multiples [of 1000] by simp
  have box: "load64 (hmem ?h5) (H + 16) = 0xdeadbeef" using b5 by (simp add: boxed_heap_def)
  have re: "realloc (H + 8064) 19 1 38 ?h3 = Some (Ok (H + 8112, h5))" using h4(1) h5(1) by (simp add: realloc_def)
  show thesis
    by (rule that [of h8])
      (simp_all only: heap_self_test_def Let_def f re box kept d bindO.simps prod.case len sz simp_thms
        assertR_def if_True heap_rel_free_bytes [OF R] heap_rel_free_bytes [OF d(4)])
qed

section \<open>The boot sequence\<close>

text \<open>What the device tree specification promises of a header with the right magic number, and the region it describes.\<close>

definition dtb_size :: "memory \<Rightarrow> usize \<Rightarrow> usize option" where
  "dtb_size m dtb =
     (if DRAM_BASE \<le> dtb \<and> from_be (load32 m dtb) = 0xd00dfeed then Some (from_be (load32 m (dtb + 4))) else None)"

definition dtb_ok :: "memory \<Rightarrow> usize \<Rightarrow> bool" where
  "dtb_ok m dtb \<longleftrightarrow> (case dtb_size m dtb of None \<Rightarrow> True
     | Some n \<Rightarrow> 0 < n \<and> n \<le> 256 * PAGE_SIZE \<and> dtb + n + PAGE_SIZE \<le> usize_max)"

definition off_dtb :: "memory \<Rightarrow> usize \<Rightarrow> usize \<Rightarrow> bool" where
  "off_dtb m dtb p \<longleftrightarrow> (case dtb_size m dtb of None \<Rightarrow> True | Some n \<Rightarrow> dtb + n \<le> p \<or> p + PAGE_SIZE \<le> dtb)"

lemma boot_pages:
  assumes L: "layout_ok L" and room: "alloc_start L + 512 * PAGE_SIZE \<le> PHYS_TOP" and s: "ram s = kmem_new m" and d: "dtb_ok m dtb"
  obtains r t p t' where "dtb_reserved dtb s = Ok (r, kprintln t s)"
    and "boot_kalloc L r (kprintln t s) = Ok (kprintln t' ((kprintln t s)\<lparr>ram := p\<rparr>))" and "kalloc_inv L p" and "254 \<le> length (free_list p)"
    and "\<forall>x<alloc_start L. mem p x = m x" and "\<forall>q\<in>set (free_list p). off_dtb m dtb q"
proof -
  have low: "\<forall>x<alloc_start L. mem p x = m x" if "kalloc_init L r (kmem_new m) = Ok p" for r p
    using kalloc_init_low [OF that] by (simp add: kmem_new_def)
  have start: "\<exists>t'. boot_kalloc L r (kprintln t s) = Ok (kprintln t' ((kprintln t s)\<lparr>ram := p\<rparr>))"
    if "kalloc_init L r (kmem_new m) = Ok p" "kalloc_inv L p" for r t p
  proof -
    have "free_pages p \<le> PHYS_TOP" using free_list_bound [OF that(2)] by (simp add: length_free_list)
    then have "free_pages p * PAGE_SIZE \<le> usize_max" by (simp add: memlayout_consts usize_max_eq)
    then show ?thesis using that(1) s by (auto simp: boot_kalloc_def)
  qed
  show thesis
  proof (cases "dtb_size m dtb")
    case None
    then obtain t where t: "dtb_reserved dtb s = Ok (None, kprintln t s)" using s
      by (auto simp: dtb_reserved_def dtb_size_def kmem_new_def split: if_splits)
    obtain p where p: "kalloc_init L None (kmem_new m) = Ok p" "kalloc_inv L p" "512 \<le> length (free_list p)"
      using kalloc_boot [OF L room] by blast
    from start [OF p(1,2), of t] obtain t' where "boot_kalloc L None (kprintln t s) = Ok (kprintln t' ((kprintln t s)\<lparr>ram := p\<rparr>))" by blast
    with t p(2,3) low [OF p(1)] None show thesis by (intro that [of None t t' p]) (simp_all add: off_dtb_def)
  next
    case (Some n)
    then have n: "0 < n" "n \<le> 256 * PAGE_SIZE" "dtb + n + PAGE_SIZE \<le> usize_max" using d by (auto simp: dtb_ok_def)
    from Some have "DRAM_BASE \<le> dtb" "from_be (load32 m dtb) = 0xd00dfeed" "n = from_be (load32 m (dtb + 4))" by (auto simp: dtb_size_def split: if_splits)
    then obtain t where t: "dtb_reserved dtb s = Ok (Some (dtb, dtb + n), kprintln t s)" using s n
      by (auto simp: dtb_reserved_def kmem_new_def PAGE_SIZE_def Let_def)
    have r: "alloc_start L + (254 + 258) * PAGE_SIZE \<le> PHYS_TOP" using room by simp
    obtain p where p: "kalloc_init L (Some (dtb, dtb + n)) (kmem_new m) = Ok p" "kalloc_inv L p" "254 \<le> length (free_list p)"
      and f: "set (free_list p) = {q. alloc_page L q \<and> (dtb + n \<le> q \<or> q + PAGE_SIZE \<le> dtb)}"
      by (rule kalloc_init_room [OF L _ _ n(3) r, of dtb m]) (use n in \<open>auto intro: that\<close>)
    from start [OF p(1,2), of t] obtain t' where "boot_kalloc L (Some (dtb, dtb + n)) (kprintln t s) = Ok (kprintln t' ((kprintln t s)\<lparr>ram := p\<rparr>))" by blast
    with t p(2,3) low [OF p(1)] f Some show thesis by (intro that [of "Some (dtb, dtb + n)" t t' p]) (simp_all add: off_dtb_def)
  qed
qed

lemma kprintln_exI: "\<exists>c. kprintln t s = s\<lparr>console := c\<rparr>"
  by (auto simp: kprintln_def kprint_def)

lemma boot_tables:
  assumes L: "layout_ok L" and "kalloc_inv L (ram s)" and "254 \<le> length (free_list (ram s))"
  obtains s1 s2 s3 c r q where "kalloc_self_test L s = Ok s1" and "vm_init L s1 = Ok s2" and "vm_start_hart s2 = Ok s3"
    and "vm_self_test L s3 = Ok (s\<lparr>ram := q, kernel_root := r, csr := (csr s)\<lparr>satp := SATP_SV39 OR ushr r 12\<rparr>, console := c\<rparr>)"
    and "kspace L r q" and "kernel_private (mem q) r" and "page_aligned r" and "r < 2 ^ 56" and "103 \<le> length (free_list q)" and "low_same L (ram s) q"
proof -
  obtain p where p: "kalloc_self_test L s = Ok (kprintln ''  kalloc: alloc/free self-test ok'' (s\<lparr>ram := p\<rparr>))" "kalloc_inv L p"
    "length (free_list p) = length (free_list (ram s))" and lp: "low_same L (ram s) p"
    by (rule kalloc_self_test_ok [OF assms(2)]) (use assms(3) in \<open>auto simp: low_same_def\<close>)
  obtain r q where k: "kvmmake L p = Ok (r, q)" "identity_map L r (kernel_perm L) q" "alloc_page L r"
    "length (free_list p) \<le> length (free_list q) + 151" "low_same L p q"
    by (rule kvmmake_identity [OF L p(2)]) (use p(3) assms(3) in auto)
  have r: "r \<noteq> 0" "page_aligned r" "r < 2 ^ 56" using k(3) by (auto simp: alloc_page_def alloc_start_def memlayout_consts)
  let ?s2 = "(kprintln ''  kalloc: alloc/free self-test ok'' (s\<lparr>ram := p\<rparr>))\<lparr>ram := q, kernel_root := r\<rparr>"
  let ?s3 = "kprintln (''  vm: sv39 paging on (root table '' @ hex r @ '')'') (?s2\<lparr>csr := (csr s)\<lparr>satp := SATP_SV39 OR ushr r 12\<rparr>\<rparr>)"
  have 2: "vm_init L (kprintln ''  kalloc: alloc/free self-test ok'' (s\<lparr>ram := p\<rparr>)) = Ok ?s2" using k(1) by (simp add: vm_init_def)
  have 3: "vm_start_hart ?s2 = Ok ?s3" using r(1) by (simp add: vm_start_hart_def vm_init_hart_def switch_to_def)
  have "vm_self_test L ?s3 = Ok (kprintln ''  vm: translation self-test ok'' ?s3)" by (rule vm_self_test_ok [OF L]) (use k(2) in simp)
  moreover obtain c where "kprintln ''  vm: translation self-test ok'' ?s3 =
      s\<lparr>ram := q, kernel_root := r, csr := (csr s)\<lparr>satp := SATP_SV39 OR ushr r 12\<rparr>, console := c\<rparr>" by (simp add: kprintln_def kprint_def)
  ultimately show thesis using identity_kspace [OF L k(2)] r k(4) p(3) assms(3) low_same_trans [OF lp k(5)]
    by (intro that [OF p(1) 2 3]) simp_all
qed

text \<open>The state after the tests, and what is known of its memory.\<close>

lemma boot_memory_run:
  assumes "layout_ok L" and "alloc_start L + 512 * PAGE_SIZE \<le> PHYS_TOP" and "ram s = kmem_new m" and "dtb_ok m dtb"
    and "heap_head (kheap s) = 0" and "files s = fs_new"
  obtains q r c h where "boot_memory L dtb s = Some (Ok (s\<lparr>ram := q, kernel_root := r, csr := (csr s)\<lparr>satp := SATP_SV39 OR ushr r 12\<rparr>,
      kheap := h, files := fs_init fs_new, console := c\<rparr>))"
    and "kspace L r q" and "kernel_private (mem q) r" and "page_aligned r" and "r < 2 ^ 56" and "103 \<le> length (free_list q)"
    and "\<forall>x<alloc_start L. mem q x = m x" and "\<forall>p\<in>set (free_list q). off_dtb m dtb p"
    and "heap_rel (heap_start L) [(heap_start L, HEAP_SIZE, Free)] (alloc_start L) h"
proof -
  obtain res t p t' where 1: "dtb_reserved dtb s = Ok (res, kprintln t s)"
    "boot_kalloc L res (kprintln t s) = Ok (kprintln t' ((kprintln t s)\<lparr>ram := p\<rparr>))" and p: "kalloc_inv L p" "254 \<le> length (free_list p)"
    "\<forall>x<alloc_start L. mem p x = m x" "\<forall>q\<in>set (free_list p). off_dtb m dtb q" by (rule boot_pages [OF assms(1-4)]) (rule that)
  obtain c0 where s0: "kprintln t' ((kprintln t s)\<lparr>ram := p\<rparr>) = s\<lparr>ram := p, console := c0\<rparr>" by (simp add: kprintln_def kprint_def)
  let ?s = "s\<lparr>ram := p, console := c0\<rparr>"
  have ps: "kalloc_inv L (ram ?s)" "254 \<le> length (free_list (ram ?s))" using p by simp_all
  obtain s1 s2 s3 c r q where 2: "kalloc_self_test L ?s = Ok s1" "vm_init L s1 = Ok s2" "vm_start_hart s2 = Ok s3"
    "vm_self_test L s3 = Ok (?s\<lparr>ram := q, kernel_root := r, csr := (csr ?s)\<lparr>satp := SATP_SV39 OR ushr r 12\<rparr>, console := c\<rparr>)" (is "_ = Ok ?s4")
    and k: "kspace L r q" "kernel_private (mem q) r" "page_aligned r" "r < 2 ^ 56" "103 \<le> length (free_list q)" "low_same L (ram ?s) q"
    by (rule boot_tables [OF assms(1) ps]) (rule that)
  from heap_init_run [OF assms(1,5)] obtain h where h: "heap_init L (kheap s) = Ok h"
    "heap_rel (heap_start L) [(heap_start L, HEAP_SIZE, Free)] (alloc_start L) h" by blast
  obtain h' where h': "heap_self_test h = Some (Ok h')" "heap_rel (heap_start L) [(heap_start L, HEAP_SIZE, Free)] (alloc_start L) h'"
    by (rule heap_self_test_ok [OF h(2)]) (rule that)
  obtain u where 3: "boot_heap L ?s4 = Some (Ok (kprintln u (?s4\<lparr>kheap := h'\<rparr>)))" using h(1) h'(1) by (simp add: boot_heap_def)
  have 4: "boot_fs (kprintln u (?s4\<lparr>kheap := h'\<rparr>)) = Ok (kprintln (''  fs: ramfs mounted, '' @ dec 3 @ '' files'')
      ((kprintln u (?s4\<lparr>kheap := h'\<rparr>))\<lparr>files := fs_init fs_new\<rparr>))" (is "_ = Ok ?s'") by (rule boot_fs_ok) (use assms(6) in simp)
  obtain c' where "?s' = s\<lparr>ram := q, kernel_root := r, csr := (csr s)\<lparr>satp := SATP_SV39 OR ushr r 12\<rparr>, kheap := h', files := fs_init fs_new, console := c'\<rparr>"
    by (simp add: kprintln_def kprint_def)
  then have "boot_memory L dtb s = Some (Ok (s\<lparr>ram := q, kernel_root := r, csr := (csr s)\<lparr>satp := SATP_SV39 OR ushr r 12\<rparr>,
      kheap := h', files := fs_init fs_new, console := c'\<rparr>))" using 1 [unfolded s0] 2 3 4 by (simp add: boot_memory_def)
  moreover have "\<forall>x<alloc_start L. mem q x = m x" "\<forall>a\<in>set (free_list q). off_dtb m dtb a" using k(6) p(3,4) by (auto simp: low_same_def)
  ultimately show thesis using k(1-5) h'(2) by (intro that)
qed

section \<open>Starting the threads\<close>

lemma spawn_with_run:
  assumes "irq_idle s" and "stk + KSTACK_SIZE \<le> usize_max"
  shows "\<exists>n s'. spawn_with stk name e cfg s = Ok (n, s')"
proof -
  let ?s = "s\<lparr>next_pid := wrapping_add (next_pid s) 1\<rparr>"
  have ok: "irq_ok ?s" "Suc (noff ?s) < usize_max" using assms(1) by (simp_all add: irq_idle_def irq_ok_def usize_max_eq)
  have "pop_off ((push_off ?s)\<lparr>procs := x\<rparr>) = Ok ((push_off ?s)\<lparr>procs := x, csr := csr s, noff := noff s\<rparr>)" for x
    by (subst pop_pushed [OF ok]) simp_all
  then show ?thesis using assms(2) push_off_ok(2) [OF ok] by (simp add: spawn_with_def Let_def sched_data_def)
qed

text \<open>A process as \<open>kmain\<close> leaves it, and the state after the threads \<open>ts\<close>.\<close>

definition boot_proc :: "layout \<Rightarrow> images \<Rightarrow> memory \<Rightarrow> 'a sched_scheme \<Rightarrow> nat \<Rightarrow> string \<times> program option \<Rightarrow> process \<Rightarrow> bool" where
  "boot_proc L P m0 s i t p \<longleftrightarrow> pid p = Suc i \<and> pname p = fst t \<and> pstate p = Runnable \<and>
     (case snd t of
        None \<Rightarrow> user_table p = None
      | Some x \<Rightarrow> (\<exists>r. user_table p = Some r \<and> aspace L (kernel_root s) r (ram s) \<and>
          uview (mem (ram s)) r = image_view m0 (fst (P x)) (snd (P x) - fst (P x))))"

definition apart :: "process option list \<Rightarrow> memory \<Rightarrow> bool" where
  "apart ps m \<longleftrightarrow> (\<forall>i<length ps. \<forall>j<length ps. i \<noteq> j \<longrightarrow> (\<forall>p q r r'. ps ! i = Some p \<longrightarrow> ps ! j = Some q \<longrightarrow>
     user_table p = Some r \<longrightarrow> user_table q = Some r' \<longrightarrow> owned m r \<inter> owned m r' = {}))"

definition started :: "layout \<Rightarrow> images \<Rightarrow> memory \<Rightarrow> (string \<times> program option) list \<Rightarrow> 'a sched_scheme \<Rightarrow> bool" where
  "started L P m0 ts s \<longleftrightarrow> sched_inv s \<and> kspace L (kernel_root s) (ram s) \<and> kernel_private (mem (ram s)) (kernel_root s) \<and> length (procs s) = length ts \<and> next_pid s = Suc (length ts) \<and>
     (\<forall>i<length ts. \<exists>p. procs s ! i = Some p \<and> boot_proc L P m0 s i (ts ! i) p) \<and> apart (procs s) (mem (ram s)) \<and>
     (\<forall>a<alloc_start L. mem (ram s) a = m0 a)"

lemma apart_add:
  assumes "apart ps m" and "\<And>p r. Some p \<in> set ps \<Longrightarrow> user_table p = Some r \<Longrightarrow> owned m' r = owned m r"
    and "\<And>p r r'. Some p \<in> set ps \<Longrightarrow> user_table p = Some r \<Longrightarrow> user_table q = Some r' \<Longrightarrow> owned m' r \<inter> owned m' r' = {}"
  shows "apart (ps @ [Some q]) m'"
  unfolding apart_def
proof (intro allI impI)
  fix i j p p' r r' assume a: "i < length (ps @ [Some q])" "j < length (ps @ [Some q])" "i \<noteq> j" "(ps @ [Some q]) ! i = Some p" "(ps @ [Some q]) ! j = Some p'"
    "user_table p = Some r" "user_table p' = Some r'"
  consider "i < length ps" "j < length ps" | "i < length ps" "j = length ps" | "i = length ps" "j < length ps" using a(1-3) by force
  then show "owned m' r \<inter> owned m' r' = {}"
  proof cases
    case 1
    then have "Some p \<in> set ps" "Some p' \<in> set ps" using a(4,5) by (metis nth_append nth_mem)+
    then show ?thesis using assms(1) assms(2) 1 a(3-7) unfolding apart_def by (simp add: nth_append)
  next
    case 2
    then have "Some p \<in> set ps" "p' = q" using a(4,5) by (auto simp: nth_append in_set_conv_nth)
    with assms(3) a(6,7) show ?thesis by blast
  next
    case 3
    then have "Some p' \<in> set ps" "p = q" using a(4,5) by (auto simp: nth_append in_set_conv_nth)
    with assms(3) [of p' r' r] a(6,7) show ?thesis by blast
  qed
qed

lemma started_add:
  assumes S: "started L P m0 ts s" and I: "sched_inv s'" and s': "procs s' = procs s @ [Some q]" "next_pid s' = Suc (next_pid s)" "kernel_root s' = kernel_root s"
    and K: "kspace L (kernel_root s) (ram s')" "kernel_private (mem (ram s')) (kernel_root s)" and low: "\<And>a. a < alloc_start L \<Longrightarrow> mem (ram s') a = mem (ram s) a"
    and keep: "\<And>r. aspace L (kernel_root s) r (ram s) \<Longrightarrow> aspace L (kernel_root s) r (ram s') \<and>
      uview (mem (ram s')) r = uview (mem (ram s)) r \<and> owned (mem (ram s')) r = owned (mem (ram s)) r"
    and new: "boot_proc L P m0 s' (length ts) t q"
    and fresh: "\<And>r r'. aspace L (kernel_root s) r (ram s) \<Longrightarrow> user_table q = Some r' \<Longrightarrow> owned (mem (ram s')) r \<inter> owned (mem (ram s')) r' = {}"
  shows "started L P m0 (ts @ [t]) s'"
proof -
  have A: "aspace L (kernel_root s) r (ram s)" if "Some p \<in> set (procs s)" "user_table p = Some r" for p r
  proof -
    from that(1) obtain i where "i < length ts" "procs s ! i = Some p" using S by (auto simp: started_def in_set_conv_nth)
    with S that(2) show ?thesis by (fastforce simp: started_def boot_proc_def split: option.splits)
  qed
  have "\<exists>p. procs s' ! i = Some p \<and> boot_proc L P m0 s' i ((ts @ [t]) ! i) p" if i: "i < Suc (length ts)" for i
  proof (cases "i = length ts")
    case True
    then show ?thesis using S new by (simp add: s'(1) started_def nth_append)
  next
    case False
    with i have "i < length ts" by simp
    then obtain p where p: "procs s ! i = Some p" "boot_proc L P m0 s i (ts ! i) p" using S by (auto simp: started_def)
    then have "boot_proc L P m0 s' i (ts ! i) p" using keep s'(3) by (auto simp: boot_proc_def split: option.splits)
    with p(1) \<open>i < length ts\<close> S show ?thesis by (simp add: s'(1) started_def nth_append)
  qed
  moreover have "apart (procs s') (mem (ram s'))"
    unfolding s'(1) by (rule apart_add [of _ "mem (ram s)"]) (use S A keep fresh in \<open>auto simp: started_def\<close>)
  ultimately show ?thesis using S I K low s' unfolding started_def by simp
qed

definition spawn_only :: "'a sched_scheme \<Rightarrow> 'a sched_scheme \<Rightarrow> bool" where
  "spawn_only s s' \<longleftrightarrow> (\<exists>m n ps b. s' = s\<lparr>ram := m, next_pid := n, procs := ps, intena := b\<rparr>) \<and>
     set (free_list (ram s')) \<subseteq> set (free_list (ram s))"

lemma spawn_only_trans:
  assumes "spawn_only s s1" and "spawn_only s1 s2"
  shows "spawn_only s s2"
proof -
  from assms obtain m n ps b m' n' ps' b' where "s1 = s\<lparr>ram := m, next_pid := n, procs := ps, intena := b\<rparr>"
    "s2 = s1\<lparr>ram := m', next_pid := n', procs := ps', intena := b'\<rparr>" unfolding spawn_only_def by blast
  then have "s2 = s\<lparr>ram := m', next_pid := n', procs := ps', intena := b'\<rparr>" by simp
  with assms show ?thesis unfolding spawn_only_def by blast
qed

lemma spawned:
  assumes "sched_inv s" and "None \<notin> set (procs s)" and "next_pid s < usize_max" and "stk + KSTACK_SIZE \<le> usize_max" and "cfg_ok (kernel_root s) cfg"
  obtains top c s' where "spawn_with stk name e cfg s = Ok (next_pid s, s')" and "sched_inv s'"
    and "procs s' = procs s @ [Some ((cfg (new_process (next_pid s) name e stk top (kernel_root s)))\<lparr>pcontext := c\<rparr>)]"
    and "next_pid s' = Suc (next_pid s)" and "kernel_root s' = kernel_root s" and "ram s' = ram s"
    and "\<exists>n ps b. s' = s\<lparr>next_pid := n, procs := ps, intena := b\<rparr>"
proof -
  have idle: "irq_idle s" using assms(1) by (simp add: sched_inv_def)
  from spawn_with_run [OF idle assms(4)] obtain n s' where r: "spawn_with stk name e cfg s = Ok (n, s')" by blast
  then obtain q top where q: "n = next_pid s" "q = (cfg (new_process n name e stk top (kernel_root s)))
       \<lparr>pcontext := (pcontext (cfg (new_process n name e stk top (kernel_root s))))\<lparr>ctx_ra := thread_entry_at s, ctx_sp := top\<rparr>\<rparr>"
    "s' = s\<lparr>next_pid := wrapping_add n 1, procs := publish q (procs s), intena := intr_get (csr s)\<rparr>" by (rule spawn_with_eq [OF idle])
  have "position (\<lambda>slot. slot = None) (procs s) = None" 
    unfolding position_None_iff by (intro ballI notI) (use assms(2) in simp)
  moreover have "wrapping_add (next_pid s) 1 = Suc (next_pid s)" using assms(3) by (simp add: wrapping_add_def usize_max_eq)
  ultimately show thesis using r q spawn_with_inv(1) [OF assms(1) r assms(3,5)]
    by (intro that [of s' "(pcontext (cfg (new_process n name e stk top (kernel_root s))))\<lparr>ctx_ra := thread_entry_at s, ctx_sp := top\<rparr>" top])
      (simp_all add: publish_def, blast)
qed

lemma started_slots: "started L P m0 ts s \<Longrightarrow> None \<notin> set (procs s)"
  by (force simp: started_def in_set_conv_nth)

lemma started_kernel:
  assumes S: "started L P m0 ts s" and "length ts < 2 ^ 32" and "stk + KSTACK_SIZE \<le> usize_max"
  obtains s' where "boot_spawn P ((name, None), stk) s = Ok s'" and "started L P m0 (ts @ [(name, None)]) s'" and "ram s' = ram s" and "spawn_only s s'"
proof -
  have I: "sched_inv s" "next_pid s = Suc (length ts)" "next_pid s < usize_max" "kspace L (kernel_root s) (ram s)" "kernel_private (mem (ram s)) (kernel_root s)"
    using S assms(2) by (simp_all add: started_def usize_max_eq)
  obtain top c s' where r: "spawn_with stk name (Kernel_body name) (\<lambda>p. p) s = Ok (next_pid s, s')" "sched_inv s'"
    "procs s' = procs s @ [Some ((new_process (next_pid s) name (Kernel_body name) stk top (kernel_root s))\<lparr>pcontext := c\<rparr>)]"
    (is "_ = _ @ [Some ?q]") "next_pid s' = Suc (next_pid s)" "kernel_root s' = kernel_root s" and m: "ram s' = ram s"
    and o: "\<exists>n ps b. s' = s\<lparr>next_pid := n, procs := ps, intena := b\<rparr>"
    by (rule spawned [OF I(1) started_slots [OF S] I(3) assms(3) cfg_ok_id]) (rule that)
  have u: "user_table ?q = None" and b: "boot_proc L P m0 s' (length ts) (name, None) ?q"
    by (simp_all add: boot_proc_def new_process_def I(2))
  have "started L P m0 (ts @ [(name, None)]) s'" by (rule started_add [OF S r(2-5)]) (use m u b I(4,5) in auto)
  moreover have "spawn_only s s'"
  proof -
    from o obtain n ps b where "s' = s\<lparr>ram := ram s, next_pid := n, procs := ps, intena := b\<rparr>" by auto
    then show ?thesis unfolding spawn_only_def m by blast
  qed
  ultimately show thesis using r(1) m by (intro that [of s']) (simp_all add: spawn_def)
qed

lemma started_user:
  assumes S: "started L P m0 ts s" and "length ts < 2 ^ 32" and "stk + KSTACK_SIZE \<le> usize_max"
    and P: "fst (P x) < snd (P x)" "snd (P x) \<le> fst (P x) + PAGE_SIZE" "snd (P x) \<le> alloc_start L" "alloc_start L \<le> PHYS_TOP"
    and room: "7 \<le> length (free_list (ram s))"
  obtains s' where "boot_spawn P ((name, Some x), stk) s = Ok s'" and "started L P m0 (ts @ [(name, Some x)]) s'"
    and "length (free_list (ram s)) \<le> length (free_list (ram s')) + 7" and "spawn_only s s'"
proof -
  let ?src = "fst (P x)" and ?len = "snd (P x) - fst (P x)" and ?kr = "kernel_root s" and ?m = "ram s"
  have I: "sched_inv s" "next_pid s = Suc (length ts)" "next_pid s < usize_max" and K: "kspace L ?kr ?m" "kernel_private (mem ?m) ?kr" and low: "\<And>a. a < alloc_start L \<Longrightarrow> mem ?m a = m0 a"
    using S assms(2) by (simp_all add: started_def usize_max_eq)
  have out: "\<not> in_pages a (set (free_list ?m))" if "a < alloc_start L" for a
    using kspaceD(2) [OF K(1)] that by (auto simp: in_pages_def kalloc_inv_def alloc_page_def)
  have "0 < ?len" "?len \<le> PAGE_SIZE" using P(1,2) by auto
  then have one: "div_ceil ?len PAGE_SIZE = 1" by (cases "?len = PAGE_SIZE") (simp_all add: div_ceil_def PAGE_SIZE_def)
  have ok: "image_ok ?src ?len ?m" using P out
    by (auto simp: image_ok_def USER_STACK_TOP_def USER_TEXT_def memlayout_consts usize_max_eq)
  obtain r used m where l: "load_user_image ?kr (?src, ?len) ?m = Ok (r, m)" and g: "grown L ?kr r ?m used m" and n: "length used \<le> 7"
    and v: "\<And>w. uview (mem m) r w = image_view (mem ?m) ?src ?len w"
    by (rule load_user_image_run [OF ok K(1)]) (use room one in \<open>auto intro: that\<close>)
  note D = grownD [OF g]
  have us: "set used \<subseteq> set (free_list ?m)" "set (free_list m) \<subseteq> set (free_list ?m)" by (auto simp: D(3))
  have lo: "mem m a = mem ?m a" if "a < alloc_start L" for a
    using D(6) [of a] out [OF that] us(1) by (auto simp: in_pages_def)
  have iv: "image_view (mem ?m) ?src ?len = image_view m0 ?src ?len" using low P(3) by (intro ext) (auto simp: image_view_def)
  let ?s = "s\<lparr>ram := m\<rparr>"
  have "sched_inv ?s" "None \<notin> set (procs ?s)" "next_pid ?s < usize_max"
    using I(1,3) started_slots [OF S] by (simp_all add: sched_inv_def tinv_def irq_idle_def irq_ok_def)
  note sp = spawned [OF this assms(3) cfg_ok_attach, of name User_thread_body, simplified]
  obtain top c s' where r: "spawn_with stk name User_thread_body (attach_user_space r USER_TEXT USER_STACK_TOP) ?s = Ok (next_pid s, s')"
    "sched_inv s'" "procs s' = procs s @ [Some ((attach_user_space r USER_TEXT USER_STACK_TOP
       (new_process (next_pid s) name User_thread_body stk top ?kr))\<lparr>pcontext := c\<rparr>)]" (is "_ = _ @ [Some ?q]")
    "next_pid s' = Suc (next_pid s)" "kernel_root s' = ?kr" and m: "ram s' = m"
    and o: "\<exists>n ps b. s' = ?s\<lparr>next_pid := n, procs := ps, intena := b\<rparr>" by (rule sp) (rule that)
  have u: "user_table ?q = Some r" and b: "boot_proc L P m0 s' (length ts) (name, Some x) ?q"
    using D(1) v iv r(5) m by (simp_all add: boot_proc_def new_process_def attach_user_space_def I(2) fun_eq_iff)
  have al: "\<forall>p\<in>set used. page_aligned p" using free_aligned [OF kspaceD(2) [OF K(1)]] us by blast
  have keep: "aspace L ?kr a m \<and> uview (mem m) a = uview (mem ?m) a \<and> owned (mem m) a = owned (mem ?m) a \<and> owned (mem m) a \<inter> owned (mem m) r = {}"
    if A: "aspace L ?kr a ?m" for a
  proof -
    note O = owned_free(1) [OF A K(1)]
    have d: "set used \<inter> (owned (mem ?m) a \<union> tabs (mem ?m) ?kr) = {}" "set (free_list m) \<inter> (owned (mem ?m) a \<union> tabs (mem ?m) ?kr) = {}"
      using O us by blast+
    note F = aspace_other [OF A K(1) kspaceD(2) [OF D(2)] D(6) al d]
    show ?thesis using F(1,3,6) D(4) d(1) by (auto simp: fun_eq_iff)
  qed
  have "boot_spawn P ((name, Some x), stk) s = Ok s'" using P(1) l r(1) by (simp add: image_def case_prod_beta spawn_user_def)
  moreover have "started L P m0 (ts @ [(name, Some x)]) s'"
    by (rule started_add [OF S r(2-5)]) (use m u b D(2) lo keep grown_private [OF K(1) g K(2)] in auto)
  moreover have "length (free_list ?m) \<le> length (free_list (ram s')) + 7" unfolding m using n D(3) by simp
  moreover have "spawn_only s s'" using o us(2) unfolding spawn_only_def m by blast
  ultimately show thesis by (intro that)
qed


text \<open>All threads, one after the other.\<close>

definition images_ok :: "layout \<Rightarrow> images \<Rightarrow> bool" where
  "images_ok L P \<longleftrightarrow> (\<forall>x. user_start L \<le> fst (P x) \<and> fst (P x) < snd (P x) \<and> snd (P x) \<le> fst (P x) + PAGE_SIZE \<and> snd (P x) \<le> user_end L)"

definition users :: "(string \<times> program option) list \<Rightarrow> nat" where
  "users ts = length (filter (\<lambda>t. snd t \<noteq> None) ts)"

lemma started_all:
  assumes L: "layout_ok L" and P: "images_ok L P"
  shows "started L P m0 ts s \<Longrightarrow> length stks = length rest \<Longrightarrow> \<forall>stk\<in>set stks. stk + KSTACK_SIZE \<le> usize_max \<Longrightarrow>
    length ts + length rest < 2 ^ 32 \<Longrightarrow> 7 * users rest \<le> length (free_list (ram s)) \<Longrightarrow>
    \<exists>s'. foldR (boot_spawn P) (zip rest stks) s = Ok s' \<and> started L P m0 (ts @ rest) s' \<and> spawn_only s s'"
proof (induction rest arbitrary: ts s stks)
  case Nil
  have "s = s\<lparr>ram := ram s, next_pid := next_pid s, procs := procs s, intena := intena s\<rparr>" by simp
  then have "spawn_only s s" unfolding spawn_only_def by blast
  with Nil show ?case by simp
next
  case (Cons t rest)
  obtain name x where t: "t = (name, x)" by (cases t)
  obtain stk stks' where stks: "stks = stk # stks'" using Cons.prems(2) by (cases stks) auto
  have n: "length ts < 2 ^ 32" "stk + KSTACK_SIZE \<le> usize_max" using Cons.prems(3,4) by (auto simp: stks)
  have "\<exists>s1. boot_spawn P (t, stk) s = Ok s1 \<and> started L P m0 (ts @ [t]) s1 \<and> 7 * users rest \<le> length (free_list (ram s1)) \<and> spawn_only s s1"
  proof (cases x)
    case None
    obtain s1 where "boot_spawn P ((name, None), stk) s = Ok s1" "started L P m0 (ts @ [(name, None)]) s1" "ram s1 = ram s" "spawn_only s s1"
      by (rule started_kernel [OF Cons.prems(1) n]) (rule that)
    then show ?thesis using Cons.prems(5) by (simp add: t None users_def)
  next
    case (Some y)
    have e: "fst (P y) < snd (P y)" "snd (P y) \<le> fst (P y) + PAGE_SIZE" "snd (P y) \<le> alloc_start L" "alloc_start L \<le> PHYS_TOP"
      using P L by (auto simp: images_ok_def layout_ok_def alloc_start_def heap_start_def intro: order_trans [of _ "user_end L"])
    have "7 \<le> length (free_list (ram s))" using Cons.prems(5) by (simp add: t Some users_def)
    then obtain s1 where "boot_spawn P ((name, Some y), stk) s = Ok s1" "started L P m0 (ts @ [(name, Some y)]) s1"
      "length (free_list (ram s)) \<le> length (free_list (ram s1)) + 7" "spawn_only s s1" by (rule started_user [OF Cons.prems(1) n e])
    then show ?thesis using Cons.prems(5) by (simp add: t Some users_def)
  qed
  then obtain s1 where s1: "boot_spawn P (t, stk) s = Ok s1" "started L P m0 (ts @ [t]) s1" "7 * users rest \<le> length (free_list (ram s1))"
    "spawn_only s s1" by blast
  from Cons.IH [OF s1(2) _ _ _ s1(3), of stks'] Cons.prems(2-4) spawn_only_trans [OF s1(4)] show ?case by (auto simp: stks s1(1))
qed

section \<open>The whole sequence\<close>

text \<open>What the kernel relies on: the firmware offers its TIME extension and the clock is far from overflowing.\<close>

definition firmware_ok :: "'d machine \<Rightarrow> bool" where
  "firmware_ok E \<longleftrightarrow> (\<forall>d. fst (probe_time E d)) \<and> (\<forall>d. fst (rdtime E d) + TICK_INTERVAL \<le> usize_max)"

text \<open>The statics and the hart as the firmware hands them over.\<close>

definition power_on :: "memory \<Rightarrow> 'd boot \<Rightarrow> bool" where
  "power_on m s \<longleftrightarrow> ram s = kmem_new m \<and> procs s = [] \<and> current s = None \<and> next_pid s = 1 \<and> ticks s = 0 \<and> noff s = 0 \<and>
     sstatus (csr s) \<le> usize_max \<and> satp (csr s) = 0 \<and> heap_head (kheap s) = 0 \<and> files s = fs_new"

lemma arm_tick_run: "firmware_ok E \<Longrightarrow> \<exists>d'. arm_tick E d = Ok d'"
  by (cases "rdtime E d") (force simp: firmware_ok_def arm_tick_def dest: spec [of _ d])

lemma timer_init_run: "firmware_ok E \<Longrightarrow> \<exists>d'. timer_init E d = Ok d'"
  by (cases "probe_time E d") (use arm_tick_run [of E] in \<open>auto simp: firmware_ok_def timer_init_def dest!: spec [of _ d]\<close>)

text \<open>What the stages without tests keep.\<close>

definition keeps :: "'d boot \<Rightarrow> 'd boot \<Rightarrow> bool" where
  "keeps s s' \<longleftrightarrow> ram s' = ram s \<and> kernel_root s' = kernel_root s \<and> procs s' = procs s \<and> current s' = current s \<and> next_pid s' = next_pid s \<and>
     noff s' = noff s \<and> kheap s' = kheap s \<and> files s' = files s \<and> satp (csr s') = satp (csr s) \<and> stvec (csr s') = stvec (csr s) \<and>
     (sstatus (csr s) \<le> usize_max \<longrightarrow> sstatus (csr s') \<le> usize_max)"

lemma kheap_kprintln [simp]: "kheap (kprintln t s) = kheap s"
  by (simp add: kprintln_def kprint_def)

lemma keeps_trans: "keeps s s1 \<Longrightarrow> keeps s1 s2 \<Longrightarrow> keeps s s2"
  by (simp add: keeps_def)

lemma boot_banner_run:
  assumes "layout_ok L"
  obtains s' where "boot_banner E L hartid dtb s = Ok s'" and "keeps s s'" and "ticks s' = ticks s"
proof -
  have "kernel_start L \<le> kernel_end L" using assms by (auto simp: layout_ok_def)
  then obtain s' where r: "boot_banner E L hartid dtb s = Ok s'" by (simp add: boot_banner_def Let_def case_prod_beta)
  then have "keeps s s'" "ticks s' = ticks s" by (auto simp: boot_banner_def Let_def case_prod_beta result_simps keeps_def)
  with r show thesis by (rule that)
qed

lemma boot_ebreak_run:
  assumes "satp (csr s) = 0" and "tf_sepc frame + 4 \<le> usize_max" and "tf_sstatus frame AND SSTATUS_SPP \<noteq> 0"
  obtains s' where "boot_ebreak E L P frame s = Some (Ok s')" and "keeps s s'" and "ticks s' = ticks s"
proof -
  have c: "EXC_BREAKPOINT AND SCAUSE_INTERRUPT = 0" "EXC_BREAKPOINT AND unot SCAUSE_INTERRUPT = EXC_BREAKPOINT"
    by (simp_all add: EXC_BREAKPOINT_def SCAUSE_INTERRUPT_def ushl_eq unot_def usize_max_eq)
  let ?s = "s\<lparr>csr := (csr s)\<lparr>scause := EXC_BREAKPOINT, sepc_csr := tf_sepc frame\<rparr>\<rparr>"
  obtain n where "instruction_len (tf_sepc frame) (csr ?s) (ram s) = Ok n" "n \<le> 4"
    using assms(1) by (simp add: instruction_len_def mmu_load_def mmu_def Let_def)
  then obtain f t where "kerneltrap E L P 0 frame ?s = Some (Ok (Tret f, (kprintln t ?s)\<lparr>csr := csr ?s\<rparr>))"
    using assms(2,3) by (simp add: kerneltrap_def Let_def c handle_exception_def handle_breakpoint_def)
  then have r: "boot_ebreak E L P frame s = Some (Ok (kprintln ''  traps: survived an ebreak round-trip'' ((kprintln t ?s)\<lparr>csr := csr ?s\<rparr>)))"
    by (simp add: boot_ebreak_def)
  show thesis by (rule that [OF r]) (simp_all add: keeps_def)
qed

lemma timer_wfi_run:
  assumes "firmware_ok E" and "irq_idle s" and "procs s = []" and "current s = None" and "ticks s < usize_max"
  obtains s' where "timer_wfi E L P frame s = Some (Ok s')" and "keeps s s'" and "ticks s' = Suc (ticks s)" and "irq_idle s'"
proof -
  let ?c = "(intr_off (csr s))\<lparr>scause := SCAUSE_INTERRUPT OR IRQ_S_TIMER\<rparr>"
  have c: "(SCAUSE_INTERRUPT OR IRQ_S_TIMER) AND SCAUSE_INTERRUPT \<noteq> 0" "(SCAUSE_INTERRUPT OR IRQ_S_TIMER) AND unot SCAUSE_INTERRUPT = IRQ_S_TIMER"
    by (simp_all add: IRQ_S_TIMER_def SCAUSE_INTERRUPT_def ushl_eq unot_def usize_max_eq)
  obtain d where d: "arm_tick E (dev s) = Ok d" using arm_tick_run [OF assms(1)] by blast
  let ?s1 = "s\<lparr>csr := ?c, ticks := Suc (ticks s), dev := d\<rparr>"
  have i1: "irq_idle ?s1" using assms(2) order_trans [OF sstatus_intr_off_le, of "csr s" usize_max] by (simp add: irq_idle_def irq_ok_def)
  have t: "on_tick E (s\<lparr>csr := ?c\<rparr>) = Ok ?s1" using d assms(5) by (simp add: on_tick_def wrapping_add_def usize_max_eq)
  from wakeup_runs [OF i1] obtain s2 where w: "wakeup TICK_CHAN ?s1 = Ok s2" by blast
  from wakeup_eq [OF irq_idleD [OF i1] w] obtain b where s2: "s2 = ?s1\<lparr>procs := [], intena := b\<rparr>" using assms(3) by simp
  have i2: "irq_idle s2" using i1 by (simp add: s2 irq_idle_def irq_ok_def)
  have "pop_off (push_off s2) = Ok (s2\<lparr>intena := intr_get (csr s2)\<rparr>)"
    by (subst pop_pushed [OF irq_idleD [OF i2]]) (use i2 in \<open>auto simp: push_off_eq irq_idle_def\<close>)
  then have p: "on_tick_preempt s2 = Ok (Return (), s2\<lparr>intena := intr_get (csr s2)\<rparr>)"
    using push_off_masks [OF irq_idleD(1) [OF i2]] assms(4) by (simp add: on_tick_preempt_def Let_def sched_data_def s2)
  let ?s' = "s2\<lparr>intena := intr_get (csr s2), csr := (csr s2)\<lparr>sstatus := sstatus (csr s)\<rparr>\<rparr>"
  have "timer_wfi E L P frame s = Some (Ok ?s')"
    using c t w p by (simp add: timer_wfi_def kerneltrap_def Let_def handle_timer_def)
  then show thesis by (rule that) (use assms(2,3) in \<open>simp_all add: s2 keeps_def irq_idle_def irq_ok_def intr_off_def\<close>)
qed

lemma boot_timer_run:
  assumes "firmware_ok E" and "irq_idle s" and "procs s = []" and "current s = None" and "ticks s = 0"
  obtains s' where "boot_timer E (timer_wfi E L P frame) s = Some (Ok s')" and "keeps s s'" and "ticks s' = 3"
proof -
  from timer_init_run [OF assms(1)] obtain d where d: "timer_init E (dev s) = Ok d" by blast
  let ?s = "s\<lparr>dev := d, csr := intr_on (csr s)\<rparr>" and ?w = "timer_wfi E L P frame"
  have k0: "keeps s ?s" and i0: "irq_idle ?s" using assms(2) intr_on_le [of "csr s"]
    by (simp_all add: keeps_def irq_idle_def irq_ok_def) (simp_all add: intr_on_def)
  have step: "\<exists>t'. ?w t = Some (Ok t') \<and> keeps s t' \<and> irq_idle t' \<and> ticks t' = Suc (ticks t)" if "keeps s t" "irq_idle t" "ticks t < 3" for t
  proof -
    have "procs t = []" "current t = None" "ticks t < usize_max" using that assms(3,4) by (simp_all add: keeps_def usize_max_eq)
    with timer_wfi_run [OF assms(1) that(2), of L P frame] keeps_trans [OF that(1)] show ?thesis by blast
  qed
  from step [OF k0 i0] assms(5) obtain s1 where s1: "?w ?s = Some (Ok s1)" "keeps s s1" "irq_idle s1" "ticks s1 = 1" by auto
  from step [OF s1(2,3)] s1(4) obtain s2 where s2: "?w s1 = Some (Ok s2)" "keeps s s2" "irq_idle s2" "ticks s2 = 2" by auto
  from step [OF s2(2,3)] s2(4) obtain s3 where s3: "?w s2 = Some (Ok s3)" "keeps s s3" "irq_idle s3" "ticks s3 = 3" by auto
  have "wait_ticks ?w ticks 3 ?s = Some (Ok s3)"
    by (subst wait_ticks.simps, simp add: assms(5) s1, subst wait_ticks.simps, simp add: s1 s2, subst wait_ticks.simps, simp add: s2 s3,
        subst wait_ticks.simps, simp add: s3)
  then obtain t d' where "boot_timer E ?w s = Some (Ok (kprintln t (s3\<lparr>dev := d'\<rparr>)))"
    using d assms(5) by (simp add: boot_timer_def Let_def case_prod_beta usize_max_eq)
  then show thesis by (rule that) (use s3 in \<open>simp_all add: keeps_def\<close>)
qed

lemma boot_proc_kprintln: "boot_proc L P m (kprintln u s) i t p = boot_proc L P m s i t p"
  by (simp add: boot_proc_def cong: option.case_cong)

lemma started_none:
  assumes "kspace L (kernel_root s) (ram s)" and "kernel_private (mem (ram s)) (kernel_root s)" and "procs s = []" and "current s = None" and "next_pid s = 1" and "irq_idle s"
    and "\<forall>a<alloc_start L. mem (ram s) a = m a"
  shows "started L P m [] s"
  using assms by (simp add: started_def sched_inv_def tinv_def tab_inv_def ptab_def apart_def usize_max_eq)

text \<open>A machine to boot: a clock that wraps around, and a device tree of a page in its memory.\<close>

definition demo_board :: "board machine" where
  "demo_board = board_machine\<lparr>rdtime := (\<lambda>d. (clock d mod 2 ^ 60, d\<lparr>clock := clock d + 1\<rparr>))\<rparr>"

definition demo_memory :: memory where
  "demo_memory = (\<lambda>_. 0)(0x87f00000 := 0xd0, 0x87f00001 := 0x0d, 0x87f00002 := 0xfe, 0x87f00003 := 0xed, 0x87f00006 := 0x10)"

definition reset :: "memory \<Rightarrow> board boot" where
  "reset m = \<lparr>csr = csr idle_irq, noff = 0, intena = False, ram = kmem_new m, kernel_root = 0, procs = [], current = None, next_slot = 0,
     scheduler_ctx = zeroed, next_pid = 1, hart = zeroed, thread_entry_at = 0, input = input_new, input_at = 0, files = fs_new, ticks = 0,
     console = [], dev = board_off, kheap = heap_new m, BUSY = [0, 0], STOP = False\<rparr>"

definition demo_images :: images where
  "demo_images x = (user_start boot_layout, user_start boot_layout + 100)"

definition demo_frame :: trap_frame where
  "demo_frame = \<lparr>tf_ra = 0, tf_sp = 0, tf_gp = 0, tf_tp = 0, tf_t0 = 0, tf_t1 = 0, tf_t2 = 0, tf_s0 = 0, tf_s1 = 0, tf_a0 = 0, tf_a1 = 0, tf_a2 = 0,
     tf_a3 = 0, tf_a4 = 0, tf_a5 = 0, tf_a6 = 0, tf_a7 = 0, tf_s2 = 0, tf_s3 = 0, tf_s4 = 0, tf_s5 = 0, tf_s6 = 0, tf_s7 = 0, tf_s8 = 0, tf_s9 = 0,
     tf_s10 = 0, tf_s11 = 0, tf_t3 = 0, tf_t4 = 0, tf_t5 = 0, tf_t6 = 0, tf_sepc = 0x80200100, tf_sstatus = SSTATUS_SPP\<rparr>"

lemma demo_boot:
  "power_on demo_memory (reset demo_memory)" "dtb_ok demo_memory 0x87f00000" "firmware_ok demo_board" "images_ok boot_layout demo_images"
  "tf_sepc demo_frame + 4 \<le> usize_max" "tf_sstatus demo_frame AND SSTATUS_SPP \<noteq> 0" "alloc_start boot_layout + 512 * PAGE_SIZE \<le> PHYS_TOP"
proof -
  show "power_on demo_memory (reset demo_memory)" by (simp add: power_on_def reset_def idle_irq_def heap_new_def SSTATUS_SIE_def ushl_eq usize_max_eq)
  have l: "load32 m a = unat (m a) + 256 * (unat (m (a + 1)) + 256 * (unat (m (a + 2)) + 256 * unat (m (a + 3))))" for m a
  proof -
    have "(4 :: nat) = Suc (Suc (Suc (Suc 0)))" "a + 3 = Suc (Suc (Suc a))" by simp_all
    then show ?thesis by (simp only: load32_def load_le.simps) simp
  qed
  show "dtb_ok demo_memory 0x87f00000"
    by (simp add: dtb_ok_def dtb_size_def demo_memory_def l from_be_def memlayout_consts usize_max_eq)
  have "clock d mod 2 ^ 60 \<le> 18446744073709451615" for d :: board
    using mod_less_divisor [of "2 ^ 60" "clock d"] by simp
  then show "firmware_ok demo_board"
    by (simp add: firmware_ok_def TIMEBASE_FREQ_def TICK_HZ_def demo_board_def board_machine_def probe_time_def probe_extension_def sbi_call_def sbi_is_ok_def TICK_INTERVAL_def usize_max_eq)
  show "images_ok boot_layout demo_images" by (simp add: images_ok_def demo_images_def boot_layout_def demo_layout_def PAGE_SIZE_def)
  show "tf_sepc demo_frame + 4 \<le> usize_max" "tf_sstatus demo_frame AND SSTATUS_SPP \<noteq> 0"
    by (simp_all add: demo_frame_def usize_max_eq SSTATUS_SPP_def ushl_eq)
  show "alloc_start boot_layout + 512 * PAGE_SIZE \<le> PHYS_TOP" by (simp add: alloc_start_boot_layout memlayout_consts)
qed

section \<open>Properties\<close>



end
