(* ===== verification/Producer.thy ===== *)
theory Producer
  imports Boot
begin

text \<open>
  The producer and the consumer that \<open>kmain\<close> (\<open>src/src/main.rs\<close>) starts on a channel of capacity 4: two threads among all the
  others, in every interleaving of the sections of \<open>Sync\<close> with the kernel's steps.  The loops of the two threads decide which calls
  they make; what happens inside a call is a step of the channel.
\<close>

section \<open>The two threads\<close>

record 'a demo =
  chan :: "(usize, 'a) chan_sys"
  item :: usize
  rounds :: nat
  total :: usize

inductive demo_step :: "layout \<Rightarrow> nat \<Rightarrow> nat \<Rightarrow> 'a demo \<Rightarrow> 'a demo \<Rightarrow> bool" for L p c where
  Produce: "current (sys (chan D)) = Some p \<Longrightarrow> pcs (chan D) p = Out \<Longrightarrow> item D < 20 \<Longrightarrow>
    demo_step L p c D (D\<lparr>chan := (chan D)\<lparr>pcs := (pcs (chan D))(p := Wait (Send (item D)))\<rparr>, item := item D + 1\<rparr>)"
| Consume: "current (sys (chan D)) = Some c \<Longrightarrow> pcs (chan D) c = Out \<Longrightarrow> rounds D < 20 \<Longrightarrow>
    demo_step L p c D (D\<lparr>chan := (chan D)\<lparr>pcs := (pcs (chan D))(c := Wait Recv)\<rparr>, rounds := rounds D + 1\<rparr>)"
| Inside: "chstep L (chan D) C' \<Longrightarrow> (\<And>i. pcs (chan D) i = Out \<Longrightarrow> pcs C' i = Out) \<Longrightarrow>
    \<not> (pcs (chan D) c \<noteq> Out \<and> pcs C' c = Out) \<Longrightarrow> demo_step L p c D (D\<lparr>chan := C'\<rparr>)"
| Received: "chstep L (chan D) C' \<Longrightarrow> (\<And>i. pcs (chan D) i = Out \<Longrightarrow> pcs C' i = Out) \<Longrightarrow> pcs (chan D) c \<noteq> Out \<Longrightarrow> pcs C' c = Out \<Longrightarrow>
    demo_step L p c D (D\<lparr>chan := C', total := wrapping_add (total D) (last (recvd C'))\<rparr>)"

definition demo_begin :: "usize \<Rightarrow> usize \<Rightarrow> 'a sched_scheme \<Rightarrow> 'a demo" where
  "demo_begin ea fa s = \<lparr>chan = chan_start ea fa 4 s, item = 0, rounds = 0, total = 0\<rparr>"

text \<open>The consumer at the head of its loop: it goes on, or checks the sum.\<close>

definition consumer_end :: "nat \<Rightarrow> 'a demo \<Rightarrow> unit result" where
  "consumer_end c D =
     (if pcs (chan D) c \<noteq> Out \<or> rounds D < 20 then Ok ()
      else assertR (total D = 190) ''channel lost/duplicated items'')"

section \<open>The invariant\<close>

text \<open>What the producer has handed over, by where it is in a call for the last item, and what the consumer has added up.\<close>

fun producing :: "usize chan_pc \<Rightarrow> usize list \<Rightarrow> usize \<Rightarrow> bool" where
  "producing Out vs n \<longleftrightarrow> vs = [0..<n]"
| "producing (Wait (Send v)) vs n \<longleftrightarrow> n = Suc v \<and> vs = [0..<v]"
| "producing (Buf (Send v)) vs n \<longleftrightarrow> n = Suc v \<and> vs = [0..<v]"
| "producing (Raise (Send v)) vs n \<longleftrightarrow> n = Suc v \<and> vs = [0..<n]"
| "producing (Wake (Send v)) vs n \<longleftrightarrow> n = Suc v \<and> vs = [0..<n]"
| "producing _ vs n \<longleftrightarrow> False"

fun consuming :: "usize chan_pc \<Rightarrow> usize list \<Rightarrow> nat \<Rightarrow> usize \<Rightarrow> bool" where
  "consuming Out vs n t \<longleftrightarrow> length vs = n \<and> t = sum_list vs"
| "consuming (Wait Recv) vs n t \<longleftrightarrow> Suc (length vs) = n \<and> t = sum_list vs"
| "consuming (Buf Recv) vs n t \<longleftrightarrow> Suc (length vs) = n \<and> t = sum_list vs"
| "consuming (Raise Recv) vs n t \<longleftrightarrow> length vs = n \<and> vs \<noteq> [] \<and> t + last vs = sum_list vs"
| "consuming (Wake Recv) vs n t \<longleftrightarrow> length vs = n \<and> vs \<noteq> [] \<and> t + last vs = sum_list vs"
| "consuming _ vs n t \<longleftrightarrow> False"

lemma producing_steps:
  "producing (Wait opr) vs n \<Longrightarrow> producing (Buf opr) vs n" "producing (Buf (Send v)) vs n \<Longrightarrow> producing (Raise (Send v)) (vs @ [v]) n"
  "producing (Raise opr) vs n \<Longrightarrow> producing (Wake opr) vs n" "producing (Wake opr) vs n \<Longrightarrow> producing Out vs n" "\<not> producing (Buf Recv) vs n"
  by (cases opr; simp)+

lemma consuming_steps:
  "consuming (Wait opr) vs n t \<Longrightarrow> consuming (Buf opr) vs n t" "consuming (Buf Recv) vs n t \<Longrightarrow> consuming (Raise Recv) (vs @ [v]) n t"
  "consuming (Raise opr) vs n t \<Longrightarrow> consuming (Wake opr) vs n t" "consuming (Wake opr) vs n t \<Longrightarrow> consuming Out vs n (t + last vs)"
  "\<not> consuming (Buf (Send v)) vs n t"
  by (cases opr; simp)+

definition pair_inv :: "nat \<Rightarrow> nat \<Rightarrow> 'a demo \<Rightarrow> bool" where
  "pair_inv p c D \<longleftrightarrow> (\<forall>i. i \<noteq> p \<longrightarrow> i \<noteq> c \<longrightarrow> pcs (chan D) i = Out) \<and> item D \<le> 20 \<and>
     producing (pcs (chan D) p) (sent (chan D)) (item D) \<and> consuming (pcs (chan D) c) (recvd (chan D)) (rounds D) (total D)"

lemma pair_invD:
  assumes "pair_inv p c D"
  shows "pcs (chan D) i \<noteq> Out \<Longrightarrow> i = p \<or> i = c" "item D \<le> 20" "producing (pcs (chan D) p) (sent (chan D)) (item D)"
    "consuming (pcs (chan D) c) (recvd (chan D)) (rounds D) (total D)"
  using assms by (auto simp: pair_inv_def)

text \<open>A step of the channel, of the producer or the consumer: only the consumer's return changes the sum.\<close>

lemma demo_chstep:
  assumes "chstep L (chan D) C'" and I: "pair_inv p c D" and "p \<noteq> c" and call: "\<And>i. pcs (chan D) i = Out \<Longrightarrow> pcs C' i = Out"
  shows "pair_inv p c (D\<lparr>chan := C', total := total D + (if pcs (chan D) c \<noteq> Out \<and> pcs C' c = Out then last (recvd C') else 0)\<rparr>)"
  using assms(1)
proof cases
  case (Call i opr)
  with call [of i] show ?thesis by simp
next
  case (Pass i opr m s)
  then consider "i = p" | "i = c" using pair_invD(1) [OF I, of i] by auto
  then show ?thesis using pair_invD [OF I] producing_steps(1) consuming_steps(1) Pass assms(3)
    by cases (auto simp: pair_inv_def)
next
  case (Push i v m s)
  then have "i = p" using pair_invD [OF I] consuming_steps(5) by (metis chan_pc.distinct(3))
  then show ?thesis using pair_invD [OF I] producing_steps(2) Push assms(3) by (auto simp: pair_inv_def)
next
  case (Pop i v m s)
  then have "i = c" using pair_invD [OF I] producing_steps(5) by (metis chan_pc.distinct(3))
  then show ?thesis using pair_invD [OF I] consuming_steps(2) Pop assms(3) by (auto simp: pair_inv_def)
next
  case (Up i opr m s)
  then consider "i = p" | "i = c" using pair_invD(1) [OF I, of i] by auto
  then show ?thesis using pair_invD [OF I] producing_steps(3) consuming_steps(3) Up assms(3) by cases (auto simp: pair_inv_def)
next
  case (Done i opr s)
  then consider "i = p" | "i = c" using pair_invD(1) [OF I, of i] by auto
  then show ?thesis using pair_invD [OF I] producing_steps(4) consuming_steps(4) Done assms(3) by cases (auto simp: pair_inv_def)
qed (use I in \<open>auto simp: pair_inv_def\<close>)

lemma chan_mono:
  assumes "demo_step L p c D D'"
  shows "chstep L (chan D) (chan D')"
  using assms
proof cases
  case Produce
  then show ?thesis using chstep.Call [of "chan D" p L "Send (item D)"] by simp
next
  case Consume
  then show ?thesis using chstep.Call [of "chan D" c L Recv] by simp
qed simp_all

lemma demo_reach:
  assumes "(demo_step L p c)\<^sup>*\<^sup>* (demo_begin ea fa s) D"
  shows "(chstep L)\<^sup>*\<^sup>* (chan_start ea fa 4 s) (chan D)"
  using assms by (induction rule: rtranclp_induct) (auto simp: demo_begin_def dest: chan_mono)

lemma sent_items: "producing P vs n \<Longrightarrow> \<exists>k\<le>n. vs = [0..<k]"
  by (cases "(P, vs, n)" rule: producing.cases) (auto intro: exI [of _ n] exI [of _ "n - 1"])

lemma sum_upt: "k \<le> 20 \<Longrightarrow> sum_list [0..<k] \<le> 190"
proof -
  assume "k \<le> 20"
  then have "[0..<20] = [0..<k] @ [k..<20]" by (metis le0 le_Suc_ex upt_add_eq_append)
  then have "sum_list [0..<20] = sum_list [0..<k] + sum_list [k..<20]" by (metis sum_list_append)
  moreover have "sum_list [0..<20] = (190 :: nat)" by (simp add: upt_rec)
  ultimately show ?thesis by simp
qed

lemma consuming_bound: "consuming P vs n t \<Longrightarrow> t \<le> sum_list vs"
  by (cases "(P, vs, n, t)" rule: consuming.cases) auto

text \<open>What was received is the beginning of what was sent.\<close>

lemma received_items:
  assumes "chan_inv 4 (chan D)" and "pair_inv p c D"
  obtains k where "k \<le> 20" and "recvd (chan D) = [0..<k]"
proof -
  obtain n where n: "n \<le> item D" "sent (chan D) = [0..<n]" using sent_items [OF pair_invD(3) [OF assms(2)]] by blast
  let ?k = "length (recvd (chan D))"
  have "recvd (chan D) = take ?k (sent (chan D))" using chan_invD(7) [OF assms(1)] by simp
  moreover have "?k \<le> n" using chan_invD(7) [OF assms(1)] n(2) by (metis length_append length_upt diff_zero le_add1)
  ultimately have "recvd (chan D) = [0..<?k]" using n(2) by simp
  then show thesis using \<open>?k \<le> n\<close> n(1) pair_invD(2) [OF assms(2)] by (intro that [of ?k]) simp_all
qed

lemma demo_step_inv:
  assumes "demo_step L p c D D'" and I: "pair_inv p c D" and "p \<noteq> c" and "chan_inv 4 (chan D')"
  shows "pair_inv p c D'"
  using assms(1)
proof cases
  case Produce
  then show ?thesis using pair_invD [OF I] assms(3) by (auto simp: pair_inv_def)
next
  case Consume
  then show ?thesis using pair_invD [OF I] assms(3) by (auto simp: pair_inv_def)
next
  case (Inside C')
  have "D\<lparr>chan := C', total := total D + 0\<rparr> = D\<lparr>chan := C'\<rparr>" by simp
  with demo_chstep [OF Inside(2) I assms(3) Inside(3)] Inside(1,4) show ?thesis by auto
next
  case (Received C')
  let ?D = "D\<lparr>chan := C', total := total D + last (recvd C')\<rparr>"
  have J: "pair_inv p c ?D" using demo_chstep [OF Received(2) I assms(3) Received(3)] Received(4,5) by simp
  obtain k where "k \<le> 20" "recvd C' = [0..<k]" using received_items [OF _ J] assms(4) Received(1) by auto
  moreover have "total D + last (recvd C') = sum_list (recvd C')" using pair_invD(4) [OF J] Received(5) by simp
  ultimately have "total D + last (recvd C') \<le> 190" using sum_upt [of k] by simp
  then have "wrapping_add (total D) (last (recvd C')) = total D + last (recvd C')"
    by (simp add: wrapping_add_def usize_max_eq)
  with J Received(1) show ?thesis by simp
qed

lemma demo_reachable:
  assumes "(demo_step L p c)\<^sup>*\<^sup>* (demo_begin ea fa s) D" and "sched_inv s" and "p \<noteq> c"
  shows "pair_inv p c D \<and> chan_inv 4 (chan D)"
  using assms(1)
proof (induction rule: rtranclp_induct)
  case base
  have "chan_inv 4 (chan_start ea fa 4 s)" by (rule chan_start_inv) (simp_all add: assms usize_max_eq)
  then show ?case by (simp add: pair_inv_def demo_begin_def chan_start_def)
next
  case (step D D')
  have "chan_inv 4 (chan D')" using chstep_inv [OF chan_mono [OF step(2)]] step(3) by (simp add: usize_max_eq)
  with demo_step_inv [OF step(2) _ assms(3)] step(3) show ?case by simp
qed

section \<open>The consumer's assertion\<close>

text \<open>
  C25. The boot test of the bounded channel: in every state the producer and the consumer reach together with the scheduler, the timer
  and the other threads, the items received are 0, 1, 2, ... in order without loss or duplication, the running sum stays in range, and
  the consumer's assertion that the sum is 190 after its twenty rounds never fails.
\<close>

theorem consumer_sum:
  assumes "(demo_step L p c)\<^sup>*\<^sup>* (demo_begin ea fa s) D" and "sched_inv s" and "p \<noteq> c"
  shows "recvd (chan D) = [0..<length (recvd (chan D))] \<and> length (recvd (chan D)) \<le> 20 \<and> total D \<le> 190 \<and>
     consumer_end c D = Ok ()"
proof -
  have I: "pair_inv p c D" "chan_inv 4 (chan D)" using demo_reachable [OF assms] by simp_all
  obtain k where k: "k \<le> 20" "recvd (chan D) = [0..<k]" by (rule received_items [OF I(2,1)])
  have t: "total D \<le> sum_list (recvd (chan D))" by (rule consuming_bound [OF pair_invD(4) [OF I(1)]])
  have "consumer_end c D = Ok ()"
  proof (cases "pcs (chan D) c = Out \<and> \<not> rounds D < 20")
    case True
    then have "total D = sum_list [0..<20]" using pair_invD(4) [OF I(1)] k by auto
    then have "total D = 190" by (simp add: upt_rec)
    then show ?thesis by (simp add: consumer_end_def)
  qed (auto simp: consumer_end_def)
  then show ?thesis using k t sum_upt [OF k(1)] by simp
qed

theorem consumer_sum_witness:
  "\<exists>(s :: sched) D. (demo_step demo_layout 0 1)\<^sup>*\<^sup>* (demo_begin 1 2 s) D \<and> pcs (chan D) 0 = Wait (Send 0) \<and>
     recvd (chan D) = [] \<and> total D = 0 \<and> consumer_end 1 D = Ok ()"
proof -
  obtain s :: sched where s: "sched_inv s" "current s = Some 0"
    by (rule demo_start [where n = 1 and L = demo_layout]) (simp, simp add: usize_max_eq, rule that)
  let ?B = "demo_begin 1 2 s" and ?D = "(demo_begin 1 2 s)\<lparr>chan := (chan_start 1 2 4 s)\<lparr>pcs := (\<lambda>i. Out)(0 := Wait (Send 0))\<rparr>, item := 1\<rparr>"
  have "demo_step demo_layout 0 1 ?B ?D"
    using demo_step.Produce [of ?B 0 demo_layout 1] s(2) by (simp add: demo_begin_def chan_start_def)
  then have r: "(demo_step demo_layout 0 1)\<^sup>*\<^sup>* ?B ?D" by blast
  from consumer_sum [OF r s(1)] have "consumer_end 1 ?D = Ok ()" by simp
  then show ?thesis using r by (intro exI [of _ s] exI [of _ ?D]) (simp add: demo_begin_def chan_start_def)
qed

end
