(* ===== verification/Stubs.thy ===== *)
theory Stubs
  imports Proc
begin

text \<open>
  The assembly files: \<open>entry.S\<close>, \<open>kernelvec.S\<close>, \<open>switch.S\<close> and \<open>userret.S\<close> of \<open>src/src\<close>, as lists of lines with the
  semantics of the instructions they use on the registers, the CSRs and the kernel's memory.  A run ends where the code hands
  control over: at a \<open>call\<close>, a \<open>ret\<close> or an \<open>sret\<close>.  The code called is compiled Rust; what the trap vector needs of it
  (the stack pointer is restored, the frame it was given holds the result) is the hypothesis \<open>handler_abi\<close>.

  The theorems connect the stubs to the Rust structures whose layout they rely on (\<open>TrapFrame\<close>, \<open>Context\<close>) and to the
  definitions of \<open>Proc\<close> that stand for them.
\<close>

section \<open>Registers and instructions\<close>

datatype xreg =
    Zero | Ra | Sp | Gp | Tp | T0 | T1 | T2 | S0 | S1 | A0 | A1 | A2 | A3 | A4 | A5 | A6 | A7
  | S2 | S3 | S4 | S5 | S6 | S7 | S8 | S9 | S10 | S11 | T3 | T4 | T5 | T6

datatype csr_name = Sscratch | Sepc | Sstatus

datatype sinstr =
    La xreg string
  | Sd xreg usize xreg
  | Ld xreg usize xreg
  | Addi xreg xreg int
  | Andi xreg xreg usize
  | Mv xreg xreg
  | Csrrw xreg csr_name xreg
  | Csrr xreg csr_name
  | Csrw csr_name xreg
  | Bnez xreg string
  | Bgeu xreg xreg string
  | J string
  | Call string
  | Ret
  | Sret
  | Wfi

datatype sline = Ins sinstr | Label string

section \<open>The files\<close>

definition entry_text :: "sline list" where
  "entry_text =
     [Label ''_entry'',
      Ins (La T0 ''__bss_start''),
      Ins (La T1 ''__bss_end''),
      Label ''1'',
      Ins (Bgeu T0 T1 ''2''),
      Ins (Sd Zero 0 T0),
      Ins (Addi T0 T0 8),
      Ins (J ''1''),
      Label ''2'',
      Ins (La Sp ''__boot_stack_top''),
      Ins (Call ''kmain''),
      Label ''3'',
      Ins Wfi,
      Ins (J ''3'')]"

definition SAVE_GP :: "sinstr list" where
  "SAVE_GP =
   [Sd Ra 0 Sp, Sd Gp 16 Sp, Sd Tp 24 Sp, Sd T0 32 Sp, Sd T1 40 Sp, Sd T2 48 Sp,
    Sd S0 56 Sp, Sd S1 64 Sp, Sd A0 72 Sp, Sd A1 80 Sp, Sd A2 88 Sp, Sd A3 96 Sp,
    Sd A4 104 Sp, Sd A5 112 Sp, Sd A6 120 Sp, Sd A7 128 Sp, Sd S2 136 Sp, Sd S3 144 Sp,
    Sd S4 152 Sp, Sd S5 160 Sp, Sd S6 168 Sp, Sd S7 176 Sp, Sd S8 184 Sp, Sd S9 192 Sp,
    Sd S10 200 Sp, Sd S11 208 Sp, Sd T3 216 Sp, Sd T4 224 Sp, Sd T5 232 Sp, Sd T6 240 Sp]"

definition LOAD_GP :: "sinstr list" where
  "LOAD_GP =
   [Ld Ra 0 Sp, Ld Gp 16 Sp, Ld Tp 24 Sp, Ld T0 32 Sp, Ld T1 40 Sp, Ld T2 48 Sp,
    Ld S0 56 Sp, Ld S1 64 Sp, Ld A0 72 Sp, Ld A1 80 Sp, Ld A2 88 Sp, Ld A3 96 Sp,
    Ld A4 104 Sp, Ld A5 112 Sp, Ld A6 120 Sp, Ld A7 128 Sp, Ld S2 136 Sp, Ld S3 144 Sp,
    Ld S4 152 Sp, Ld S5 160 Sp, Ld S6 168 Sp, Ld S7 176 Sp, Ld S8 184 Sp, Ld S9 192 Sp,
    Ld S10 200 Sp, Ld S11 208 Sp, Ld T3 216 Sp, Ld T4 224 Sp, Ld T5 232 Sp, Ld T6 240 Sp]"

definition kernelvec_text :: "sline list" where
  "kernelvec_text =
     [Label ''kernelvec'',
      Ins (Csrrw Sp Sscratch Sp),
      Ins (Bnez Sp ''.Lfrom_user''),
      Label ''.Lfrom_kernel''] @
     map Ins ([Csrrw Sp Sscratch Sp, Addi Sp Sp (- 272)] @ SAVE_GP @ [Addi T0 Sp 272, Sd T0 8 Sp]) @
     [Ins (J ''.Lsave_csrs''),
      Label ''.Lfrom_user''] @
     map Ins ([Addi Sp Sp (- 272)] @ SAVE_GP @ [Csrr T0 Sscratch, Sd T0 8 Sp, Csrw Sscratch Zero]) @
     [Label ''.Lsave_csrs''] @
     map Ins [Csrr T0 Sepc, Sd T0 248 Sp, Csrr T0 Sstatus, Sd T0 256 Sp, Mv A0 Sp] @
     [Ins (Call ''kerneltrap'')] @
     map Ins [Ld T0 248 Sp, Csrw Sepc T0, Ld T1 256 Sp, Csrw Sstatus T1, Andi T1 T1 0x100] @
     [Ins (Bnez T1 ''.Lrestore'')] @
     map Ins [Addi T0 Sp 272, Csrw Sscratch T0] @
     [Label ''.Lrestore''] @
     map Ins (LOAD_GP @ [Ld Sp 8 Sp]) @
     [Ins Sret]"

definition swtch_text :: "sline list" where
  "swtch_text =
   [Label ''swtch''] @ map Ins
   [Sd Ra 0 A0, Sd Sp 8 A0, Sd S0 16 A0, Sd S1 24 A0, Sd S2 32 A0, Sd S3 40 A0,
    Sd S4 48 A0, Sd S5 56 A0, Sd S6 64 A0, Sd S7 72 A0, Sd S8 80 A0, Sd S9 88 A0,
    Sd S10 96 A0, Sd S11 104 A0,
    Ld Ra 0 A1, Ld Sp 8 A1, Ld S0 16 A1, Ld S1 24 A1, Ld S2 32 A1, Ld S3 40 A1,
    Ld S4 48 A1, Ld S5 56 A1, Ld S6 64 A1, Ld S7 72 A1, Ld S8 80 A1, Ld S9 88 A1,
    Ld S10 96 A1, Ld S11 104 A1] @
   [Ins Ret]"

definition userret_text :: "sline list" where
  "userret_text =
   [Label ''userret''] @ map Ins
   [Csrw Sscratch A1, Ld T0 248 A0, Csrw Sepc T0, Ld T0 256 A0, Csrw Sstatus T0,
    Ld Ra 0 A0, Ld Gp 16 A0, Ld Tp 24 A0, Ld T0 32 A0, Ld T1 40 A0, Ld T2 48 A0,
    Ld S0 56 A0, Ld S1 64 A0, Ld A1 80 A0, Ld A2 88 A0, Ld A3 96 A0, Ld A4 104 A0,
    Ld A5 112 A0, Ld A6 120 A0, Ld A7 128 A0, Ld S2 136 A0, Ld S3 144 A0, Ld S4 152 A0,
    Ld S5 160 A0, Ld S6 168 A0, Ld S7 176 A0, Ld S8 184 A0, Ld S9 192 A0, Ld S10 200 A0,
    Ld S11 208 A0, Ld T3 216 A0, Ld T4 224 A0, Ld T5 232 A0, Ld T6 240 A0,
    Ld Sp 8 A0, Ld A0 72 A0] @
   [Ins Sret]"

section \<open>The instructions\<close>

record core =
  xr :: "xreg \<Rightarrow> usize"
  ccsr :: csrs
  cmem :: memory
  cpc :: nat

definition rd :: "core \<Rightarrow> xreg \<Rightarrow> usize" where
  "rd c r = (if r = Zero then 0 else xr c r)"

definition wr :: "xreg \<Rightarrow> usize \<Rightarrow> core \<Rightarrow> core" where
  "wr r v c = c\<lparr>xr := (xr c)(r := v)\<rparr>"

fun rd_csr :: "csr_name \<Rightarrow> csrs \<Rightarrow> usize" where
  "rd_csr Sscratch k = sscratch k"
| "rd_csr Sepc k = sepc_csr k"
| "rd_csr Sstatus k = sstatus k"

fun wr_csr :: "csr_name \<Rightarrow> usize \<Rightarrow> core \<Rightarrow> core" where
  "wr_csr Sscratch v c = c\<lparr>ccsr := (ccsr c)\<lparr>sscratch := v\<rparr>\<rparr>"
| "wr_csr Sepc v c = c\<lparr>ccsr := (ccsr c)\<lparr>sepc_csr := v\<rparr>\<rparr>"
| "wr_csr Sstatus v c = c\<lparr>ccsr := (ccsr c)\<lparr>sstatus := v\<rparr>\<rparr>"

text \<open>The instructions that only change the state.\<close>

fun effect :: "(string \<Rightarrow> usize) \<Rightarrow> sinstr \<Rightarrow> core \<Rightarrow> core option" where
  "effect at (La r l) c = Some (wr r (at l) c)"
| "effect at (Sd r d b) c = Some (c\<lparr>cmem := store64 (cmem c) (wrapping_add (rd c b) d) (rd c r)\<rparr>)"
| "effect at (Ld r d b) c = Some (wr r (load64 (cmem c) (wrapping_add (rd c b) d)) c)"
| "effect at (Addi r a i) c = Some (wr r (nat ((int (rd c a) + i) mod 2 ^ 64)) c)"
| "effect at (Andi r a i) c = Some (wr r (rd c a AND i) c)"
| "effect at (Mv r a) c = Some (wr r (rd c a) c)"
| "effect at (Csrrw r k a) c = Some (wr r (rd_csr k (ccsr c)) (wr_csr k (rd c a) c))"
| "effect at (Csrr r k) c = Some (wr r (rd_csr k (ccsr c)) c)"
| "effect at (Csrw k a) c = Some (wr_csr k (rd c a) c)"
| "effect at i c = None"

text \<open>How a run goes on or ends; a call is entered with the state before it, and its return finds the counter behind it.\<close>

datatype event = Go core | Calls string core | Rets usize core | Srets usize bool core | Waits core | Wild

definition jump :: "sline list \<Rightarrow> string \<Rightarrow> core \<Rightarrow> event" where
  "jump code l c = (case position (\<lambda>x. x = Label l) code of None \<Rightarrow> Wild | Some n \<Rightarrow> Go (c\<lparr>cpc := n\<rparr>))"

fun transfer :: "sline list \<Rightarrow> sinstr \<Rightarrow> core \<Rightarrow> event" where
  "transfer code (Bnez r l) c = (if rd c r \<noteq> 0 then jump code l c else Go c)"
| "transfer code (Bgeu a b l) c = (if rd c b \<le> rd c a then jump code l c else Go c)"
| "transfer code (J l) c = jump code l c"
| "transfer code (Call f) c = Calls f c"
| "transfer code Ret c = Rets (rd c Ra) c"
| "transfer code Sret c = (let (pc, u, k) = sret (ccsr c) in Srets pc u (c\<lparr>ccsr := k\<rparr>))"
| "transfer code Wfi c = Waits c"
| "transfer code i c = Wild"

definition asm_step :: "(string \<Rightarrow> usize) \<Rightarrow> sline list \<Rightarrow> core \<Rightarrow> event" where
  "asm_step at code c =
     (if cpc c < length code
      then let c' = c\<lparr>cpc := cpc c + 1\<rparr> in
           case code ! cpc c of
             Label l \<Rightarrow> Go c'
           | Ins i \<Rightarrow> (case effect at i c' of Some c'' \<Rightarrow> Go c'' | None \<Rightarrow> transfer code i c')
      else Wild)"

fun asm_run :: "nat \<Rightarrow> (string \<Rightarrow> usize) \<Rightarrow> sline list \<Rightarrow> core \<Rightarrow> event" where
  "asm_run 0 at code c = Go c"
| "asm_run (Suc n) at code c = (case asm_step at code c of Go c' \<Rightarrow> asm_run n at code c' | e \<Rightarrow> e)"

section \<open>The Rust structures in memory\<close>

text \<open>\<open>#[repr(C)]\<close>: the fields in the order of their declaration, eight bytes each.\<close>

definition words_at :: "memory \<Rightarrow> usize \<Rightarrow> usize list \<Rightarrow> bool" where
  "words_at m a ws \<longleftrightarrow> map (\<lambda>i. load64 m (a + 8 * i)) [0..<length ws] = ws"

definition frame_at :: "memory \<Rightarrow> usize \<Rightarrow> trap_frame \<Rightarrow> bool" where
  "frame_at m a f \<longleftrightarrow> words_at m a
     [tf_ra f, tf_sp f, tf_gp f, tf_tp f, tf_t0 f, tf_t1 f, tf_t2 f, tf_s0 f, tf_s1 f, tf_a0 f, tf_a1 f, tf_a2 f, tf_a3 f,
      tf_a4 f, tf_a5 f, tf_a6 f, tf_a7 f, tf_s2 f, tf_s3 f, tf_s4 f, tf_s5 f, tf_s6 f, tf_s7 f, tf_s8 f, tf_s9 f, tf_s10 f,
      tf_s11 f, tf_t3 f, tf_t4 f, tf_t5 f, tf_t6 f, tf_sepc f, tf_sstatus f]"

definition ctx_at :: "memory \<Rightarrow> usize \<Rightarrow> ctx \<Rightarrow> bool" where
  "ctx_at m a k \<longleftrightarrow> length (ctx_s k) = 12 \<and> words_at m a (ctx_ra k # ctx_sp k # ctx_s k)"

text \<open>The registers a frame and a context hold, and the frame and the context of a state.\<close>

fun tf_reg :: "trap_frame \<Rightarrow> xreg \<Rightarrow> usize" where
  "tf_reg f Zero = 0"
| "tf_reg f Ra = tf_ra f"
| "tf_reg f Sp = tf_sp f"
| "tf_reg f Gp = tf_gp f"
| "tf_reg f Tp = tf_tp f"
| "tf_reg f T0 = tf_t0 f"
| "tf_reg f T1 = tf_t1 f"
| "tf_reg f T2 = tf_t2 f"
| "tf_reg f S0 = tf_s0 f"
| "tf_reg f S1 = tf_s1 f"
| "tf_reg f A0 = tf_a0 f"
| "tf_reg f A1 = tf_a1 f"
| "tf_reg f A2 = tf_a2 f"
| "tf_reg f A3 = tf_a3 f"
| "tf_reg f A4 = tf_a4 f"
| "tf_reg f A5 = tf_a5 f"
| "tf_reg f A6 = tf_a6 f"
| "tf_reg f A7 = tf_a7 f"
| "tf_reg f S2 = tf_s2 f"
| "tf_reg f S3 = tf_s3 f"
| "tf_reg f S4 = tf_s4 f"
| "tf_reg f S5 = tf_s5 f"
| "tf_reg f S6 = tf_s6 f"
| "tf_reg f S7 = tf_s7 f"
| "tf_reg f S8 = tf_s8 f"
| "tf_reg f S9 = tf_s9 f"
| "tf_reg f S10 = tf_s10 f"
| "tf_reg f S11 = tf_s11 f"
| "tf_reg f T3 = tf_t3 f"
| "tf_reg f T4 = tf_t4 f"
| "tf_reg f T5 = tf_t5 f"
| "tf_reg f T6 = tf_t6 f"

definition frame_of :: "core \<Rightarrow> trap_frame" where
  "frame_of c =
     \<lparr>tf_ra = rd c Ra, tf_sp = rd c Sp, tf_gp = rd c Gp, tf_tp = rd c Tp, tf_t0 = rd c T0, tf_t1 = rd c T1, tf_t2 = rd c T2,
      tf_s0 = rd c S0, tf_s1 = rd c S1, tf_a0 = rd c A0, tf_a1 = rd c A1, tf_a2 = rd c A2, tf_a3 = rd c A3, tf_a4 = rd c A4,
      tf_a5 = rd c A5, tf_a6 = rd c A6, tf_a7 = rd c A7, tf_s2 = rd c S2, tf_s3 = rd c S3, tf_s4 = rd c S4, tf_s5 = rd c S5,
      tf_s6 = rd c S6, tf_s7 = rd c S7, tf_s8 = rd c S8, tf_s9 = rd c S9, tf_s10 = rd c S10, tf_s11 = rd c S11,
      tf_t3 = rd c T3, tf_t4 = rd c T4, tf_t5 = rd c T5, tf_t6 = rd c T6,
      tf_sepc = sepc_csr (ccsr c), tf_sstatus = sstatus (ccsr c)\<rparr>"

definition ctx_of :: "core \<Rightarrow> ctx" where
  "ctx_of c = \<lparr>ctx_ra = rd c Ra, ctx_sp = rd c Sp, ctx_s = map (rd c) [S0, S1, S2, S3, S4, S5, S6, S7, S8, S9, S10, S11]\<rparr>"

definition gp_slots :: "(xreg \<times> usize) list" where
  "gp_slots =
   [(Ra, 0), (Gp, 16), (Tp, 24), (T0, 32), (T1, 40), (T2, 48), (S0, 56), (S1, 64), (A0, 72),
    (A1, 80), (A2, 88), (A3, 96), (A4, 104), (A5, 112), (A6, 120), (A7, 128), (S2, 136), (S3, 144),
    (S4, 152), (S5, 160), (S6, 168), (S7, 176), (S8, 184), (S9, 192), (S10, 200), (S11, 208), (T3, 216),
    (T4, 224), (T5, 232), (T6, 240)]"

definition ctx_slots :: "(xreg \<times> usize) list" where
  "ctx_slots =
   [(Ra, 0), (Sp, 8), (S0, 16), (S1, 24), (S2, 32), (S3, 40), (S4, 48), (S5, 56), (S6, 64),
    (S7, 72), (S8, 80), (S9, 88), (S10, 96), (S11, 104)]"

text \<open>What the trap vector relies on in the compiled \<open>kerneltrap\<close>: it returns behind the call with the stack pointer and
  \<open>sscratch\<close> as they were, and has changed the frame it was given by \<open>handle\<close>.\<close>

definition handler_abi :: "(core \<Rightarrow> core) \<Rightarrow> (trap_frame \<Rightarrow> trap_frame) \<Rightarrow> bool" where
  "handler_abi kt handle \<longleftrightarrow>
     (\<forall>c f. frame_at (cmem c) (rd c A0) f \<longrightarrow>
        cpc (kt c) = cpc c \<and> rd (kt c) Sp = rd c Sp \<and> sscratch (ccsr (kt c)) = sscratch (ccsr c) \<and>
        frame_at (cmem (kt c)) (rd c A0) (handle f))"

section \<open>Runs\<close>

lemma asm_run_add: "asm_run (m + n) at code c = (case asm_run m at code c of Go c' \<Rightarrow> asm_run n at code c' | e \<Rightarrow> e)"
  by (induction m arbitrary: c) (auto split: event.splits)

text \<open>A run that has ended ends the same way with more steps.\<close>

lemma asm_run_more: "asm_run m at code c = e \<Longrightarrow> (\<forall>c. e \<noteq> Go c) \<Longrightarrow> m \<le> n \<Longrightarrow> asm_run n at code c = e"
  using asm_run_add [of m "n - m" at code c] by (cases e) auto

lemma asm_run_go: "asm_run m at code c = Go c' \<Longrightarrow> asm_run (m + n) at code c = asm_run n at code c'"
  by (simp add: asm_run_add)

text \<open>A stretch of instructions that only change the state.\<close>

fun effects :: "(string \<Rightarrow> usize) \<Rightarrow> sinstr list \<Rightarrow> core \<Rightarrow> core option" where
  "effects at [] c = Some c"
| "effects at (i # is) c = (case effect at i c of None \<Rightarrow> None | Some c \<Rightarrow> effects at is c)"

lemma effects_append: "effects at (is @ js) c = (case effects at is c of None \<Rightarrow> None | Some c \<Rightarrow> effects at js c)"
  by (induction "is" arbitrary: c) (auto split: option.splits)

lemma effect_pc: "effect at i c = Some c' \<Longrightarrow> effect at i (c\<lparr>cpc := n\<rparr>) = Some (c'\<lparr>cpc := n\<rparr>)"
proof (cases i)
  fix r k a
  assume "i = Csrrw r k a" and "effect at i c = Some c'"
  then show ?thesis by (cases k) (auto simp: rd_def wr_def)
next
  fix k a
  assume "i = Csrw k a" and "effect at i c = Some c'"
  then show ?thesis by (cases k) (auto simp: rd_def wr_def)
qed (auto simp: rd_def wr_def)

lemma effects_pc: "effects at is c = Some c' \<Longrightarrow> effects at is (c\<lparr>cpc := n\<rparr>) = Some (c'\<lparr>cpc := n\<rparr>)"
proof (induction "is" arbitrary: c)
  case (Cons i "is")
  then show ?case by (cases "effect at i c") (auto simp: effect_pc)
qed simp

lemma asm_run_block:
  assumes "take (length is) (drop (cpc c) code) = map Ins is" and "effects at is c = Some c'"
  shows "asm_run (length is) at code c = Go (c'\<lparr>cpc := cpc c + length is\<rparr>)"
  using assms
proof (induction "is" arbitrary: c c')
  case (Cons i "is")
  obtain d where d: "effect at i c = Some d" "effects at is d = Some c'" using Cons(3) by (auto split: option.splits)
  have "drop (cpc c) code \<noteq> []" using Cons(2) by auto
  then have l: "cpc c < length code" by simp
  then have "code ! cpc c = Ins i" "take (length is) (drop (Suc (cpc c)) code) = map Ins is"
    using Cons(2) by (simp_all add: Cons_nth_drop_Suc [symmetric, of "cpc c"])
  then show ?case using effects_pc [OF d(2)] Cons.IH [of "d\<lparr>cpc := Suc (cpc c)\<rparr>" "c'\<lparr>cpc := Suc (cpc c)\<rparr>"] effect_pc [OF d(1), of "Suc (cpc c)"] l
    by (simp add: asm_step_def)
qed simp


lemma run_block:
  assumes "take n (drop p code) = map Ins is" and "effects at is c = Some c'" and "cpc c = p" and "n = length is" and "p + n = q"
  shows "asm_run n at code c = Go (c'\<lparr>cpc := q\<rparr>)"
  using asm_run_block [of "is" c code at c'] assms by simp

section \<open>Rows of stores and loads\<close>

definition stores :: "usize \<Rightarrow> (usize \<times> usize) list \<Rightarrow> memory \<Rightarrow> memory" where
  "stores a vs m = fold (\<lambda>(d, v) m. store64 m (a + d) v) vs m"

lemma stores_simps [simp]:
  "stores a [] m = m" "stores a ((d, v) # vs) m = stores a vs (store64 m (a + d) v)" "stores a (vs @ ws) m = stores a ws (stores a vs m)"
  by (simp_all add: stores_def)

lemma stores_outside: "list_all (\<lambda>(d, _). d + 8 \<le> n) vs \<Longrightarrow> \<not> (a \<le> x \<and> x < a + n) \<Longrightarrow> stores a vs m x = m x"
  by (induction vs arbitrary: m) (auto simp: store64_outside)

lemma load_stores_other:
  "list_all (\<lambda>(e, _). d + 8 \<le> e \<or> e + 8 \<le> d) vs \<Longrightarrow> load64 (stores a vs m) (a + d) = load64 m (a + d)"
  by (induction vs arbitrary: m) (auto simp: load64_store64_other)

text \<open>Slots that do not overlap.\<close>

fun spaced :: "(usize \<times> usize) list \<Rightarrow> bool" where
  "spaced [] \<longleftrightarrow> True"
| "spaced ((d, _) # vs) \<longleftrightarrow> list_all (\<lambda>(e, _). d + 8 \<le> e \<or> e + 8 \<le> d) vs \<and> spaced vs"

lemma load_stores: "spaced vs \<Longrightarrow> (d, v) \<in> set vs \<Longrightarrow> v \<le> usize_max \<Longrightarrow> load64 (stores a vs m) (a + d) = v"
proof (induction vs arbitrary: m rule: spaced.induct)
  case (2 e w vs)
  show ?case
  proof (cases "(d, v) = (e, w)")
    case True
    then show ?thesis using 2(2,4) load_stores_other [of d vs a "store64 m (a + d) v"] by (auto simp: load64_store64)
  qed (use 2 in auto)
qed simp

lemma effects_save:
  assumes "list_all (\<lambda>(r, d). rd c b + d \<le> usize_max) rs"
  shows "effects at (map (\<lambda>(r, d). Sd r d b) rs) c = Some (c\<lparr>cmem := stores (rd c b) (map (\<lambda>(r, d). (d, rd c r)) rs) (cmem c)\<rparr>)"
  using assms
proof (induction rs arbitrary: c)
  case (Cons p rs)
  obtain r d where p: "p = (r, d)" by (cases p)
  have [simp]: "rd (c\<lparr>cmem := m\<rparr>) = rd c" for m by (rule ext) (simp add: rd_def)
  show ?case using Cons p by (simp add: wrapping_add_def usize_max_eq)
qed simp

lemma effects_load:
  assumes "list_all (\<lambda>(r, d). rd c b + d \<le> usize_max \<and> r \<noteq> b) rs" and "distinct (map fst rs)"
  shows "effects at (map (\<lambda>(r, d). Ld r d b) rs) c =
    Some (c\<lparr>xr := \<lambda>r. case map_of rs r of Some d \<Rightarrow> load64 (cmem c) (rd c b + d) | None \<Rightarrow> xr c r\<rparr>)"
  using assms
proof (induction rs arbitrary: c)
  case (Cons p rs)
  obtain r d where p: "p = (r, d)" by (cases p)
  let ?c = "wr r (load64 (cmem c) (rd c b + d)) c"
  have "rd ?c b = rd c b" using Cons(2) p by (auto simp: rd_def wr_def)
  moreover have "map_of rs r = None" using Cons(3) p by (simp add: map_of_eq_None_iff)
  ultimately show ?case using Cons p
    by (auto simp: wrapping_add_def usize_max_eq wr_def intro!: core.equality split: option.splits)
qed simp


section \<open>The layouts agree\<close>

lemma GP_slots: "SAVE_GP = map (\<lambda>(r, d). Sd r d Sp) gp_slots" "LOAD_GP = map (\<lambda>(r, d). Ld r d Sp) gp_slots"
  by (simp_all add: SAVE_GP_def LOAD_GP_def gp_slots_def)

lemma GP_length: "length SAVE_GP = 30" "length LOAD_GP = 30"
  by (simp_all add: SAVE_GP_def LOAD_GP_def)

lemma gp_slots_ok:
  "distinct (map fst gp_slots)" "list_all (\<lambda>(r, d). d + 8 \<le> 248 \<and> r \<notin> {Zero, Sp}) gp_slots" "map_of gp_slots r = None \<longleftrightarrow> r \<in> {Zero, Sp}"
  by (simp add: gp_slots_def, simp add: gp_slots_def, cases r, simp_all add: gp_slots_def)

lemma frame_at_slots:
  "frame_at m a f \<longleftrightarrow> list_all (\<lambda>(r, d). load64 m (a + d) = tf_reg f r) gp_slots \<and> load64 m (a + 8) = tf_sp f \<and>
     load64 m (a + 248) = tf_sepc f \<and> load64 m (a + 256) = tf_sstatus f"
  by (simp add: frame_at_def words_at_def gp_slots_def upt_rec) auto

lemma ctx_at_slots:
  "ctx_at m a (ctx_of c) \<longleftrightarrow> list_all (\<lambda>(r, d). load64 m (a + d) = rd c r) ctx_slots"
  by (simp add: ctx_at_def ctx_of_def words_at_def ctx_slots_def upt_rec)

lemma frame_at_reg: "frame_at m a f \<Longrightarrow> map_of gp_slots r = Some d \<Longrightarrow> load64 m (a + d) = tf_reg f r"
  by (auto simp: frame_at_slots list_all_iff dest: map_of_SomeD)

lemma frame_of_reg: "tf_reg (frame_of c) r = rd c r"
  by (cases r) (simp_all add: frame_of_def rd_def)

text \<open>The rows of the trap vector and of \<open>userret\<close>.\<close>

definition frame_values :: "core \<Rightarrow> (usize \<times> usize) list" where
  "frame_values c = map (\<lambda>(r, d). (d, rd c r)) gp_slots @ [(8, rd c Sp), (248, sepc_csr (ccsr c)), (256, sstatus (ccsr c))]"

lemma frame_values_at:
  assumes "\<And>r. rd c r \<le> usize_max" and "sepc_csr (ccsr c) \<le> usize_max" and "sstatus (ccsr c) \<le> usize_max"
  shows "frame_at (stores a (frame_values c) m) a (frame_of c)"
proof -
  have "spaced (frame_values c)" by (simp add: frame_values_def gp_slots_def)
  then have v: "(d, v) \<in> set (frame_values c) \<Longrightarrow> v \<le> usize_max \<Longrightarrow> load64 (stores a (frame_values c) m) (a + d) = v" for d v
    by (rule load_stores)
  have "load64 (stores a (frame_values c) m) (a + d) = tf_reg (frame_of c) r" if "(r, d) \<in> set gp_slots" for r d
    using that assms(1) by (intro v) (force simp: frame_values_def frame_of_reg)+
  moreover have "(8, tf_sp (frame_of c)) \<in> set (frame_values c)" "(248, tf_sepc (frame_of c)) \<in> set (frame_values c)"
    "(256, tf_sstatus (frame_of c)) \<in> set (frame_values c)"
    by (simp_all add: frame_of_def frame_values_def)
  moreover have "tf_sp (frame_of c) \<le> usize_max" "tf_sepc (frame_of c) \<le> usize_max" "tf_sstatus (frame_of c) \<le> usize_max"
    using assms by (simp_all add: frame_of_def)
  ultimately show ?thesis using v by (auto simp: frame_at_slots list_all_iff)
qed

lemma frame_values_outside: "x < a \<or> a + 272 \<le> x \<Longrightarrow> stores a (frame_values c) m x = m x"
  by (rule stores_outside [of 272]) (auto simp: frame_values_def gp_slots_def)


section \<open>Steps of the trap vector\<close>

lemma run_label: "cpc c < length code \<Longrightarrow> code ! cpc c = Label l \<Longrightarrow> asm_run 1 at code c = Go (c\<lparr>cpc := cpc c + 1\<rparr>)"
  by (simp add: asm_step_def)

lemma run_transfer:
  assumes "cpc c < length code" and "code ! cpc c = Ins i" and "effect at i (c\<lparr>cpc := cpc c + 1\<rparr>) = None"
  shows "asm_run 1 at code c = transfer code i (c\<lparr>cpc := cpc c + 1\<rparr>)"
  using assms by (auto simp: asm_step_def split: event.splits)

lemma rd_simps [simp]:
  "rd (c\<lparr>cmem := m\<rparr>) r = rd c r" "rd (c\<lparr>ccsr := k\<rparr>) r = rd c r" "rd (c\<lparr>cpc := n\<rparr>) r = rd c r" "rd c Zero = 0"
  "rd (c\<lparr>xr := x\<rparr>) r = (if r = Zero then 0 else x r)"
  by (simp_all add: rd_def)

lemma kernelvec_labels:
  "position (\<lambda>x. x = Label ''.Lfrom_user'') kernelvec_text = Some 39"
  "position (\<lambda>x. x = Label ''.Lsave_csrs'') kernelvec_text = Some 74"
  "position (\<lambda>x. x = Label ''.Lrestore'') kernelvec_text = Some 89"
  by code_simp+

lemma kernelvec_lines:
  "length kernelvec_text = 122" "kernelvec_text ! 0 = Label ''kernelvec''" "kernelvec_text ! 2 = Ins (Bnez Sp ''.Lfrom_user'')"
  "kernelvec_text ! 3 = Label ''.Lfrom_kernel''" "kernelvec_text ! 38 = Ins (J ''.Lsave_csrs'')"
  "kernelvec_text ! 39 = Label ''.Lfrom_user''" "kernelvec_text ! 74 = Label ''.Lsave_csrs''"
  "kernelvec_text ! 80 = Ins (Call ''kerneltrap'')" "kernelvec_text ! 86 = Ins (Bnez T1 ''.Lrestore'')"
  "kernelvec_text ! 89 = Label ''.Lrestore''" "kernelvec_text ! 121 = Ins Sret"
  by code_simp+

lemma kernelvec_blocks:
  "take 1 (drop 1 kernelvec_text) = map Ins [Csrrw Sp Sscratch Sp]"
  "take 34 (drop 4 kernelvec_text) = map Ins ([Csrrw Sp Sscratch Sp, Addi Sp Sp (- 272)] @ SAVE_GP @ [Addi T0 Sp 272, Sd T0 8 Sp])"
  "take 34 (drop 40 kernelvec_text) = map Ins ([Addi Sp Sp (- 272)] @ SAVE_GP @ [Csrr T0 Sscratch, Sd T0 8 Sp, Csrw Sscratch Zero])"
  "take 5 (drop 75 kernelvec_text) = map Ins [Csrr T0 Sepc, Sd T0 248 Sp, Csrr T0 Sstatus, Sd T0 256 Sp, Mv A0 Sp]"
  "take 5 (drop 81 kernelvec_text) = map Ins [Ld T0 248 Sp, Csrw Sepc T0, Ld T1 256 Sp, Csrw Sstatus T1, Andi T1 T1 0x100]"
  "take 2 (drop 87 kernelvec_text) = map Ins [Addi T0 Sp 272, Csrw Sscratch T0]"
  "take 31 (drop 90 kernelvec_text) = map Ins (LOAD_GP @ [Ld Sp 8 Sp])"
  by code_simp+


text \<open>Saving the registers at \<open>a\<close>, whatever the way in has done to the stack pointer.\<close>

lemma save_gp:
  assumes "rd c Sp = a" and "a + 272 \<le> usize_max" and "\<And>r. r \<noteq> Sp \<Longrightarrow> rd c r = rd b r"
  shows "effects at SAVE_GP c = Some (c\<lparr>cmem := stores a (map (\<lambda>(r, d). (d, rd b r)) gp_slots) (cmem c)\<rparr>)"
proof -
  have "map (\<lambda>(r, d). (d, rd c r)) gp_slots = map (\<lambda>(r, d). (d, rd b r)) gp_slots"
    using gp_slots_ok(2) assms(3) by (auto simp: list_all_iff)
  moreover have "list_all (\<lambda>(r, d). a + d \<le> usize_max) gp_slots" using gp_slots_ok(2) assms(2) by (auto simp: list_all_iff)
  ultimately show ?thesis using effects_save [of c Sp gp_slots at] assms(1) by (simp add: GP_slots del: map_eq_conv)
qed

lemma enter_user_path:
  assumes "rd c Sp = a + 272" and "a + 272 \<le> usize_max" and "\<And>r. r \<noteq> Sp \<Longrightarrow> rd c r = rd b r"
  shows "effects at ([Addi Sp Sp (- 272)] @ SAVE_GP @ [Csrr T0 Sscratch, Sd T0 8 Sp, Csrw Sscratch Zero]) c =
    Some (c\<lparr>xr := (xr c)(Sp := a, T0 := sscratch (ccsr c)), ccsr := (ccsr c)\<lparr>sscratch := 0\<rparr>,
      cmem := stores a (map (\<lambda>(r, d). (d, rd b r)) gp_slots @ [(8, sscratch (ccsr c))]) (cmem c)\<rparr>)"
proof -
  let ?c = "wr Sp a c"
  have r: "rd ?c r = rd b r" if "r \<noteq> Sp" for r using assms(3) [OF that] that by (auto simp: wr_def rd_def split: if_splits)
  have "rd ?c Sp = a" by (simp add: wr_def)
  from save_gp [OF this assms(2) r] show ?thesis using assms(1,2)
    by (simp add: effects_append wr_def wrapping_add_def usize_max_eq)
qed

lemma enter_kernel_path:
  assumes "sscratch (ccsr c) = a + 272" and "rd c Sp = 0" and "a + 272 \<le> usize_max" and "\<And>r. r \<noteq> Sp \<Longrightarrow> rd c r = rd b r"
  shows "effects at ([Csrrw Sp Sscratch Sp, Addi Sp Sp (- 272)] @ SAVE_GP @ [Addi T0 Sp 272, Sd T0 8 Sp]) c =
    Some (c\<lparr>ccsr := (ccsr c)\<lparr>sscratch := 0\<rparr>, xr := (xr c)(Sp := a, T0 := a + 272),
      cmem := stores a (map (\<lambda>(r, d). (d, rd b r)) gp_slots @ [(8, a + 272)]) (cmem c)\<rparr>)"
proof -
  let ?c = "wr Sp a (c\<lparr>ccsr := (ccsr c)\<lparr>sscratch := 0\<rparr>\<rparr>)"
  have r: "rd ?c r = rd b r" if "r \<noteq> Sp" for r using assms(4) [OF that] that by (auto simp: wr_def rd_def split: if_splits)
  have "rd ?c Sp = a" by (simp add: wr_def)
  from save_gp [OF this assms(3) r] show ?thesis using assms(1-3)
    by (simp add: effects_append wr_def wrapping_add_def usize_max_eq nat_add_distrib)
qed


text \<open>From \<open>.Lsave_csrs\<close> to the call.\<close>

lemma save_csrs:
  assumes "cpc c = 74" and "rd c Sp = a" and "a + 272 \<le> usize_max"
  shows "asm_run 7 at kernelvec_text c = Calls ''kerneltrap''
    (c\<lparr>cmem := stores a [(248, sepc_csr (ccsr c)), (256, sstatus (ccsr c))] (cmem c),
       xr := (xr c)(T0 := sstatus (ccsr c), A0 := a), cpc := 81\<rparr>)"
proof -
  let ?is = "[Csrr T0 Sepc, Sd T0 248 Sp, Csrr T0 Sstatus, Sd T0 256 Sp, Mv A0 Sp]" and ?c = "c\<lparr>cpc := 75\<rparr>"
  let ?d = "?c\<lparr>cmem := stores a [(248, sepc_csr (ccsr c)), (256, sstatus (ccsr c))] (cmem c),
       xr := (xr c)(T0 := sstatus (ccsr c), A0 := a)\<rparr>"
  have 1: "asm_run 1 at kernelvec_text c = Go ?c" using run_label [of c kernelvec_text] assms(1) by (simp add: kernelvec_lines)
  have "xr c Sp = a" using assms(2) by (simp add: rd_def)
  then have "effects at ?is ?c = Some ?d" using assms(2,3) by (simp add: wr_def wrapping_add_def usize_max_eq)
  then have 2: "asm_run 5 at kernelvec_text ?c = Go (?d\<lparr>cpc := 80\<rparr>)" by (intro run_block [OF kernelvec_blocks(4)]) simp_all
  have 3: "asm_run 1 at kernelvec_text (?d\<lparr>cpc := 80\<rparr>) = Calls ''kerneltrap'' (?d\<lparr>cpc := 81\<rparr>)"
    by (subst run_transfer [where i = "Call ''kerneltrap''"]) (simp_all add: kernelvec_lines)
  have "asm_run (1 + (5 + 1)) at kernelvec_text c = Calls ''kerneltrap'' (?d\<lparr>cpc := 81\<rparr>)"
    by (simp only: asm_run_go [OF 1] asm_run_go [OF 2] 3)
  then show ?thesis by simp
qed


text \<open>From the return of the call to \<open>sret\<close>.\<close>

lemma restore:
  assumes "cpc c = 89" and "rd c Sp = a" and "a + 272 \<le> usize_max" and F: "frame_at (cmem c) a f"
  obtains x where "asm_run 33 at kernelvec_text c =
      (let (pc, u, k) = sret (ccsr c) in Srets pc u (c\<lparr>xr := x, ccsr := k, cpc := 122\<rparr>))" and "\<And>r. r \<noteq> Zero \<Longrightarrow> x r = tf_reg f r"
proof -
  let ?c = "c\<lparr>cpc := 90\<rparr>"
  let ?x = "\<lambda>r. case map_of gp_slots r of Some d \<Rightarrow> load64 (cmem c) (a + d) | None \<Rightarrow> xr c r"
  have a: "xr c Sp = a" using assms(2) by (simp add: rd_def)
  have 1: "asm_run 1 at kernelvec_text c = Go ?c" using run_label [of c kernelvec_text] assms(1) by (simp add: kernelvec_lines)
  have "list_all (\<lambda>(r, d). rd ?c Sp + d \<le> usize_max \<and> r \<noteq> Sp) gp_slots" using gp_slots_ok(2) assms(2,3) by (auto simp: list_all_iff)
  from effects_load [OF this gp_slots_ok(1), of at] have "effects at LOAD_GP ?c = Some (?c\<lparr>xr := ?x\<rparr>)"
    using assms(2) by (simp add: GP_slots cong: option.case_cong)
  moreover have "?x Sp = a" using gp_slots_ok(3) [of Sp] a by simp
  ultimately have "effects at (LOAD_GP @ [Ld Sp 8 Sp]) ?c = Some (?c\<lparr>xr := ?x(Sp := load64 (cmem c) (a + 8))\<rparr>)"
    using assms(3) by (simp add: effects_append wr_def wrapping_add_def usize_max_eq)
  from run_block [OF kernelvec_blocks(7) this, of 121]
  have 2: "asm_run 31 at kernelvec_text ?c = Go (c\<lparr>xr := ?x(Sp := load64 (cmem c) (a + 8)), cpc := 121\<rparr>)" by (simp add: GP_length)
  let ?d = "c\<lparr>xr := ?x(Sp := load64 (cmem c) (a + 8)), cpc := 121\<rparr>"
  have "asm_run 1 at kernelvec_text ?d = transfer kernelvec_text Sret (?d\<lparr>cpc := 122\<rparr>)"
    by (subst run_transfer [where i = Sret]) (simp_all add: kernelvec_lines)
  then have "asm_run (1 + (31 + 1)) at kernelvec_text c = transfer kernelvec_text Sret (?d\<lparr>cpc := 122\<rparr>)"
    by (simp only: asm_run_go [OF 1] asm_run_go [OF 2])
  moreover have "(?x(Sp := load64 (cmem c) (a + 8))) r = tf_reg f r" if "r \<noteq> Zero" for r
    using F gp_slots_ok(3) [of r] that frame_at_reg [OF F, of r] by (auto simp: frame_at_slots split: option.splits)
  ultimately show thesis by (intro that [of "?x(Sp := load64 (cmem c) (a + 8))"]) (auto split: prod.splits)
qed

end
