(* ===== verification/Stub_Props.thy ===== *)
theory Stub_Props
  imports Stubs
begin

text \<open>
  What the assembly files do, over the runs of \<open>Stubs\<close>: the trap vector, the context switch, the return to user mode and the
  entry of the kernel.
\<close>

declare asm_run.simps [simp del]

section \<open>The trap vector\<close>

text \<open>Before a return to user mode \<open>sscratch\<close> gets the top of the trap stack.\<close>

lemma rearm:
  assumes "cpc c = 86" and "rd c Sp = a" and "a + 272 \<le> usize_max" and "sscratch (ccsr c) = 0"
  obtains n c' where "n \<le> 3" and "asm_run n at kernelvec_text c = Go c'" and "cpc c' = 89" and "rd c' Sp = a" and "cmem c' = cmem c"
    and "ccsr c' = (ccsr c)\<lparr>sscratch := (if rd c T1 = 0 then a + 272 else 0)\<rparr>"
proof -
  have j: "asm_run 1 at kernelvec_text c = transfer kernelvec_text (Bnez T1 ''.Lrestore'') (c\<lparr>cpc := 87\<rparr>)"
    by (subst run_transfer [where i = "Bnez T1 ''.Lrestore''"]) (simp_all add: kernelvec_lines assms(1))
  show thesis
  proof (cases "rd c T1 = 0")
    case True
    let ?d = "c\<lparr>cpc := 87, xr := (xr c)(T0 := a + 272), ccsr := (ccsr c)\<lparr>sscratch := a + 272\<rparr>\<rparr>"
    have "effects at [Addi T0 Sp 272, Csrw Sscratch T0] (c\<lparr>cpc := 87\<rparr>) = Some ?d"
      using assms(2,3) by (simp add: wr_def usize_max_eq nat_add_distrib)
    then have 2: "asm_run 2 at kernelvec_text (c\<lparr>cpc := 87\<rparr>) = Go (?d\<lparr>cpc := 89\<rparr>)" by (intro run_block [OF kernelvec_blocks(6)]) simp_all
    have 1: "asm_run 1 at kernelvec_text c = Go (c\<lparr>cpc := 87\<rparr>)" using True j by simp
    have "asm_run (1 + 2) at kernelvec_text c = Go (?d\<lparr>cpc := 89\<rparr>)" by (simp only: asm_run_go [OF 1] 2)
    then show thesis using True assms(2) by (intro that [of "1 + 2" "?d\<lparr>cpc := 89\<rparr>"]) (simp_all add: rd_def)
  next
    case False
    then have "asm_run 1 at kernelvec_text c = Go (c\<lparr>cpc := 89\<rparr>)" using j by (simp add: jump_def kernelvec_labels)
    then show thesis using False assms(2,4) by (intro that [of 1 "c\<lparr>cpc := 89\<rparr>"]) simp_all
  qed
qed

lemma vec_return:
  assumes "cpc c = 81" and "rd c Sp = a" and "a + 272 \<le> usize_max" and F: "frame_at (cmem c) a f" and "sscratch (ccsr c) = 0"
  obtains c' n where "n \<le> 41" and "asm_run n at kernelvec_text c = Srets (tf_sepc f) (tf_sstatus f AND SSTATUS_SPP = 0) c'"
    and "\<And>r. rd c' r = tf_reg f r" and "sscratch (ccsr c') = (if tf_sstatus f AND SSTATUS_SPP = 0 then a + 272 else 0)"
    and "sstatus (ccsr c') = sstatus (snd (snd (sret ((ccsr c)\<lparr>sstatus := tf_sstatus f\<rparr>))))" and "cmem c' = cmem c"
proof -
  have a: "xr c Sp = a" using assms(2) by (simp add: rd_def)
  let ?is = "[Ld T0 248 Sp, Csrw Sepc T0, Ld T1 256 Sp, Csrw Sstatus T1, Andi T1 T1 0x100]"
  let ?spp = "tf_sstatus f AND 0x100"
  let ?d = "c\<lparr>xr := (xr c)(T0 := tf_sepc f, T1 := ?spp), ccsr := (ccsr c)\<lparr>sepc_csr := tf_sepc f, sstatus := tf_sstatus f\<rparr>\<rparr>"
  have "effects at ?is c = Some ?d" using F assms(2,3) a by (simp add: frame_at_slots wr_def wrapping_add_def usize_max_eq)
  then have 1: "asm_run 5 at kernelvec_text c = Go (?d\<lparr>cpc := 86\<rparr>)" using assms(1) by (intro run_block [OF kernelvec_blocks(5)]) simp_all
  have spp: "tf_sstatus f AND SSTATUS_SPP = ?spp" by (simp add: SSTATUS_SPP_def ushl_def)
  obtain n e where e: "n \<le> 3" "asm_run n at kernelvec_text (?d\<lparr>cpc := 86\<rparr>) = Go e" "cpc e = 89" "rd e Sp = a" "cmem e = cmem c"
    "ccsr e = (ccsr ?d)\<lparr>sscratch := (if ?spp = 0 then a + 272 else 0)\<rparr>"
    by (rule rearm [of "?d\<lparr>cpc := 86\<rparr>" a at]) (use assms a that in simp_all)
  have "frame_at (cmem e) a f" using F e(5) by simp
  from restore [OF e(3,4) assms(3) this, of at] obtain x where x: "asm_run 33 at kernelvec_text e =
      (let (pc, u, k) = sret (ccsr e) in Srets pc u (e\<lparr>xr := x, ccsr := k, cpc := 122\<rparr>))" "\<And>r. r \<noteq> Zero \<Longrightarrow> x r = tf_reg f r" by blast
  let ?e = "e\<lparr>xr := x, ccsr := snd (snd (sret (ccsr e))), cpc := 122\<rparr>"
  have "asm_run (5 + (n + 33)) at kernelvec_text c = (let (pc, u, k) = sret (ccsr e) in Srets pc u (e\<lparr>xr := x, ccsr := k, cpc := 122\<rparr>))"
    by (simp only: asm_run_go [OF 1] asm_run_go [OF e(2)] x(1))
  also have "\<dots> = Srets (tf_sepc f) (tf_sstatus f AND SSTATUS_SPP = 0) ?e" by (simp add: sret_def Let_def e(6))
  finally have run: "asm_run (5 + (n + 33)) at kernelvec_text c = Srets (tf_sepc f) (tf_sstatus f AND SSTATUS_SPP = 0) ?e" .
  have "rd ?e r = tf_reg f r" for r using x(2) [of r] by simp
  moreover have "sscratch (ccsr ?e) = (if tf_sstatus f AND SSTATUS_SPP = 0 then a + 272 else 0)"
    "sstatus (ccsr ?e) = sstatus (snd (snd (sret ((ccsr c)\<lparr>sstatus := tf_sstatus f\<rparr>))))"
    by (simp_all add: sret_def Let_def e(6) spp)
  ultimately show thesis using that [OF _ run] e(1,5) by simp
qed


text \<open>The two ways in: below the interrupted stack pointer, or on the trap stack that \<open>sscratch\<close> names.\<close>

definition trap_top :: "core \<Rightarrow> usize" where
  "trap_top c = (if sscratch (ccsr c) = 0 then rd c Sp else sscratch (ccsr c))"

lemma vec_swap:
  assumes "cpc c = 0"
  shows "asm_run 3 at kernelvec_text c =
    Go (c\<lparr>ccsr := (ccsr c)\<lparr>sscratch := rd c Sp\<rparr>, xr := (xr c)(Sp := sscratch (ccsr c)), cpc := if sscratch (ccsr c) = 0 then 3 else 39\<rparr>)"
proof -
  let ?d = "c\<lparr>cpc := 1, ccsr := (ccsr c)\<lparr>sscratch := rd c Sp\<rparr>, xr := (xr c)(Sp := sscratch (ccsr c))\<rparr>"
  have 1: "asm_run 1 at kernelvec_text c = Go (c\<lparr>cpc := 1\<rparr>)" using run_label [of c kernelvec_text] assms by (simp add: kernelvec_lines)
  have "effects at [Csrrw Sp Sscratch Sp] (c\<lparr>cpc := 1\<rparr>) = Some ?d" by (simp add: wr_def)
  then have 2: "asm_run 1 at kernelvec_text (c\<lparr>cpc := 1\<rparr>) = Go (?d\<lparr>cpc := 2\<rparr>)" by (intro run_block [OF kernelvec_blocks(1)]) simp_all
  have 3: "asm_run 1 at kernelvec_text (?d\<lparr>cpc := 2\<rparr>) = transfer kernelvec_text (Bnez Sp ''.Lfrom_user'') (?d\<lparr>cpc := 3\<rparr>)"
    by (subst run_transfer [where i = "Bnez Sp ''.Lfrom_user''"]) (simp_all add: kernelvec_lines)
  have "asm_run (1 + (1 + 1)) at kernelvec_text c = transfer kernelvec_text (Bnez Sp ''.Lfrom_user'') (?d\<lparr>cpc := 3\<rparr>)"
    by (simp only: asm_run_go [OF 1] asm_run_go [OF 2] 3)
  moreover have "1 + (1 + 1) = (3 :: nat)" by simp
  ultimately show ?thesis by (simp only: transfer.simps) (simp add: jump_def kernelvec_labels)
qed


lemma vec_save:
  assumes "cpc c = 0" and "trap_top c = a + 272" and "a + 272 \<le> usize_max"
  obtains n d where "n \<le> 39" and "asm_run n at kernelvec_text c = Go d" and "cpc d = 74" and "rd d Sp = a"
    and "ccsr d = (ccsr c)\<lparr>sscratch := 0\<rparr>" and "cmem d = stores a (map (\<lambda>(r, d). (d, rd c r)) gp_slots @ [(8, rd c Sp)]) (cmem c)"
proof (cases "sscratch (ccsr c) = 0")
  case True
  let ?c = "c\<lparr>ccsr := (ccsr c)\<lparr>sscratch := a + 272\<rparr>, xr := (xr c)(Sp := 0)\<rparr>"
  have sp: "rd c Sp = a + 272" using assms(2) True by (simp add: trap_top_def)
  have 1: "asm_run 3 at kernelvec_text c = Go (?c\<lparr>cpc := 3\<rparr>)" using vec_swap [OF assms(1), of at] True sp by simp
  have 2: "asm_run 1 at kernelvec_text (?c\<lparr>cpc := 3\<rparr>) = Go (?c\<lparr>cpc := 4\<rparr>)" by (subst run_label) (simp_all add: kernelvec_lines)
  let ?d = "?c\<lparr>cpc := 4, ccsr := (ccsr c)\<lparr>sscratch := 0\<rparr>, xr := (xr c)(Sp := a, T0 := a + 272),
      cmem := stores a (map (\<lambda>(r, d). (d, rd c r)) gp_slots @ [(8, a + 272)]) (cmem c)\<rparr>"
  have r: "r \<noteq> Sp \<Longrightarrow> rd (?c\<lparr>cpc := 4\<rparr>) r = rd c r" for r by (simp add: rd_def)
  have "effects at ([Csrrw Sp Sscratch Sp, Addi Sp Sp (- 272)] @ SAVE_GP @ [Addi T0 Sp 272, Sd T0 8 Sp]) (?c\<lparr>cpc := 4\<rparr>) = Some ?d"
    by (subst enter_kernel_path [OF _ _ assms(3) r]) simp_all
  from run_block [OF kernelvec_blocks(2) this, of 38]
  have 3: "asm_run 34 at kernelvec_text (?c\<lparr>cpc := 4\<rparr>) = Go (?d\<lparr>cpc := 38\<rparr>)" by (simp add: GP_length)
  have 4: "asm_run 1 at kernelvec_text (?d\<lparr>cpc := 38\<rparr>) = Go (?d\<lparr>cpc := 74\<rparr>)"
    by (subst run_transfer [where i = "J ''.Lsave_csrs''"]) (simp_all add: kernelvec_lines jump_def kernelvec_labels)
  have "asm_run (3 + (1 + (34 + 1))) at kernelvec_text c = Go (?d\<lparr>cpc := 74\<rparr>)"
    by (simp only: asm_run_go [OF 1] asm_run_go [OF 2] asm_run_go [OF 3] 4)
  from that [OF _ this] show thesis using sp by simp
next
  case False
  let ?c = "c\<lparr>ccsr := (ccsr c)\<lparr>sscratch := rd c Sp\<rparr>, xr := (xr c)(Sp := a + 272)\<rparr>"
  have sp: "sscratch (ccsr c) = a + 272" using assms(2) False by (simp add: trap_top_def)
  have 1: "asm_run 3 at kernelvec_text c = Go (?c\<lparr>cpc := 39\<rparr>)" using vec_swap [OF assms(1), of at] False sp by simp
  have 2: "asm_run 1 at kernelvec_text (?c\<lparr>cpc := 39\<rparr>) = Go (?c\<lparr>cpc := 40\<rparr>)" by (subst run_label) (simp_all add: kernelvec_lines)
  let ?d = "?c\<lparr>cpc := 40, xr := (xr c)(Sp := a, T0 := rd c Sp), ccsr := (ccsr c)\<lparr>sscratch := 0\<rparr>,
      cmem := stores a (map (\<lambda>(r, d). (d, rd c r)) gp_slots @ [(8, rd c Sp)]) (cmem c)\<rparr>"
  have r: "r \<noteq> Sp \<Longrightarrow> rd (?c\<lparr>cpc := 40\<rparr>) r = rd c r" for r by (simp add: rd_def)
  have "effects at ([Addi Sp Sp (- 272)] @ SAVE_GP @ [Csrr T0 Sscratch, Sd T0 8 Sp, Csrw Sscratch Zero]) (?c\<lparr>cpc := 40\<rparr>) = Some ?d"
    by (subst enter_user_path [OF _ assms(3) r]) simp_all
  from run_block [OF kernelvec_blocks(3) this, of 74]
  have 3: "asm_run 34 at kernelvec_text (?c\<lparr>cpc := 40\<rparr>) = Go (?d\<lparr>cpc := 74\<rparr>)" by (simp add: GP_length)
  have "asm_run (3 + (1 + 34)) at kernelvec_text c = Go (?d\<lparr>cpc := 74\<rparr>)"
    by (simp only: asm_run_go [OF 1] asm_run_go [OF 2] 3)
  from that [OF _ this] show thesis by simp
qed


lemma vec_call:
  assumes "cpc c = 0" and "trap_top c = a + 272" and "a + 272 \<le> usize_max"
  obtains n d where "n \<le> 64" and "asm_run n at kernelvec_text c = Calls ''kerneltrap'' d" and "cpc d = 81" and "rd d Sp = a" and "rd d A0 = a"
    and "sscratch (ccsr d) = 0" and "cmem d = stores a (frame_values c) (cmem c)"
proof -
  obtain n d where d: "n \<le> 39" "asm_run n at kernelvec_text c = Go d" "cpc d = 74" "rd d Sp = a" "ccsr d = (ccsr c)\<lparr>sscratch := 0\<rparr>"
    "cmem d = stores a (map (\<lambda>(r, d). (d, rd c r)) gp_slots @ [(8, rd c Sp)]) (cmem c)" by (rule vec_save [OF assms])
  from save_csrs [OF d(3,4) assms(3), of at] have "asm_run (n + 7) at kernelvec_text c = Calls ''kerneltrap''
    (d\<lparr>cmem := stores a [(248, sepc_csr (ccsr d)), (256, sstatus (ccsr d))] (cmem d),
       xr := (xr d)(T0 := sstatus (ccsr d), A0 := a), cpc := 81\<rparr>)" by (simp only: asm_run_go [OF d(2)])
  from that [OF _ this] show thesis using d by (simp add: frame_values_def rd_def)
qed

text \<open>
  C21. The trap vector, from the first instruction to \<open>sret\<close>, for a trap from the kernel or from user mode: \<open>kerneltrap\<close> is
  called with a frame that holds every register of the interrupted code, its pc and \<open>sstatus\<close>, on the stack the protocol of
  \<open>sscratch\<close> selects, with \<open>sscratch\<close> cleared and the memory outside the frame untouched; when it returns, the hart resumes at the
  frame's \<open>sepc\<close>, in the mode \<open>sstatus\<close> selects, with every register as the frame has it, and \<open>sscratch\<close> names the trap stack
  again exactly when user mode resumes.
\<close>

theorem kernelvec_correct:
  assumes "cpc c = 0" and "272 \<le> trap_top c" and "trap_top c \<le> usize_max" and "\<And>r. rd c r \<le> usize_max"
    and "sepc_csr (ccsr c) \<le> usize_max" and "sstatus (ccsr c) \<le> usize_max" and "handler_abi kt handle"
  shows "\<exists>c1 c'. let a = trap_top c - 272; f = handle (frame_of c); to_user = (tf_sstatus f AND SSTATUS_SPP = 0) in
     asm_run 64 at kernelvec_text c = Calls ''kerneltrap'' c1 \<and> rd c1 A0 = a \<and> frame_at (cmem c1) a (frame_of c) \<and>
     sscratch (ccsr c1) = 0 \<and> (\<forall>x. x < a \<or> trap_top c \<le> x \<longrightarrow> cmem c1 x = cmem c x) \<and>
     asm_run 64 at kernelvec_text (kt c1) = Srets (tf_sepc f) to_user c' \<and> (\<forall>r. rd c' r = tf_reg f r) \<and>
     sscratch (ccsr c') = (if to_user then trap_top c else 0) \<and>
     sstatus (ccsr c') = sstatus (snd (snd (sret ((ccsr (kt c1))\<lparr>sstatus := tf_sstatus f\<rparr>)))) \<and> cmem c' = cmem (kt c1)"
proof -
  obtain a where a: "trap_top c = a + 272" using assms(2) by (metis add.commute le_Suc_ex)
  then have b: "a + 272 \<le> usize_max" using assms(3) by simp
  obtain n d where d: "n \<le> 64" "asm_run n at kernelvec_text c = Calls ''kerneltrap'' d" "cpc d = 81" "rd d Sp = a" "rd d A0 = a"
    "sscratch (ccsr d) = 0" "cmem d = stores a (frame_values c) (cmem c)" by (rule vec_call [OF assms(1) a b])
  have F: "frame_at (cmem d) a (frame_of c)" unfolding d(7) by (rule frame_values_at [OF assms(4-6)])
  let ?f = "handle (frame_of c)"
  have k: "cpc (kt d) = 81" "rd (kt d) Sp = a" "sscratch (ccsr (kt d)) = 0" "frame_at (cmem (kt d)) a ?f"
    using assms(7) [unfolded handler_abi_def, rule_format, of d "frame_of c"] F d(3-6) by simp_all
  obtain c' m where m: "m \<le> 41" "asm_run m at kernelvec_text (kt d) = Srets (tf_sepc ?f) (tf_sstatus ?f AND SSTATUS_SPP = 0) c'"
    "\<And>r. rd c' r = tf_reg ?f r" "sscratch (ccsr c') = (if tf_sstatus ?f AND SSTATUS_SPP = 0 then a + 272 else 0)"
    "sstatus (ccsr c') = sstatus (snd (snd (sret ((ccsr (kt d))\<lparr>sstatus := tf_sstatus ?f\<rparr>))))" "cmem c' = cmem (kt d)"
    by (rule vec_return [OF k(1,2) b k(4,3)]) (rule that)
  have "asm_run 64 at kernelvec_text c = Calls ''kerneltrap'' d" by (rule asm_run_more [OF d(2) _ d(1)]) simp
  moreover have "asm_run 64 at kernelvec_text (kt d) = Srets (tf_sepc ?f) (tf_sstatus ?f AND SSTATUS_SPP = 0) c'"
    by (rule asm_run_more [OF m(2)]) (use m(1) in simp_all)
  moreover have "\<forall>x. x < a \<or> a + 272 \<le> x \<longrightarrow> cmem d x = cmem c x" using frame_values_outside [of _ a c "cmem c"] d(7) by simp
  ultimately show ?thesis using F d(5,6) m a by (auto simp: Let_def)
qed

definition demo_core :: core where
  "demo_core = \<lparr>xr = \<lambda>r. if r = Sp then 0x3ffffff0 else 7,
     ccsr = \<lparr>sstatus = 0x20, sie = 0, sepc_csr = 0x40000010, stvec = 0, scause = 8, stval = 0, satp = 0, sscratch = 0x80404000\<rparr>,
     cmem = \<lambda>_. 0, cpc = 0\<rparr>"

theorem kernelvec_correct_witness:
  "\<exists>c1 c'. asm_run 64 (\<lambda>_. 0) kernelvec_text demo_core = Calls ''kerneltrap'' c1 \<and> rd c1 A0 = 0x80403ef0 \<and>
     asm_run 64 (\<lambda>_. 0) kernelvec_text c1 = Srets 0x40000010 True c' \<and> rd c' Sp = 0x3ffffff0 \<and> rd c' A0 = 7 \<and>
     sscratch (ccsr c') = 0x80404000"
proof -
  have abi: "handler_abi (\<lambda>c. c) (\<lambda>f. f)" by (simp add: handler_abi_def)
  have top: "trap_top demo_core = 0x80404000" by (simp add: trap_top_def demo_core_def)
  have r: "rd demo_core r \<le> usize_max" for r by (simp add: rd_def demo_core_def usize_max_eq)
  have f: "tf_sepc (frame_of demo_core) = 0x40000010" "tf_sstatus (frame_of demo_core) AND SSTATUS_SPP = 0"
    by (simp_all add: frame_of_def demo_core_def SSTATUS_SPP_def ushl_def)
  have v: "rd demo_core Sp = 0x3ffffff0" "rd demo_core A0 = 7" "cpc demo_core = 0" "sepc_csr (ccsr demo_core) \<le> usize_max"
    "sstatus (ccsr demo_core) \<le> usize_max" by (simp_all add: demo_core_def rd_def usize_max_eq)
  from kernelvec_correct [OF v(3) _ _ r v(4,5) abi, of "\<lambda>_. 0"] show ?thesis
    by (auto simp: top f Let_def frame_of_reg v usize_max_eq)
qed


section \<open>The context switch\<close>

lemma ctx_slots_ok:
  "distinct (map fst ctx_slots)" "list_all (\<lambda>(r, d). d + 8 \<le> 112 \<and> r \<notin> {Zero, A0, A1}) ctx_slots" "spaced (map (\<lambda>(r, d). (d, v r)) ctx_slots)"
  "length ctx_slots = 14"
  by (simp_all add: ctx_slots_def)

lemma swtch_lines:
  "length swtch_text = 30" "swtch_text ! 0 = Label ''swtch''" "swtch_text ! 29 = Ins Ret"
  "take 28 (drop 1 swtch_text) = map Ins (map (\<lambda>(r, d). Sd r d A0) ctx_slots @ map (\<lambda>(r, d). Ld r d A1) ctx_slots)"
  by code_simp+

lemma swtch_effects:
  assumes "rd c A0 = old" and "rd c A1 = new" and "old + 112 \<le> usize_max" and "new + 112 \<le> usize_max"
  shows "effects at (map (\<lambda>(r, d). Sd r d A0) ctx_slots @ map (\<lambda>(r, d). Ld r d A1) ctx_slots) c =
    (let m = stores old (map (\<lambda>(r, d). (d, rd c r)) ctx_slots) (cmem c) in
     Some (c\<lparr>cmem := m, xr := \<lambda>r. case map_of ctx_slots r of Some d \<Rightarrow> load64 m (new + d) | None \<Rightarrow> xr c r\<rparr>))"
proof -
  let ?m = "stores old (map (\<lambda>(r, d). (d, rd c r)) ctx_slots) (cmem c)"
  have "list_all (\<lambda>(r, d). rd c A0 + d \<le> usize_max) ctx_slots" "list_all (\<lambda>(r, d). rd (c\<lparr>cmem := ?m\<rparr>) A1 + d \<le> usize_max \<and> r \<noteq> A1) ctx_slots"
    using ctx_slots_ok(2) assms by (auto simp: list_all_iff)
  from effects_save [OF this(1), of at] effects_load [OF this(2) ctx_slots_ok(1), of at] show ?thesis
    using assms by (simp add: effects_append Let_def cong: option.case_cong)
qed


lemma ctx_at_load:
  "ctx_at m a k \<Longrightarrow> k = \<lparr>ctx_ra = load64 m a, ctx_sp = load64 m (a + 8), ctx_s = map (\<lambda>i. load64 m (a + 8 * i)) [2..<14]\<rparr>"
proof -
  assume k: "ctx_at m a k"
  then have "[0..<length (ctx_ra k # ctx_sp k # ctx_s k)] = 0 # 1 # [2..<14]" by (simp add: ctx_at_def upt_rec [of 0] upt_rec [of "Suc 0"] numeral_2_eq_2)
  then show ?thesis using k unfolding ctx_at_def words_at_def by (cases k) (simp only:, auto)
qed

lemma words_at_cong: "(\<And>x. a \<le> x \<Longrightarrow> x < a + 8 * length ws \<Longrightarrow> m x = m' x) \<Longrightarrow> words_at m a ws \<longleftrightarrow> words_at m' a ws"
proof -
  assume "\<And>x. a \<le> x \<Longrightarrow> x < a + 8 * length ws \<Longrightarrow> m x = m' x"
  then have "load64 m (a + 8 * i) = load64 m' (a + 8 * i)" if "i < length ws" for i using that by (intro load64_cong) simp
  then have "map (\<lambda>i. load64 m (a + 8 * i)) [0..<length ws] = map (\<lambda>i. load64 m' (a + 8 * i)) [0..<length ws]" by simp
  then show ?thesis by (simp only: words_at_def)
qed

lemma ctx_at_cong: "(\<And>x. a \<le> x \<Longrightarrow> x < a + 112 \<Longrightarrow> m x = m' x) \<Longrightarrow> ctx_at m a k \<Longrightarrow> ctx_at m' a k"
  using words_at_cong [of a "ctx_ra k # ctx_sp k # ctx_s k" m m'] by (auto simp: ctx_at_def)

lemma ctx_of_ra: "rd c Ra = ctx_ra (ctx_of c)"
  by (simp add: ctx_of_def)

text \<open>The registers loaded from a context are that context.\<close>

lemma ctx_of_load:
  assumes "ctx_at m a k"
  shows "ctx_of (c\<lparr>xr := \<lambda>r. case map_of ctx_slots r of Some d \<Rightarrow> load64 m (a + d) | None \<Rightarrow> x r\<rparr>) = k"
  by (subst ctx_at_load [OF assms]) (simp add: ctx_of_def ctx_slots_def upt_rec)

text \<open>
  C22. \<open>swtch\<close>: the callee-saved registers of the running code are in the old context, those of the new context in the hart, and
  control is where the new context last called \<open>swtch\<close>; no other register, no CSR and no other memory changes.
\<close>

theorem swtch_correct:
  assumes "cpc c = 0" and "rd c A0 = old" and "rd c A1 = new" and "old + 112 \<le> usize_max" and "new + 112 \<le> usize_max"
    and "old + 112 \<le> new \<or> new + 112 \<le> old" and "ctx_at (cmem c) new k" and "\<And>r. rd c r \<le> usize_max"
  shows "\<exists>c'. asm_run 32 at swtch_text c = Rets (ctx_ra k) c' \<and> ctx_of c' = k \<and> ctx_at (cmem c') old (ctx_of c) \<and> ctx_at (cmem c') new k \<and>
     (\<forall>r. map_of ctx_slots r = None \<longrightarrow> rd c' r = rd c r) \<and> ccsr c' = ccsr c \<and>
     (\<forall>x. x < old \<or> old + 112 \<le> x \<longrightarrow> cmem c' x = cmem c x)"
proof -
  let ?c = "c\<lparr>cpc := 1\<rparr>" and ?vs = "map (\<lambda>(r, d). (d, rd c r)) ctx_slots"
  let ?m = "stores old ?vs (cmem c)"
  let ?d = "?c\<lparr>cmem := ?m, xr := \<lambda>r. case map_of ctx_slots r of Some d \<Rightarrow> load64 ?m (new + d) | None \<Rightarrow> xr c r\<rparr>"
  have out: "?m x = cmem c x" if "x < old \<or> old + 112 \<le> x" for x
    using that ctx_slots_ok(2) by (intro stores_outside [of 112]) (auto simp: list_all_iff)
  have k: "ctx_at ?m new k" using assms(6) by (intro ctx_at_cong [OF _ assms(7)] out [symmetric]) linarith
  have "load64 ?m (old + d) = rd c r" if "(r, d) \<in> set ctx_slots" for r d
    using that by (intro load_stores ctx_slots_ok(3) assms(8)) force
  then have o: "ctx_at ?m old (ctx_of c)" by (auto simp: ctx_at_slots list_all_iff)
  have kd: "ctx_of (?d\<lparr>cpc := n\<rparr>) = k" for n using ctx_of_load [OF k, where c = "c\<lparr>cpc := n, cmem := ?m\<rparr>" and x = "xr c"] by (simp add: ctx_of_def)
  have 1: "asm_run 1 at swtch_text c = Go ?c" using run_label [of c swtch_text] assms(1) by (simp add: swtch_lines)
  have "effects at (map (\<lambda>(r, d). Sd r d A0) ctx_slots @ map (\<lambda>(r, d). Ld r d A1) ctx_slots) ?c = Some ?d"
    using swtch_effects [of ?c old new at] assms(2-5) by (simp add: Let_def cong: option.case_cong)
  from run_block [OF swtch_lines(4) this, of 29] have 2: "asm_run 28 at swtch_text ?c = Go (?d\<lparr>cpc := 29\<rparr>)" by (simp add: ctx_slots_ok)
  have "rd (?d\<lparr>cpc := 30\<rparr>) Ra = ctx_ra k" by (simp only: ctx_of_ra kd)
  then have 3: "asm_run 1 at swtch_text (?d\<lparr>cpc := 29\<rparr>) = Rets (ctx_ra k) (?d\<lparr>cpc := 30\<rparr>)"
    by (subst run_transfer [where i = Ret]) (simp_all add: swtch_lines)
  have "asm_run (1 + (28 + 1)) at swtch_text c = Rets (ctx_ra k) (?d\<lparr>cpc := 30\<rparr>)" by (simp only: asm_run_go [OF 1] asm_run_go [OF 2] 3)
  from asm_run_more [OF this, of 32] have "asm_run 32 at swtch_text c = Rets (ctx_ra k) (?d\<lparr>cpc := 30\<rparr>)" by simp
  then show ?thesis using kd o k out by (intro exI [of _ "?d\<lparr>cpc := 30\<rparr>"]) (simp add: rd_def)
qed


theorem swtch_correct_witness:
  "\<exists>c'. asm_run 32 (\<lambda>_. 0) swtch_text (demo_core\<lparr>xr := \<lambda>r. if r = A0 then 0x80300000 else if r = A1 then 0x80301000 else 7,
       cmem := store64 (\<lambda>_. 0) 0x80301000 0x80205000\<rparr>) = Rets 0x80205000 c' \<and>
     ctx_of c' = zeroed\<lparr>ctx_ra := 0x80205000\<rparr> \<and> ctx_at (cmem c') 0x80300000 \<lparr>ctx_ra = 7, ctx_sp = 7, ctx_s = replicate 12 7\<rparr>"
proof -
  let ?c = "demo_core\<lparr>xr := \<lambda>r. if r = A0 then 0x80300000 else if r = A1 then 0x80301000 else 7,
       cmem := store64 (\<lambda>_. 0) 0x80301000 0x80205000\<rparr>"
  have rep: "replicate 12 v = [v, v, v, v, v, v, v, v, v, v, v, v]" for v :: usize by (simp add: numeral_eq_Suc)
  have "load64 (\<lambda>_. 0) x = 0" for x by (simp add: load64_def load_le_zero)
  then have "load64 (store64 (\<lambda>_. 0) 0x80301000 0x80205000) (0x80301000 + 8 * i) = (if i = 0 then 0x80205000 else 0)" for i
    by (auto simp: load64_store64 load64_store64_other usize_max_eq)
  then have k: "ctx_at (cmem ?c) 0x80301000 (zeroed\<lparr>ctx_ra := 0x80205000\<rparr>)"
    by (simp only: ctx_at_def words_at_def) (simp add: zeroed_def upt_rec rep)
  have r: "rd ?c r \<le> usize_max" for r by (simp add: rd_def usize_max_eq)
  have o: "ctx_of ?c = \<lparr>ctx_ra = 7, ctx_sp = 7, ctx_s = replicate 12 7\<rparr>" by (simp add: ctx_of_def rep)
  have "cpc ?c = 0" "rd ?c A0 = 0x80300000" "rd ?c A1 = 0x80301000" by (simp_all add: demo_core_def rd_def)
  from swtch_correct [OF this _ _ _ k r, of "\<lambda>_. 0"] show ?thesis unfolding o by (auto simp: usize_max_eq zeroed_def)
qed

section \<open>The return to user mode\<close>

definition user_slots :: "(xreg \<times> usize) list" where
  "user_slots = filter (\<lambda>(r, _). r \<noteq> A0) gp_slots"

lemma userret_lines:
  "length userret_text = 38" "userret_text ! 0 = Label ''userret''" "userret_text ! 37 = Ins Sret"
  "take 36 (drop 1 userret_text) = map Ins ([Csrw Sscratch A1, Ld T0 248 A0, Csrw Sepc T0, Ld T0 256 A0, Csrw Sstatus T0] @
     map (\<lambda>(r, d). Ld r d A0) user_slots @ [Ld Sp 8 A0, Ld A0 72 A0])" "length user_slots = 29"
  by code_simp+

lemma user_slots_ok:
  "distinct (map fst user_slots)" "list_all (\<lambda>(r, d). d + 8 \<le> 248 \<and> r \<notin> {Zero, Sp, A0}) user_slots"
  "map_of user_slots r = (if r = A0 then None else map_of gp_slots r)"
  by (simp add: user_slots_def gp_slots_def, simp add: user_slots_def gp_slots_def, cases r, simp_all add: user_slots_def gp_slots_def)

lemma userret_effects:
  assumes "rd c A0 = a" and "a + 272 \<le> usize_max" and F: "frame_at (cmem c) a f"
  obtains x where "effects at ([Csrw Sscratch A1, Ld T0 248 A0, Csrw Sepc T0, Ld T0 256 A0, Csrw Sstatus T0] @
      map (\<lambda>(r, d). Ld r d A0) user_slots @ [Ld Sp 8 A0, Ld A0 72 A0]) c =
    Some (c\<lparr>ccsr := (ccsr c)\<lparr>sscratch := rd c A1, sepc_csr := tf_sepc f, sstatus := tf_sstatus f\<rparr>, xr := x\<rparr>)"
    and "\<And>r. r \<noteq> Zero \<Longrightarrow> x r = tf_reg f r"
proof -
  let ?k = "(ccsr c)\<lparr>sscratch := rd c A1, sepc_csr := tf_sepc f, sstatus := tf_sstatus f\<rparr>"
  let ?c = "c\<lparr>ccsr := ?k, xr := (xr c)(T0 := tf_sstatus f)\<rparr>"
  have a: "xr c A0 = a" using assms(1) by (simp add: rd_def)
  have 1: "effects at [Csrw Sscratch A1, Ld T0 248 A0, Csrw Sepc T0, Ld T0 256 A0, Csrw Sstatus T0] c = Some ?c"
    using assms a by (simp add: frame_at_slots wr_def wrapping_add_def usize_max_eq)
  let ?x = "\<lambda>r. case map_of user_slots r of Some d \<Rightarrow> load64 (cmem c) (a + d) | None \<Rightarrow> ((xr c)(T0 := tf_sstatus f)) r"
  have "list_all (\<lambda>(r, d). rd ?c A0 + d \<le> usize_max \<and> r \<noteq> A0) user_slots" using user_slots_ok(2) assms(2) a by (auto simp: list_all_iff)
  from effects_load [OF this user_slots_ok(1), of at] have 2: "effects at (map (\<lambda>(r, d). Ld r d A0) user_slots) ?c = Some (?c\<lparr>xr := ?x\<rparr>)"
    by (simp add: a cong: option.case_cong)
  have "?x A0 = a" by (simp add: user_slots_ok(3) a)
  then have 3: "effects at [Ld Sp 8 A0, Ld A0 72 A0] (?c\<lparr>xr := ?x\<rparr>) = Some (?c\<lparr>xr := ?x(Sp := load64 (cmem c) (a + 8), A0 := load64 (cmem c) (a + 72))\<rparr>)"
    using assms(2) by (simp add: wr_def wrapping_add_def usize_max_eq)
  let ?y = "?x(Sp := load64 (cmem c) (a + 8), A0 := load64 (cmem c) (a + 72))"
  have A0: "load64 (cmem c) (a + 72) = tf_reg f A0" by (rule frame_at_reg [OF F]) (simp add: gp_slots_def)
  have Sp: "load64 (cmem c) (a + 8) = tf_reg f Sp" using F by (simp add: frame_at_slots)
  have y: "?y r = tf_reg f r" if nz: "r \<noteq> Zero" for r
  proof (cases "r = Sp \<or> r = A0")
    case True
    then show ?thesis using A0 Sp by auto
  next
    case False
    then obtain d where "map_of gp_slots r = Some d" using gp_slots_ok(3) [of r] nz by auto
    then show ?thesis using False frame_at_reg [OF F, of r d] by (simp add: user_slots_ok(3))
  qed
  show thesis by (rule that [of ?y, OF _ y]) (simp only: effects_append 1 2 3 option.case, simp)
qed


text \<open>
  C23. \<open>userret.S\<close> implements the definition of \<open>userret\<close> that \<open>fork\<close>'s child runs: from a frame in memory the hart starts user
  code at the frame's pc with every register as the frame has it, \<open>sscratch\<close> at the top of the kernel stack, and the CSRs of the model.
\<close>

theorem userret_refines:
  assumes "cpc c = 0" and "rd c A0 = a" and "a + 272 \<le> usize_max" and "frame_at (cmem c) a f" and "ccsr c = csr s"
  shows "\<exists>c'. case userret f (rd c A1) s of (l, s') \<Rightarrow>
     asm_run 40 at userret_text c = Srets (upc l) (umode l) c' \<and> uregs l = Regs f \<and> (\<forall>r. rd c' r = tf_reg f r) \<and>
     ccsr c' = csr s' \<and> cmem c' = cmem c"
proof -
  let ?c = "c\<lparr>cpc := 1\<rparr>" and ?k = "(ccsr c)\<lparr>sscratch := rd c A1, sepc_csr := tf_sepc f, sstatus := tf_sstatus f\<rparr>"
  have 1: "asm_run 1 at userret_text c = Go ?c" using run_label [of c userret_text] assms(1) by (simp add: userret_lines)
  obtain x where x: "effects at ([Csrw Sscratch A1, Ld T0 248 A0, Csrw Sepc T0, Ld T0 256 A0, Csrw Sstatus T0] @
      map (\<lambda>(r, d). Ld r d A0) user_slots @ [Ld Sp 8 A0, Ld A0 72 A0]) ?c = Some (?c\<lparr>ccsr := ?k, xr := x\<rparr>)"
    "\<And>r. r \<noteq> Zero \<Longrightarrow> x r = tf_reg f r"
    by (rule userret_effects [of ?c a f at]) (use assms in simp_all)
  have 2: "asm_run 36 at userret_text ?c = Go (c\<lparr>ccsr := ?k, xr := x, cpc := 37\<rparr>)"
    using run_block [OF userret_lines(4) x(1), of 37] by (simp add: userret_lines)
  have 3: "asm_run 1 at userret_text (c\<lparr>ccsr := ?k, xr := x, cpc := 37\<rparr>) = transfer userret_text Sret (c\<lparr>ccsr := ?k, xr := x, cpc := 38\<rparr>)"
    by (subst run_transfer [where i = Sret]) (simp_all add: userret_lines)
  have "asm_run (1 + (36 + 1)) at userret_text c = transfer userret_text Sret (c\<lparr>ccsr := ?k, xr := x, cpc := 38\<rparr>)"
    by (simp only: asm_run_go [OF 1] asm_run_go [OF 2] 3)
  from asm_run_more [OF this, of 40] have "asm_run 40 at userret_text c = transfer userret_text Sret (c\<lparr>ccsr := ?k, xr := x, cpc := 38\<rparr>)"
    by (simp add: split_def Let_def)
  then show ?thesis using x(2) assms(5)
    by (intro exI [of _ "c\<lparr>ccsr := snd (snd (sret ?k)), xr := x, cpc := 38\<rparr>"]) (simp add: userret_def split_def Let_def)
qed

theorem userret_refines_witness:
  "\<exists>c'. asm_run 40 (\<lambda>_. 0) userret_text (demo_core\<lparr>xr := \<lambda>r. if r = A0 then 0x80300000 else 0x80404000,
       cmem := stores 0x80300000 (frame_values demo_core) (\<lambda>_. 0)\<rparr>) = Srets 0x40000010 True c' \<and>
     rd c' Sp = 0x3ffffff0 \<and> rd c' A0 = 7 \<and> sscratch (ccsr c') = 0x80404000"
proof -
  let ?c = "demo_core\<lparr>xr := \<lambda>r. if r = A0 then 0x80300000 else 0x80404000, cmem := stores 0x80300000 (frame_values demo_core) (\<lambda>_. 0)\<rparr>"
  let ?f = "frame_of demo_core" and ?s = "\<lparr>csr = ccsr demo_core, noff = 0, intena = False\<rparr>"
  have "frame_at (stores 0x80300000 (frame_values demo_core) (\<lambda>_. 0)) 0x80300000 ?f"
    by (rule frame_values_at) (simp_all add: demo_core_def rd_def usize_max_eq)
  then have F: "frame_at (cmem ?c) 0x80300000 ?f" by simp
  have c: "cpc ?c = 0" "rd ?c A0 = 0x80300000" "(0x80300000 :: usize) + 272 \<le> usize_max" "ccsr ?c = csr ?s" "rd ?c A1 = 0x80404000"
    by (simp_all add: demo_core_def rd_def usize_max_eq)
  have u: "tf_sepc ?f = 0x40000010" "tf_sstatus ?f AND SSTATUS_SPP = 0" "rd demo_core Sp = 0x3ffffff0" "rd demo_core A0 = 7"
    by (simp_all add: frame_of_def demo_core_def SSTATUS_SPP_def ushl_def rd_def)
  from userret_refines [OF c(1-3) F c(4), of "\<lambda>_. 0"] show ?thesis
    unfolding c(5) by (auto simp: userret_def sret_def Let_def u frame_of_reg)
qed

section \<open>The entry of the kernel\<close>

lemma entry_lines:
  "length entry_text = 14" "entry_text ! 0 = Label ''_entry''" "entry_text ! 3 = Label ''1''" "entry_text ! 4 = Ins (Bgeu T0 T1 ''2'')"
  "entry_text ! 7 = Ins (J ''1'')" "entry_text ! 8 = Label ''2''" "entry_text ! 10 = Ins (Call ''kmain'')"
  "take 2 (drop 1 entry_text) = map Ins [La T0 ''__bss_start'', La T1 ''__bss_end'']"
  "take 2 (drop 5 entry_text) = map Ins [Sd Zero 0 T0, Addi T0 T0 8]"
  "take 1 (drop 9 entry_text) = map Ins [La Sp ''__boot_stack_top'']"
  "position (\<lambda>x. x = Label ''1'') entry_text = Some 3" "position (\<lambda>x. x = Label ''2'') entry_text = Some 8"
  by code_simp+

lemma store64_zero: "store64 m a 0 = (\<lambda>x. if a \<le> x \<and> x < a + 8 then 0 else m x)"
  by (auto simp: store64_def store_le_def)

text \<open>One turn of the loop that clears \<open>.bss\<close>.\<close>

lemma bss_turn:
  assumes "cpc c = 3" and "rd c T0 = b" and "rd c T1 = e" and "b < e" and "b + 8 \<le> usize_max"
  shows "asm_run 5 at entry_text c = Go (c\<lparr>cmem := store64 (cmem c) b 0, xr := (xr c)(T0 := b + 8), cpc := 3\<rparr>)"
proof -
  let ?c = "c\<lparr>cpc := 5\<rparr>" and ?d = "c\<lparr>cmem := store64 (cmem c) b 0, xr := (xr c)(T0 := b + 8)\<rparr>"
  have 1: "asm_run 1 at entry_text c = Go (c\<lparr>cpc := 4\<rparr>)" using run_label [of c entry_text] assms(1) by (simp add: entry_lines)
  have 2: "asm_run 1 at entry_text (c\<lparr>cpc := 4\<rparr>) = Go ?c"
    using assms by (subst run_transfer [where i = "Bgeu T0 T1 ''2''"]) (simp_all add: entry_lines)
  have "effects at [Sd Zero 0 T0, Addi T0 T0 8] ?c = Some (?d\<lparr>cpc := 5\<rparr>)"
    using assms(2,5) by (simp add: wr_def wrapping_add_def usize_max_eq nat_add_distrib)
  from run_block [OF entry_lines(9) this, of 7] have 3: "asm_run 2 at entry_text ?c = Go (?d\<lparr>cpc := 7\<rparr>)" by simp
  have 4: "asm_run 1 at entry_text (?d\<lparr>cpc := 7\<rparr>) = Go (?d\<lparr>cpc := 3\<rparr>)"
    by (subst run_transfer [where i = "J ''1''"]) (simp_all add: entry_lines jump_def)
  have "asm_run (1 + (1 + (2 + 1))) at entry_text c = Go (?d\<lparr>cpc := 3\<rparr>)"
    by (simp only: asm_run_go [OF 1] asm_run_go [OF 2] asm_run_go [OF 3] 4)
  then show ?thesis by simp
qed

lemma bss_loop:
  assumes "cpc c = 3" and "rd c T0 = b" and "rd c T1 = b + 8 * k" and "b + 8 * k \<le> usize_max"
  shows "asm_run (5 * k + 2) at entry_text c =
    Go (c\<lparr>cmem := \<lambda>x. if b \<le> x \<and> x < b + 8 * k then 0 else cmem c x, xr := (xr c)(T0 := b + 8 * k), cpc := 8\<rparr>)"
  using assms
proof (induction k arbitrary: b c)
  case 0
  have 1: "asm_run 1 at entry_text c = Go (c\<lparr>cpc := 4\<rparr>)" using run_label [of c entry_text] 0(1) by (simp add: entry_lines)
  have 2: "asm_run 1 at entry_text (c\<lparr>cpc := 4\<rparr>) = Go (c\<lparr>cpc := 8\<rparr>)"
    by (subst run_transfer [where i = "Bgeu T0 T1 ''2''"]) (simp_all add: entry_lines jump_def 0)
  have "asm_run (1 + 1) at entry_text c = Go (c\<lparr>cpc := 8\<rparr>)" by (simp only: asm_run_go [OF 1] 2)
  moreover have "(xr c)(T0 := b) = xr c" using 0(2) by (auto simp: rd_def)
  moreover have "(\<lambda>x. if b \<le> x \<and> x < b then 0 else cmem c x) = cmem c" by (rule ext) auto
  ultimately show ?case by simp
next
  case (Suc k)
  let ?d = "c\<lparr>cmem := store64 (cmem c) b 0, xr := (xr c)(T0 := b + 8), cpc := 3\<rparr>"
  have 1: "asm_run 5 at entry_text c = Go ?d" using Suc.prems by (intro bss_turn [where e = "b + 8 * Suc k"]) auto
  have "asm_run (5 * k + 2) at entry_text ?d = Go (c\<lparr>cmem := \<lambda>x. if b + 8 \<le> x \<and> x < b + 8 + 8 * k then 0 else store64 (cmem c) b 0 x,
      xr := (xr c)(T0 := b + 8 + 8 * k), cpc := 8\<rparr>)"
    using Suc.prems by (subst Suc.IH [of ?d "b + 8"]) (simp_all add: rd_def cong: if_cong)
  moreover have "(\<lambda>x. if b + 8 \<le> x \<and> x < b + 8 + 8 * k then 0 else store64 (cmem c) b 0 x) =
      (\<lambda>x. if b \<le> x \<and> x < b + 8 * Suc k then 0 else cmem c x)" by (rule ext) (auto simp: store64_zero)
  ultimately have "asm_run (5 + (5 * k + 2)) at entry_text c =
      Go (c\<lparr>cmem := \<lambda>x. if b \<le> x \<and> x < b + 8 * Suc k then 0 else cmem c x, xr := (xr c)(T0 := b + 8 * Suc k), cpc := 8\<rparr>)"
    by (simp only: asm_run_go [OF 1]) (simp add: add.assoc)
  then show ?case by (simp add: fun_upd_def)
qed


text \<open>
  C40. The entry of the kernel returns from its loop and calls \<open>kmain\<close> with the firmware's arguments: \<open>.bss\<close> is zero, no other byte
  has changed, and the stack pointer is the top of the boot stack.
\<close>

theorem entry_correct:
  assumes "cpc c = 0" and "at ''__bss_end'' = at ''__bss_start'' + 8 * k" and "at ''__bss_end'' \<le> usize_max"
  shows "\<exists>c'. asm_run (5 * k + 8) at entry_text c = Calls ''kmain'' c' \<and> rd c' A0 = rd c A0 \<and> rd c' A1 = rd c A1 \<and>
     rd c' Sp = at ''__boot_stack_top'' \<and>
     cmem c' = (\<lambda>x. if at ''__bss_start'' \<le> x \<and> x < at ''__bss_end'' then 0 else cmem c x)"
proof -
  let ?b = "at ''__bss_start''" and ?e = "at ''__bss_end''"
  let ?c = "c\<lparr>xr := (xr c)(T0 := ?b, T1 := ?e), cpc := 3\<rparr>"
  let ?d = "c\<lparr>cmem := \<lambda>x. if ?b \<le> x \<and> x < ?e then 0 else cmem c x, xr := (xr c)(T0 := ?e, T1 := ?e)\<rparr>"
  let ?s = "?d\<lparr>xr := (xr ?d)(Sp := at ''__boot_stack_top'')\<rparr>"
  have 1: "asm_run 1 at entry_text c = Go (c\<lparr>cpc := 1\<rparr>)" using run_label [of c entry_text] assms(1) by (simp add: entry_lines)
  have 2: "asm_run 2 at entry_text (c\<lparr>cpc := 1\<rparr>) = Go ?c"
    using run_block [OF entry_lines(8), of at "c\<lparr>cpc := 1\<rparr>" "c\<lparr>cpc := 1, xr := (xr c)(T0 := ?b, T1 := ?e)\<rparr>" 3] by (simp add: wr_def)
  have 3: "asm_run (5 * k + 2) at entry_text ?c = Go (?d\<lparr>cpc := 8\<rparr>)"
    using bss_loop [of ?c ?b k at] assms by (simp add: fun_upd_twist cong: if_cong)
  have 4: "asm_run 1 at entry_text (?d\<lparr>cpc := 8\<rparr>) = Go (?d\<lparr>cpc := 9\<rparr>)" by (subst run_label) (simp_all add: entry_lines)
  have 5: "asm_run 1 at entry_text (?d\<lparr>cpc := 9\<rparr>) = Go (?s\<lparr>cpc := 10\<rparr>)"
    using run_block [OF entry_lines(10), of at "?d\<lparr>cpc := 9\<rparr>" "?s\<lparr>cpc := 9\<rparr>" 10] by (simp add: wr_def)
  have 6: "asm_run 1 at entry_text (?s\<lparr>cpc := 10\<rparr>) = Calls ''kmain'' (?s\<lparr>cpc := 11\<rparr>)"
    by (subst run_transfer [where i = "Call ''kmain''"]) (simp_all add: entry_lines)
  have "asm_run (1 + (2 + ((5 * k + 2) + (1 + (1 + 1))))) at entry_text c = Calls ''kmain'' (?s\<lparr>cpc := 11\<rparr>)"
    by (simp only: asm_run_go [OF 1] asm_run_go [OF 2] asm_run_go [OF 3] asm_run_go [OF 4] asm_run_go [OF 5] 6)
  moreover have "1 + (2 + ((5 * k + 2) + (1 + (1 + 1)))) = 5 * k + 8" by simp
  ultimately have "asm_run (5 * k + 8) at entry_text c = Calls ''kmain'' (?s\<lparr>cpc := 11\<rparr>)" by (simp only:)
  then show ?thesis by (intro exI [of _ "?s\<lparr>cpc := 11\<rparr>"]) (simp add: rd_def)
qed

theorem entry_correct_witness:
  "\<exists>c'. asm_run 18 (\<lambda>l. if l = ''__bss_start'' then 0x80300000 else if l = ''__bss_end'' then 0x80300010 else 0x80310000) entry_text demo_core =
      Calls ''kmain'' c' \<and> rd c' A0 = 7 \<and> rd c' Sp = 0x80310000 \<and> cmem c' 0x8030000f = 0"
  using entry_correct [of demo_core "\<lambda>l. if l = ''__bss_start'' then 0x80300000 else if l = ''__bss_end'' then 0x80300010 else 0x80310000" 2]
  by (auto simp: demo_core_def rd_def usize_max_eq)

end
